(* ===== verification/Mesh_Prelude.thy ===== *)
theory Mesh_Prelude
  imports Main "HOL-Library.Word" "HOL-Library.List_Lexorder" "HOL-Library.Char_ord"
begin

text \<open>
  The prelude of the development: the machine-integer operations of the Rust standard library
  that the components use (\<open>checked_add\<close>, \<open>checked_sub\<close>, \<open>checked_mul\<close>, the saturating
  variants), a few facts on lists, options and sums, and the ordered containers
  \<open>BTreeMap\<close> and \<open>BTreeSet\<close> as sorted association lists. A sorted association list is a
  canonical representation: two maps with the same lookups are equal, so an equation between
  two states of a component says that the states agree entry by entry.
\<close>

named_theorems mesh_simps \<open>rewrite rules that unfold the standard-library layer\<close>

type_synonym byte = "8 word"
type_synonym u8 = "8 word"
type_synonym u16 = "16 word"
type_synonym u32 = "32 word"
type_synonym u64 = "64 word"

section \<open>Checked and saturating arithmetic on 64-bit words\<close>

definition u64_max :: u64 where
  "u64_max = 18446744073709551615"

definition checked_add :: "u64 \<Rightarrow> u64 \<Rightarrow> u64 option" where
  "checked_add a b = (if unat a + unat b < 2 ^ 64 then Some (a + b) else None)"

definition checked_sub :: "u64 \<Rightarrow> u64 \<Rightarrow> u64 option" where
  "checked_sub a b = (if b \<le> a then Some (a - b) else None)"

definition checked_mul :: "u64 \<Rightarrow> u64 \<Rightarrow> u64 option" where
  "checked_mul a b = (if unat a * unat b < 2 ^ 64 then Some (a * b) else None)"

definition saturating_add :: "u64 \<Rightarrow> u64 \<Rightarrow> u64" where
  "saturating_add a b = (case checked_add a b of Some c \<Rightarrow> c | None \<Rightarrow> u64_max)"

definition saturating_sub :: "u64 \<Rightarrow> u64 \<Rightarrow> u64" where
  "saturating_sub a b = (case checked_sub a b of Some c \<Rightarrow> c | None \<Rightarrow> 0)"

text \<open>A \<open>usize\<close> is a natural number below \<open>2 ^ 64\<close>; its checked operations write the bound out.\<close>

definition usize_add :: "nat \<Rightarrow> nat \<Rightarrow> nat option" where
  "usize_add a b = (if a + b < 2 ^ 64 then Some (a + b) else None)"

definition usize_mul :: "nat \<Rightarrow> nat \<Rightarrow> nat option" where
  "usize_mul a b = (if a * b < 2 ^ 64 then Some (a * b) else None)"

definition usize_sub :: "nat \<Rightarrow> nat \<Rightarrow> nat option" where
  "usize_sub a b = (if b \<le> a then Some (a - b) else None)"

primrec usize_sum :: "nat list \<Rightarrow> nat \<Rightarrow> nat option" where
  "usize_sum [] acc = Some acc"
| "usize_sum (n # ns) acc = (case usize_add acc n of None \<Rightarrow> None | Some acc \<Rightarrow> usize_sum ns acc)"

lemma unat_u64_less [simp]: "unat (a :: u64) < 18446744073709551616"
  using unsigned_less [of a] by simp

lemma unat_bound: "unat (a :: u64) < 2 ^ 64"
  by simp

lemma unat_u64_le [simp]: "unat (a :: u64) \<le> 18446744073709551615"
  using unat_u64_less [of a] by linarith

lemma not_le_unat_u64 [simp]: "\<not> 18446744073709551616 \<le> unat (a :: u64)"
  using unat_u64_less [of a] by linarith

lemma unat_u64_max [simp]: "unat u64_max = 18446744073709551615"
  by (simp add: u64_max_def)

lemma checked_add_Some_iff:
  "checked_add a b = Some c \<longleftrightarrow> unat c = unat a + unat b"
proof
  assume "checked_add a b = Some c"
  then show "unat c = unat a + unat b"
    by (auto simp: checked_add_def unat_word_ariths split: if_splits)
next
  assume *: "unat c = unat a + unat b"
  then have "unat a + unat b < 2 ^ 64" using unat_u64_less [of c] by simp
  moreover from this have "unat (a + b) = unat c"
    using * by (simp add: unat_word_ariths)
  ultimately show "checked_add a b = Some c"
    by (simp add: checked_add_def word_unat_eq_iff)
qed

lemma checked_add_None_iff:
  "checked_add a b = None \<longleftrightarrow> 18446744073709551615 < unat a + unat b"
  by (auto simp: checked_add_def)

lemma checked_sub_Some_iff:
  "checked_sub a b = Some c \<longleftrightarrow> unat a = unat c + unat b"
proof
  assume "checked_sub a b = Some c"
  then show "unat a = unat c + unat b"
    by (auto simp: checked_sub_def word_le_nat_alt unat_sub split: if_splits)
next
  assume *: "unat a = unat c + unat b"
  then have "b \<le> a" by (simp add: word_le_nat_alt)
  moreover from this have "unat (a - b) = unat c" using * by (simp add: unat_sub word_le_nat_alt)
  ultimately show "checked_sub a b = Some c"
    by (simp add: checked_sub_def word_unat_eq_iff)
qed

lemma checked_sub_None_iff: "checked_sub a b = None \<longleftrightarrow> unat a < unat b"
  by (auto simp: checked_sub_def word_le_nat_alt)

lemma checked_mul_Some_iff:
  "checked_mul a b = Some c \<longleftrightarrow> unat c = unat a * unat b"
proof
  assume "checked_mul a b = Some c"
  then show "unat c = unat a * unat b"
    by (auto simp: checked_mul_def unat_word_ariths split: if_splits)
next
  assume *: "unat c = unat a * unat b"
  then have "unat a * unat b < 2 ^ 64" using unat_u64_less [of c] by simp
  moreover from this have "unat (a * b) = unat c"
    using * by (simp add: unat_word_ariths)
  ultimately show "checked_mul a b = Some c"
    by (simp add: checked_mul_def word_unat_eq_iff)
qed

lemma unat_saturating_add:
  "unat (saturating_add a b) = min (unat a + unat b) 18446744073709551615"
proof (cases "checked_add a b")
  case None
  then show ?thesis by (simp add: saturating_add_def checked_add_None_iff [THEN iffD1])
next
  case (Some c)
  then have "unat c = unat a + unat b" by (simp add: checked_add_Some_iff)
  then show ?thesis using Some unat_u64_le [of c] by (simp add: saturating_add_def)
qed

lemma unat_saturating_sub: "unat (saturating_sub a b) = unat a - unat b"
proof (cases "checked_sub a b")
  case None
  then show ?thesis by (simp add: saturating_sub_def checked_sub_None_iff [THEN iffD1] less_imp_le)
next
  case (Some c)
  then show ?thesis using checked_sub_Some_iff [of a b c] by (simp add: saturating_sub_def)
qed

section \<open>Lists\<close>

lemma list_ex_key_iff: "list_ex (\<lambda>x. f x = a) xs \<longleftrightarrow> a \<in> f ` set xs"
  by (induction xs) auto

section \<open>Ordered maps and sets\<close>

type_synonym ('k, 'v) bmap = "('k \<times> 'v) list"

definition bmap_wf :: "('k :: linorder, 'v) bmap \<Rightarrow> bool" where
  "bmap_wf m \<longleftrightarrow> sorted_wrt (<) (map fst m)"

definition bmap_get :: "('k, 'v) bmap \<Rightarrow> 'k \<Rightarrow> 'v option" where
  "bmap_get m k = map_of m k"

fun bmap_insert :: "'k :: linorder \<Rightarrow> 'v \<Rightarrow> ('k, 'v) bmap \<Rightarrow> ('k, 'v) bmap" where
  "bmap_insert k v [] = [(k, v)]"
| "bmap_insert k v (e # m) =
     (if fst e < k then e # bmap_insert k v m
      else if fst e = k then (k, v) # m
      else (k, v) # e # m)"

definition bmap_remove :: "'k \<Rightarrow> ('k, 'v) bmap \<Rightarrow> ('k, 'v) bmap" where
  "bmap_remove k m = filter (\<lambda>e. fst e \<noteq> k) m"

definition bmap_contains :: "('k, 'v) bmap \<Rightarrow> 'k \<Rightarrow> bool" where
  "bmap_contains m k \<longleftrightarrow> bmap_get m k \<noteq> None"

definition bset_wf :: "'a :: linorder list \<Rightarrow> bool" where
  "bset_wf xs \<longleftrightarrow> sorted_wrt (<) xs"

definition bset_insert :: "'a :: linorder \<Rightarrow> 'a list \<Rightarrow> 'a list" where
  "bset_insert x xs = insort_insert x xs"

definition bset_remove :: "'a \<Rightarrow> 'a list \<Rightarrow> 'a list" where
  "bset_remove x xs = filter (\<lambda>y. y \<noteq> x) xs"

definition bset_of_list :: "'a :: linorder list \<Rightarrow> 'a list" where
  "bset_of_list xs = fold bset_insert xs []"

lemma bmap_wf_Nil [simp]: "bmap_wf []"
  by (simp add: bmap_wf_def)

lemma bmap_wf_Cons: "bmap_wf (e # m) \<longleftrightarrow> (\<forall>k \<in> fst ` set m. fst e < k) \<and> bmap_wf m"
  by (simp add: bmap_wf_def)

lemma bmap_get_Nil [simp]: "bmap_get [] k = None"
  by (simp add: bmap_get_def)

lemma bmap_get_Cons: "bmap_get (e # m) k = (if fst e = k then Some (snd e) else bmap_get m k)"
  by (cases e) (auto simp: bmap_get_def)

lemma bmap_wf_distinct_keys: "bmap_wf m \<Longrightarrow> distinct (map fst m)"
  by (auto simp: bmap_wf_def strict_sorted_iff)

lemma set_bmap_insert: "fst ` set (bmap_insert k v m) = insert k (fst ` set m)"
  by (induction m) auto

lemma bmap_wf_insert [simp, intro]: "bmap_wf m \<Longrightarrow> bmap_wf (bmap_insert k v m)"
  by (induction m) (simp_all add: bmap_wf_Cons set_bmap_insert, simp add: bmap_wf_def, force)

lemma bmap_get_insert [simp]:
  "bmap_wf m \<Longrightarrow> bmap_get (bmap_insert k v m) k' = (if k' = k then Some v else bmap_get m k')"
proof (induction m)
  case (Cons e m)
  then show ?case by (auto simp: bmap_wf_Cons bmap_get_Cons)
qed (auto simp: bmap_get_Cons)

lemma bmap_wf_remove [simp, intro]: "bmap_wf m \<Longrightarrow> bmap_wf (bmap_remove k m)"
  by (induction m) (auto simp: bmap_remove_def bmap_wf_Cons)

lemma bmap_get_remove [simp]:
  "bmap_get (bmap_remove k m) k' = (if k' = k then None else bmap_get m k')"
  by (induction m) (auto simp: bmap_remove_def bmap_get_Cons)

lemma bmap_get_None_iff: "bmap_get m k = None \<longleftrightarrow> k \<notin> fst ` set m"
  by (simp add: bmap_get_def map_of_eq_None_iff)

lemma bmap_get_Some_in_set: "bmap_get m k = Some v \<Longrightarrow> (k, v) \<in> set m"
  by (simp add: bmap_get_def map_of_SomeD)

lemma bmap_get_eq_Some_iff: "bmap_wf m \<Longrightarrow> bmap_get m k = Some v \<longleftrightarrow> (k, v) \<in> set m"
  by (simp add: bmap_get_def bmap_wf_distinct_keys)

lemma bmap_of_keys:
  assumes "bmap_wf m"
  shows "map (\<lambda>k. (k, the (bmap_get m k))) (map fst m) = m"
proof -
  have "(fst e, the (bmap_get m (fst e))) = e" if "e \<in> set m" for e
    using assms that bmap_get_eq_Some_iff [of m "fst e" "snd e"] by simp
  then show ?thesis by (simp add: map_idI)
qed

lemma bmap_eqI:
  assumes "bmap_wf m" "bmap_wf m'" "\<And>k. bmap_get m k = bmap_get m' k"
  shows "m = m'"
proof -
  have "k \<in> fst ` set m \<longleftrightarrow> k \<in> fst ` set m'" for k
    using assms(3) [of k] bmap_get_None_iff [of m k] bmap_get_None_iff [of m' k] by auto
  then have "set (map fst m) = set (map fst m')" by (simp only: set_map set_eq_iff) blast
  then have "map fst m = map fst m'"
    using assms(1,2) by (intro strict_sorted_equal) (simp_all add: bmap_wf_def)
  then show ?thesis
    using bmap_of_keys [OF assms(1)] bmap_of_keys [OF assms(2)] assms(3) by simp
qed

lemma bset_wf_insert [simp, intro]: "bset_wf xs \<Longrightarrow> bset_wf (bset_insert x xs)"
  by (simp add: bset_wf_def bset_insert_def strict_sorted_iff distinct_insort_insert
      sorted_insort_insert)

lemma bset_wf_Nil [simp]: "bset_wf []"
  by (simp add: bset_wf_def)

lemma set_bset_insert [simp]: "set (bset_insert x xs) = insert x (set xs)"
  by (simp add: bset_insert_def set_insort_insert)

lemma bset_wf_remove [simp, intro]: "bset_wf xs \<Longrightarrow> bset_wf (bset_remove x xs)"
  by (simp add: bset_wf_def bset_remove_def sorted_wrt_filter)

lemma set_bset_remove [simp]: "set (bset_remove x xs) = set xs - {x}"
  by (auto simp: bset_remove_def)

lemma bset_eqI: "\<lbrakk>bset_wf xs; bset_wf ys; set xs = set ys\<rbrakk> \<Longrightarrow> xs = ys"
  by (simp add: bset_wf_def strict_sorted_equal)

lemma bset_wf_distinct: "bset_wf xs \<Longrightarrow> distinct xs"
  by (simp add: bset_wf_def strict_sorted_iff)

lemma length_bset_insert:
  "length (bset_insert x xs) = (if x \<in> set xs then length xs else Suc (length xs))"
  by (simp add: bset_insert_def insort_insert_key_def)

lemma length_bset_remove:
  "bset_wf xs \<Longrightarrow> length (bset_remove x xs) = (if x \<in> set xs then length xs - 1 else length xs)"
  by (metis bset_remove_def bset_wf_distinct card_Diff_singleton_if distinct_card distinct_filter
      set_bset_remove)

lemma bset_wf_of_list [simp, intro]: "bset_wf (bset_of_list xs)"
proof -
  have "bset_wf ys \<Longrightarrow> bset_wf (fold bset_insert xs ys)" for ys
    by (induction xs arbitrary: ys) auto
  then show ?thesis by (simp add: bset_of_list_def)
qed

lemma set_bset_of_list [simp]: "set (bset_of_list xs) = set xs"
proof -
  have "set (fold bset_insert xs ys) = set ys \<union> set xs" for ys
    by (induction xs arbitrary: ys) auto
  then show ?thesis by (simp add: bset_of_list_def)
qed

subsection \<open>The map interface the components rely on\<close>

text \<open>
  The contract of an ordered map: lookups after updates, and extensionality of well-formed maps.
  The laws of commuting and cancelling updates follow from it once and for all.
\<close>

locale ordered_map =
  fixes wf :: "'m \<Rightarrow> bool"
    and get :: "'m \<Rightarrow> 'k \<Rightarrow> 'v option"
    and ins :: "'k \<Rightarrow> 'v \<Rightarrow> 'm \<Rightarrow> 'm"
    and rem :: "'k \<Rightarrow> 'm \<Rightarrow> 'm"
  assumes wf_ins: "wf m \<Longrightarrow> wf (ins k v m)"
    and wf_rem: "wf m \<Longrightarrow> wf (rem k m)"
    and get_ins: "wf m \<Longrightarrow> get (ins k v m) k' = (if k' = k then Some v else get m k')"
    and get_rem: "wf m \<Longrightarrow> get (rem k m) k' = (if k' = k then None else get m k')"
    and ext: "\<lbrakk>wf m; wf m'; \<And>k. get m k = get m' k\<rbrakk> \<Longrightarrow> m = m'"
begin

lemma rem_ins_fresh: "\<lbrakk>wf m; get m k = None\<rbrakk> \<Longrightarrow> rem k (ins k v m) = m"
  by (rule ext) (auto simp: wf_ins wf_rem get_ins get_rem)

lemma ins_get_same: "\<lbrakk>wf m; get m k = Some v\<rbrakk> \<Longrightarrow> ins k v m = m"
  by (rule ext) (auto simp: wf_ins get_ins)

lemma ins_ins_same: "wf m \<Longrightarrow> ins k v (ins k v' m) = ins k v m"
  by (rule ext) (auto simp: wf_ins get_ins)

lemma ins_commute: "\<lbrakk>wf m; k \<noteq> k'\<rbrakk> \<Longrightarrow> ins k v (ins k' v' m) = ins k' v' (ins k v m)"
  by (rule ext) (auto simp: wf_ins get_ins)

lemma ins_rem_restore: "\<lbrakk>wf m; get m k = Some v\<rbrakk> \<Longrightarrow> ins k v (rem k m) = m"
  by (rule ext) (auto simp: wf_ins wf_rem get_ins get_rem)

lemma rem_absent: "\<lbrakk>wf m; get m k = None\<rbrakk> \<Longrightarrow> rem k m = m"
  by (rule ext) (auto simp: wf_rem get_rem)

end

interpretation bm: ordered_map bmap_wf bmap_get bmap_insert bmap_remove
  by unfold_locales (auto intro: bmap_eqI)

subsection \<open>Sums over the entries of a map\<close>

definition bmap_total :: "('v \<Rightarrow> nat) \<Rightarrow> ('k, 'v) bmap \<Rightarrow> nat" where
  "bmap_total f m = sum_list (map (f \<circ> snd) m)"

lemma bmap_total_Nil [simp]: "bmap_total f [] = 0"
  by (simp add: bmap_total_def)

lemma bmap_total_insert_fresh:
  "bmap_get m k = None \<Longrightarrow> bmap_total f (bmap_insert k v m) = f v + bmap_total f m"
  by (induction m) (auto simp: bmap_total_def bmap_get_Cons split: if_splits)

lemma bmap_total_remove:
  "\<lbrakk>bmap_wf m; bmap_get m k = Some v\<rbrakk> \<Longrightarrow> bmap_total f m = f v + bmap_total f (bmap_remove k m)"
  using bmap_total_insert_fresh [of "bmap_remove k m" k f v] by (simp add: bm.ins_rem_restore)

lemma bmap_total_update:
  assumes "bmap_wf m" "bmap_get m k = Some v"
  shows "bmap_total f (bmap_insert k v' m) + f v = bmap_total f m + f v'"
proof -
  have "bmap_insert k v' m = bmap_insert k v' (bmap_remove k m)"
    using assms by (intro bmap_eqI) auto
  then have "bmap_total f (bmap_insert k v' m) = f v' + bmap_total f (bmap_remove k m)"
    by (simp add: bmap_total_insert_fresh)
  then show ?thesis using bmap_total_remove [OF assms, of f] by simp
qed

end
