(* ===== verification/Resource_Claims.thy ===== *)
theory Resource_Claims
  imports Mesh_Prelude
begin

text \<open>
  Resource classes and composite claims (\<open>resource/provider.rs\<close>): the eleven resource
  dimensions in the order of \<open>ResourceClass::ALL\<close>, a claim as the array of 64-bit amounts
  indexed by the class, and the claim arithmetic, whose loops walk \<open>ALL\<close> and report the first
  dimension that overflows or underflows. The lemmas characterise each operation on both
  branches, over the natural numbers the amounts stand for.
\<close>

datatype resource_class =
    AccountedMemoryBytes
  | QueuedBytes
  | SocketOrHandle
  | NativeTransportObject
  | WorkerOrTask
  | CallbackOrScheduledWork
  | StorageBytes
  | StorageObject
  | RelayOrProviderAllocation
  | ParsingOrCpuWork
  | OpaqueDependencyResidual

definition all_classes :: "resource_class list" where
  "all_classes =
     [AccountedMemoryBytes, QueuedBytes, SocketOrHandle, NativeTransportObject, WorkerOrTask,
      CallbackOrScheduledWork, StorageBytes, StorageObject, RelayOrProviderAllocation,
      ParsingOrCpuWork, OpaqueDependencyResidual]"

type_synonym resource_claim = "resource_class \<Rightarrow> u64"

datatype claim_error = Overflow resource_class | Underflow resource_class

definition zero_claim :: resource_claim where
  "zero_claim = (\<lambda>_. 0)"

definition single_claim :: "resource_class \<Rightarrow> u64 \<Rightarrow> resource_claim" where
  "single_claim dimension amount = zero_claim(dimension := amount)"

fun try_from_entries_loop ::
    "(resource_class \<times> u64) list \<Rightarrow> resource_claim \<Rightarrow> claim_error + resource_claim" where
  "try_from_entries_loop [] claim = Inr claim"
| "try_from_entries_loop ((dimension, amount) # entries) claim =
     (case checked_add (claim dimension) amount of
        None \<Rightarrow> Inl (Overflow dimension)
      | Some summed \<Rightarrow> try_from_entries_loop entries (claim(dimension := summed)))"

definition try_from_entries :: "(resource_class \<times> u64) list \<Rightarrow> claim_error + resource_claim" where
  "try_from_entries entries = try_from_entries_loop entries zero_claim"

fun claim_loop ::
    "(resource_class \<Rightarrow> u64 option) \<Rightarrow> (resource_class \<Rightarrow> claim_error) \<Rightarrow> resource_class list \<Rightarrow>
     resource_claim \<Rightarrow> claim_error + resource_claim" where
  "claim_loop op err [] result = Inr result"
| "claim_loop op err (dimension # rest) result =
     (case op dimension of
        None \<Rightarrow> Inl (err dimension)
      | Some amount \<Rightarrow> claim_loop op err rest (result(dimension := amount)))"

definition claim_checked_add ::
    "resource_claim \<Rightarrow> resource_claim \<Rightarrow> claim_error + resource_claim" where
  "claim_checked_add a b =
     claim_loop (\<lambda>d. checked_add (a d) (b d)) Overflow all_classes zero_claim"

definition claim_checked_sub ::
    "resource_claim \<Rightarrow> resource_claim \<Rightarrow> claim_error + resource_claim" where
  "claim_checked_sub a b =
     claim_loop (\<lambda>d. checked_sub (a d) (b d)) Underflow all_classes zero_claim"

definition claim_checked_scale :: "resource_claim \<Rightarrow> u64 \<Rightarrow> claim_error + resource_claim" where
  "claim_checked_scale a factor =
     claim_loop (\<lambda>d. checked_mul (a d) factor) Overflow all_classes zero_claim"

definition claim_is_zero :: "resource_claim \<Rightarrow> bool" where
  "claim_is_zero claim = list_all (\<lambda>d. claim d = 0) all_classes"

section \<open>The class enumeration\<close>

lemma all_classes_complete [simp]: "d \<in> set all_classes"
  by (cases d) (simp_all add: all_classes_def)

lemma set_all_classes [simp]: "set all_classes = UNIV"
  by auto

lemma distinct_all_classes [simp]: "distinct all_classes"
  by (simp add: all_classes_def)

instantiation resource_class :: enum
begin

definition enum_resource_class :: "resource_class list" where
  "enum_resource_class = all_classes"

definition enum_all_resource_class :: "(resource_class \<Rightarrow> bool) \<Rightarrow> bool" where
  "enum_all_resource_class P = list_all P all_classes"

definition enum_ex_resource_class :: "(resource_class \<Rightarrow> bool) \<Rightarrow> bool" where
  "enum_ex_resource_class P = list_ex P all_classes"

instance
  by standard
     (auto simp: enum_resource_class_def enum_all_resource_class_def enum_ex_resource_class_def
       list_all_iff list_ex_iff)

end

section \<open>The loops\<close>

lemma claim_loop_Inr_iff:
  assumes "distinct ds"
  shows "claim_loop op err ds acc = Inr r \<longleftrightarrow>
    (\<forall>d. (d \<in> set ds \<longrightarrow> op d = Some (r d)) \<and> (d \<notin> set ds \<longrightarrow> r d = acc d))"
  using assms
proof (induction ds arbitrary: acc)
  case Nil
  then show ?case by auto
next
  case (Cons x ds)
  then show ?case by (cases "op x") (auto split: if_splits)
qed

lemma claim_loop_Inl_iff:
  "claim_loop op err ds acc = Inl e \<longleftrightarrow>
    (\<exists>d. find (\<lambda>d. op d = None) ds = Some d \<and> e = err d)"
  by (induction ds arbitrary: acc) (auto split: option.split)

lemma claim_checked_add_Inr_iff:
  "claim_checked_add a b = Inr c \<longleftrightarrow> (\<forall>d. unat (c d) = unat (a d) + unat (b d))"
  by (simp add: claim_checked_add_def claim_loop_Inr_iff checked_add_Some_iff)

lemma claim_checked_sub_Inr_iff:
  "claim_checked_sub a b = Inr c \<longleftrightarrow> (\<forall>d. unat (a d) = unat (c d) + unat (b d))"
  by (simp add: claim_checked_sub_def claim_loop_Inr_iff checked_sub_Some_iff)

lemma claim_checked_scale_Inr_iff:
  "claim_checked_scale a f = Inr c \<longleftrightarrow> (\<forall>d. unat (c d) = unat (a d) * unat f)"
  by (simp add: claim_checked_scale_def claim_loop_Inr_iff checked_mul_Some_iff)

lemma claim_loop_total: "(\<And>d. op d \<noteq> None) \<Longrightarrow> \<exists>r. claim_loop op err ds acc = Inr r"
proof (induction ds arbitrary: acc)
  case (Cons d ds)
  obtain x where "op d = Some x" using Cons.prems [of d] by auto
  then show ?case using Cons by simp
qed simp

lemma claim_checked_add_ex:
  assumes "\<And>d. unat (a d) + unat (b d) < 2 ^ 64"
  obtains c where "claim_checked_add a b = Inr c" "\<And>d. unat (c d) = unat (a d) + unat (b d)"
proof -
  have "checked_add (a d) (b d) \<noteq> None" for d
    using assms [of d] by (simp add: checked_add_def)
  then obtain c where "claim_checked_add a b = Inr c"
    unfolding claim_checked_add_def
    using claim_loop_total [of "\<lambda>d. checked_add (a d) (b d)" Overflow all_classes zero_claim] by blast
  with that show ?thesis by (simp add: claim_checked_add_Inr_iff)
qed

lemma claim_checked_sub_ex:
  assumes "\<And>d. unat (b d) \<le> unat (a d)"
  obtains c where "claim_checked_sub a b = Inr c" "\<And>d. unat (c d) = unat (a d) - unat (b d)"
proof -
  have "checked_sub (a d) (b d) \<noteq> None" for d
    using assms [of d] by (simp add: checked_sub_def word_le_nat_alt)
  then obtain c where c: "claim_checked_sub a b = Inr c"
    unfolding claim_checked_sub_def
    using claim_loop_total [of "\<lambda>d. checked_sub (a d) (b d)" Underflow all_classes zero_claim] by blast
  then have "unat (c d) = unat (a d) - unat (b d)" for d
    by (simp add: claim_checked_sub_Inr_iff)
  with c that show ?thesis by blast
qed

lemma claim_is_zero_iff [simp]: "claim_is_zero claim \<longleftrightarrow> claim = zero_claim"
  by (auto simp: claim_is_zero_def zero_claim_def list_all_iff fun_eq_iff)

text \<open>
  The entries of a claim are summed per dimension: a successful construction holds, in every
  dimension, exactly the sum of the entries that name it, so no entry is lost and none counted
  twice.
\<close>

lemma try_from_entries_loop_sum:
  "try_from_entries_loop entries acc = Inr claim \<Longrightarrow>
   unat (claim d) = unat (acc d) + (\<Sum>(x, n) \<leftarrow> entries. if x = d then unat n else 0)"
proof (induction entries acc rule: try_from_entries_loop.induct)
  case (2 dimension amount entries acc)
  show ?case
  proof (cases "checked_add (acc dimension) amount")
    case None
    with "2.prems" show ?thesis by simp
  next
    case (Some summed)
    then have "unat summed = unat (acc dimension) + unat amount"
      by (simp add: checked_add_Some_iff)
    moreover have "try_from_entries_loop entries (acc(dimension := summed)) = Inr claim"
      using "2.prems" Some by simp
    note "2.IH" [OF Some this]
    ultimately show ?thesis by simp
  qed
qed simp

end
