(* ===== verification/Resource_Provider.thy ===== *)
theory Resource_Provider
  imports Resource_Claims
begin

text \<open>
  The finite resource provider (\<open>resource/provider.rs\<close>, module \<open>finite\<close>): one process grant, the
  charge in use, the charge retained after a failed cleanup, the live reservations and the
  registered scopes, all behind one mutex. Every trait method of \<open>FiniteResourceProvider\<close> is one
  definition that takes the state and returns the state it leaves with its result. The mutex is
  the flag \<open>lock_poisoned\<close>: a panic while the lock is held sets it, and the next \<open>lock_state\<close>
  poisons the accounting.

  The invariant \<open>provider_inv\<close> says that the charge in use is, in every dimension, exactly the sum
  of the live reservations, their bookkeeping, the scopes and the retained charge, and never
  exceeds the grant. The lemmas show that each operation keeps it and describe each operation on
  every branch. The code under \<open>cfg(test)\<close> (scripted pressure) is not part of the model.
\<close>

section \<open>Data\<close>

type_synonym scope_id = u64
type_synonym identity = u64

datatype authority_class = Cleanup | Admitted | Speculative

record resource_pressure =
  pr_scope :: scope_id
  pr_authority :: authority_class
  pr_dimension :: resource_class
  pr_requested :: u64
  pr_in_use :: u64
  pr_capacity :: u64

datatype unavailable =
    Pressure resource_pressure
  | UnknownScope scope_id
  | ProviderInvariant resource_class

definition unavailable_dimension :: "unavailable \<Rightarrow> resource_class option" where
  "unavailable_dimension e =
     (case e of
        Pressure p \<Rightarrow> Some (pr_dimension p)
      | ProviderInvariant d \<Rightarrow> Some d
      | UnknownScope _ \<Rightarrow> None)"

record reservation =
  res_scope :: scope_id
  res_authority :: authority_class
  res_claim :: resource_claim

record provider_state =
  grant :: resource_claim
  in_use :: resource_claim
  retained_after_failed_cleanup :: resource_claim
  poisoned :: "resource_class option"
  provider_authority :: "identity option"
  next_reservation_id :: u64
  reservations :: "(u64, reservation) bmap"
  scopes :: "scope_id list"
  lock_poisoned :: bool

record reservation_state =
  rs_reservation_id :: u64
  rs_scope_id :: scope_id
  rs_authority :: authority_class
  rs_claim :: resource_claim

datatype 'a outcome = Done 'a | Panic

type_synonym 'a provider_result = "provider_state \<times> (unavailable + 'a) outcome"

section \<open>Private helpers\<close>

definition provider_new :: "resource_claim \<Rightarrow> provider_state" where
  "provider_new g =
     \<lparr>grant = g, in_use = zero_claim, retained_after_failed_cleanup = zero_claim,
      poisoned = None, provider_authority = None, next_reservation_id = 1,
      reservations = [], scopes = [], lock_poisoned = False\<rparr>"

definition get_or_insert :: "'a option \<Rightarrow> 'a \<Rightarrow> 'a option" where
  "get_or_insert slot v = (case slot of None \<Rightarrow> Some v | Some w \<Rightarrow> Some w)"

definition poison :: "provider_state \<Rightarrow> resource_class \<Rightarrow> provider_state" where
  "poison st dimension = st\<lparr>poisoned := get_or_insert (poisoned st) dimension\<rparr>"

definition lock_state :: "provider_state \<Rightarrow> provider_state" where
  "lock_state st =
     (if lock_poisoned st
      then st\<lparr>poisoned := get_or_insert (poisoned st) OpaqueDependencyResidual\<rparr> else st)"

definition bookkeeping_claim :: resource_claim where
  "bookkeeping_claim = single_claim OpaqueDependencyResidual 1"

definition reservation_charge :: "resource_claim \<Rightarrow> unavailable + resource_claim" where
  "reservation_charge claim =
     (case claim_checked_add claim bookkeeping_claim of
        Inl _ \<Rightarrow> Inl (ProviderInvariant OpaqueDependencyResidual)
      | Inr charge \<Rightarrow> Inr charge)"

definition bind_provider_authority ::
    "provider_state \<Rightarrow> identity \<Rightarrow> provider_state \<times> (unavailable + unit)" where
  "bind_provider_authority st authority =
     (case provider_authority st of
        Some bound \<Rightarrow>
          if bound = authority then (st, Inr ())
          else (st, Inl (ProviderInvariant OpaqueDependencyResidual))
      | None \<Rightarrow> (st\<lparr>provider_authority := Some authority\<rparr>, Inr ()))"

definition require_provider_authority ::
    "provider_state \<Rightarrow> identity \<Rightarrow> unavailable + unit" where
  "require_provider_authority st authority =
     (if provider_authority st = Some authority then Inr ()
      else Inl (ProviderInvariant OpaqueDependencyResidual))"

definition check_poisoned :: "provider_state \<Rightarrow> unavailable + unit" where
  "check_poisoned st =
     (case poisoned st of Some d \<Rightarrow> Inl (ProviderInvariant d) | None \<Rightarrow> Inr ())"

fun admission_loop ::
    "provider_state \<Rightarrow> resource_claim \<Rightarrow> scope_id \<Rightarrow> authority_class \<Rightarrow> resource_claim list \<Rightarrow>
     resource_class list \<Rightarrow> resource_claim \<Rightarrow> resource_claim \<Rightarrow>
     provider_state \<times> (unavailable + resource_claim \<times> resource_claim)" where
  "admission_loop st base sid authority parts [] requested next = (st, Inr (requested, next))"
| "admission_loop st base sid authority parts (dimension # rest) requested next =
     (let used = base dimension; capacity = grant st dimension in
      if used > capacity then (poison st dimension, Inl (ProviderInvariant dimension))
      else
        let total128 = sum_list (map (\<lambda>part. unat (part dimension)) parts) in
        if total128 \<ge> 2 ^ 64 then (st, Inl (ProviderInvariant dimension))
        else
          let amount = (of_nat total128 :: u64) in
          if amount > capacity - used then
            (st, Inl (Pressure
               \<lparr>pr_scope = sid, pr_authority = authority, pr_dimension = dimension,
                pr_requested = amount, pr_in_use = used, pr_capacity = capacity\<rparr>))
          else
            case checked_add used amount of
              None \<Rightarrow> (st, Inl (ProviderInvariant dimension))
            | Some raised \<Rightarrow>
                admission_loop st base sid authority parts rest
                  (requested(dimension := amount)) (next(dimension := raised)))"

definition checked_admission ::
    "provider_state \<Rightarrow> resource_claim \<Rightarrow> scope_id \<Rightarrow> authority_class \<Rightarrow> resource_claim list \<Rightarrow>
     provider_state \<times> (unavailable + resource_claim \<times> resource_claim)" where
  "checked_admission st base sid authority parts =
     admission_loop st base sid authority parts all_classes zero_claim base"

definition allocate_reservation_id :: "provider_state \<Rightarrow> (u64 \<times> provider_state) option" where
  "allocate_reservation_id st =
     (case checked_add (next_reservation_id st) 1 of
        None \<Rightarrow> None
      | Some successor \<Rightarrow>
          Some (next_reservation_id st, st\<lparr>next_reservation_id := successor\<rparr>))"

definition is_exact ::
    "provider_state \<Rightarrow> u64 \<Rightarrow> scope_id \<Rightarrow> authority_class \<Rightarrow> resource_claim \<Rightarrow> bool" where
  "is_exact st rid sid authority claim =
     (case bmap_get (reservations st) rid of
        None \<Rightarrow> False
      | Some r \<Rightarrow> res_scope r = sid \<and> res_authority r = authority \<and> res_claim r = claim)"

definition refuse :: "provider_state \<Rightarrow> unavailable \<Rightarrow> 'a provider_result" where
  "refuse st e = (st, Done (Inl e))"

definition commit_reservation ::
    "provider_state \<Rightarrow> scope_id \<Rightarrow> authority_class \<Rightarrow> resource_claim \<Rightarrow> resource_claim \<Rightarrow>
     u64 provider_result" where
  "commit_reservation st sid authority claim next =
     (case allocate_reservation_id st of
        None \<Rightarrow> (st\<lparr>lock_poisoned := True\<rparr>, Panic)
      | Some (rid, st') \<Rightarrow>
          let st'' = st'\<lparr>reservations :=
                bmap_insert rid
                  \<lparr>res_scope = sid, res_authority = authority, res_claim = claim\<rparr>
                  (reservations st')\<rparr> in
          if bmap_contains (reservations st') rid then (st''\<lparr>lock_poisoned := True\<rparr>, Panic)
          else (st''\<lparr>in_use := next\<rparr>, Done (Inr rid)))"

section \<open>The trait methods\<close>

definition finite_create_scope ::
    "identity \<Rightarrow> scope_id \<Rightarrow> scope_id option \<Rightarrow> provider_state \<Rightarrow> unit provider_result" where
  "finite_create_scope pa sid parent st0 =
     (let st = lock_state st0 in
      case check_poisoned st of Inl e \<Rightarrow> refuse st e
      | Inr _ \<Rightarrow>
      case bind_provider_authority st pa of (st1, Inl e) \<Rightarrow> refuse st1 e
      | (st1, Inr _) \<Rightarrow>
      if (case parent of Some p \<Rightarrow> p \<notin> set (scopes st1) | None \<Rightarrow> False)
      then refuse st1 (UnknownScope (the parent))
      else if sid \<in> set (scopes st1)
      then refuse (poison st1 OpaqueDependencyResidual)
             (ProviderInvariant OpaqueDependencyResidual)
      else
        case checked_admission st1 (in_use st1) sid Speculative [bookkeeping_claim] of
          (st2, Inl e) \<Rightarrow> refuse st2 e
        | (st2, Inr (_, next)) \<Rightarrow>
            (st2\<lparr>scopes := bset_insert sid (scopes st2), in_use := next\<rparr>, Done (Inr ())))"

definition finite_create_scope_and_acquire ::
    "identity \<Rightarrow> scope_id \<Rightarrow> scope_id \<Rightarrow> authority_class \<Rightarrow> resource_claim \<Rightarrow> provider_state \<Rightarrow>
     u64 provider_result" where
  "finite_create_scope_and_acquire pa sid parent authority claim st0 =
     (let st = lock_state st0 in
      case check_poisoned st of Inl e \<Rightarrow> refuse st e
      | Inr _ \<Rightarrow>
      case require_provider_authority st pa of Inl e \<Rightarrow> refuse st e
      | Inr _ \<Rightarrow>
      if parent \<notin> set (scopes st) then refuse st (UnknownScope parent)
      else if sid \<in> set (scopes st)
      then refuse (poison st OpaqueDependencyResidual)
             (ProviderInvariant OpaqueDependencyResidual)
      else
      case reservation_charge claim of Inl e \<Rightarrow> refuse st e
      | Inr charge1 \<Rightarrow>
      case claim_checked_add charge1 bookkeeping_claim of
        Inl _ \<Rightarrow> refuse st (ProviderInvariant OpaqueDependencyResidual)
      | Inr charge \<Rightarrow>
        case checked_admission st (in_use st) sid authority [charge] of
          (st1, Inl e) \<Rightarrow> refuse st1 e
        | (st1, Inr (_, next)) \<Rightarrow>
            if sid \<in> set (scopes st1)
            then refuse (poison st1 OpaqueDependencyResidual)
                   (ProviderInvariant OpaqueDependencyResidual)
            else commit_reservation (st1\<lparr>scopes := bset_insert sid (scopes st1)\<rparr>)
                   sid authority claim next)"

definition finite_release_scope :: "identity \<Rightarrow> scope_id \<Rightarrow> provider_state \<Rightarrow> provider_state" where
  "finite_release_scope pa sid st0 =
     (let st = lock_state st0 in
      case require_provider_authority st pa of Inl _ \<Rightarrow> st
      | Inr _ \<Rightarrow>
      if sid \<notin> set (scopes st) \<or> list_ex (\<lambda>e. res_scope (snd e) = sid) (reservations st)
      then poison st OpaqueDependencyResidual
      else
        case claim_checked_sub (in_use st) bookkeeping_claim of
          Inl _ \<Rightarrow> poison st OpaqueDependencyResidual
        | Inr next \<Rightarrow> st\<lparr>scopes := bset_remove sid (scopes st), in_use := next\<rparr>)"

definition finite_acquire ::
    "identity \<Rightarrow> scope_id \<Rightarrow> authority_class \<Rightarrow> resource_claim \<Rightarrow> provider_state \<Rightarrow>
     u64 provider_result" where
  "finite_acquire pa sid authority claim st0 =
     (let st = lock_state st0 in
      case check_poisoned st of Inl e \<Rightarrow> refuse st e
      | Inr _ \<Rightarrow>
      case require_provider_authority st pa of Inl e \<Rightarrow> refuse st e
      | Inr _ \<Rightarrow>
      if sid \<notin> set (scopes st) then refuse st (UnknownScope sid)
      else
      case reservation_charge claim of Inl e \<Rightarrow> refuse st e
      | Inr charge \<Rightarrow>
        case checked_admission st (in_use st) sid authority [charge] of
          (st1, Inl e) \<Rightarrow> refuse st1 e
        | (st1, Inr (_, next)) \<Rightarrow> commit_reservation st1 sid authority claim next)"

definition claim_error_unavailable :: "claim_error \<Rightarrow> unavailable" where
  "claim_error_unavailable e =
     (case e of Overflow d \<Rightarrow> ProviderInvariant d | Underflow d \<Rightarrow> ProviderInvariant d)"

definition finite_transition ::
    "identity \<Rightarrow> reservation_state \<Rightarrow> authority_class \<Rightarrow> resource_claim \<Rightarrow> provider_state \<Rightarrow>
     unit provider_result" where
  "finite_transition pa current authority' claim' st0 =
     (let st = lock_state st0 in
      case check_poisoned st of Inl e \<Rightarrow> refuse st e
      | Inr _ \<Rightarrow>
      case require_provider_authority st pa of Inl e \<Rightarrow> refuse st e
      | Inr _ \<Rightarrow>
      if rs_scope_id current \<notin> set (scopes st) then refuse st (UnknownScope (rs_scope_id current))
      else if \<not> is_exact st (rs_reservation_id current) (rs_scope_id current)
                  (rs_authority current) (rs_claim current)
      then refuse (poison st OpaqueDependencyResidual)
             (ProviderInvariant OpaqueDependencyResidual)
      else
      case reservation_charge (rs_claim current) of Inl e \<Rightarrow> refuse st e
      | Inr old_charge \<Rightarrow>
      case claim_checked_sub (in_use st) old_charge of
        Inl e \<Rightarrow> refuse st (claim_error_unavailable e)
      | Inr without_current \<Rightarrow>
      case reservation_charge claim' of Inl e \<Rightarrow> refuse st e
      | Inr charge \<Rightarrow>
        case checked_admission st without_current (rs_scope_id current) authority' [charge] of
          (st1, Inl e) \<Rightarrow> refuse st1 e
        | (st1, Inr (_, next)) \<Rightarrow>
            case bmap_get (reservations st1) (rs_reservation_id current) of
              None \<Rightarrow> (st1\<lparr>lock_poisoned := True\<rparr>, Panic)
            | Some r \<Rightarrow>
                (st1\<lparr>reservations :=
                       bmap_insert (rs_reservation_id current)
                         (r\<lparr>res_authority := authority', res_claim := claim'\<rparr>)
                         (reservations st1),
                     in_use := next\<rparr>, Done (Inr ())))"

definition finite_release ::
    "identity \<Rightarrow> u64 \<Rightarrow> scope_id \<Rightarrow> authority_class \<Rightarrow> resource_claim \<Rightarrow> provider_state \<Rightarrow>
     provider_state" where
  "finite_release pa rid sid authority claim st0 =
     (let st = lock_state st0 in
      case require_provider_authority st pa of Inl _ \<Rightarrow> st
      | Inr _ \<Rightarrow>
      if sid \<notin> set (scopes st) \<or> \<not> is_exact st rid sid authority claim
      then poison st OpaqueDependencyResidual
      else
      case reservation_charge claim of Inl _ \<Rightarrow> poison st OpaqueDependencyResidual
      | Inr charge \<Rightarrow>
      case claim_checked_sub (in_use st) charge of Inl _ \<Rightarrow> poison st OpaqueDependencyResidual
      | Inr next \<Rightarrow> st\<lparr>reservations := bmap_remove rid (reservations st), in_use := next\<rparr>)"

definition finite_retain_after_failed_cleanup ::
    "identity \<Rightarrow> u64 \<Rightarrow> scope_id \<Rightarrow> authority_class \<Rightarrow> resource_claim \<Rightarrow> provider_state \<Rightarrow>
     resource_claim provider_result" where
  "finite_retain_after_failed_cleanup pa rid sid authority claim st0 =
     (let st = lock_state st0;
          broken = refuse (poison st OpaqueDependencyResidual)
                     (ProviderInvariant OpaqueDependencyResidual) in
      case require_provider_authority st pa of
        Inl _ \<Rightarrow> refuse st (ProviderInvariant OpaqueDependencyResidual)
      | Inr _ \<Rightarrow>
      if sid \<notin> set (scopes st) \<or> \<not> is_exact st rid sid authority claim then broken
      else
      case claim_checked_add (retained_after_failed_cleanup st) claim of Inl _ \<Rightarrow> broken
      | Inr retained \<Rightarrow>
      case claim_checked_sub (in_use st) bookkeeping_claim of Inl _ \<Rightarrow> broken
      | Inr next \<Rightarrow>
          (st\<lparr>reservations := bmap_remove rid (reservations st),
              retained_after_failed_cleanup := retained, in_use := next\<rparr>, Done (Inr claim)))"

definition finite_pressure ::
    "scope_id \<Rightarrow> authority_class \<Rightarrow> resource_class \<Rightarrow> provider_state \<Rightarrow>
     provider_state \<times> resource_pressure" where
  "finite_pressure sid authority dimension st0 =
     (let st = lock_state st0 in
      (st, \<lparr>pr_scope = sid, pr_authority = authority, pr_dimension = dimension, pr_requested = 0,
            pr_in_use = in_use st dimension, pr_capacity = grant st dimension\<rparr>))"

section \<open>The accounting invariant\<close>

definition record_charge :: "resource_class \<Rightarrow> nat" where
  "record_charge d = (if d = OpaqueDependencyResidual then 1 else 0)"

definition charge_amount :: "resource_class \<Rightarrow> reservation \<Rightarrow> nat" where
  "charge_amount d r = unat (res_claim r d) + record_charge d"

definition accounted :: "provider_state \<Rightarrow> resource_class \<Rightarrow> nat" where
  "accounted st d =
     bmap_total (charge_amount d) (reservations st) + record_charge d * length (scopes st) +
     unat (retained_after_failed_cleanup st d)"

definition provider_struct :: "provider_state \<Rightarrow> bool" where
  "provider_struct st \<longleftrightarrow>
     bmap_wf (reservations st) \<and> bset_wf (scopes st) \<and>
     (\<forall>rid r. bmap_get (reservations st) rid = Some r \<longrightarrow>
        rid < next_reservation_id st \<and> res_scope r \<in> set (scopes st))"

definition provider_inv :: "provider_state \<Rightarrow> bool" where
  "provider_inv st \<longleftrightarrow>
     provider_struct st \<and>
     (\<forall>d. unat (in_use st d) = accounted st d) \<and>
     (\<forall>d. in_use st d \<le> grant st d)"

definition live :: "provider_state \<Rightarrow> bool" where
  "live st \<longleftrightarrow> \<not> lock_poisoned st \<and> poisoned st = None"

definition fits :: "provider_state \<Rightarrow> resource_claim \<Rightarrow> nat \<Rightarrow> bool" where
  "fits st claim records \<longleftrightarrow>
     (\<forall>d. accounted st d + unat (claim d) + records * record_charge d \<le> unat (grant st d))"

lemma unat_bookkeeping [simp]: "unat (bookkeeping_claim d) = record_charge d"
  by (simp add: bookkeeping_claim_def single_claim_def zero_claim_def record_charge_def)

lemma reservation_charge_Inr_iff:
  "reservation_charge claim = Inr charge \<longleftrightarrow>
   (\<forall>d. unat (charge d) = unat (claim d) + record_charge d)"
proof -
  have "reservation_charge claim = Inr charge \<longleftrightarrow>
        claim_checked_add claim bookkeeping_claim = Inr charge"
    by (auto simp: reservation_charge_def split: sum.splits)
  then show ?thesis by (simp add: claim_checked_add_Inr_iff)
qed

lemma reservation_charge_Inl:
  "reservation_charge claim = Inl e \<Longrightarrow>
   e = ProviderInvariant OpaqueDependencyResidual \<and> claim OpaqueDependencyResidual = u64_max"
proof -
  assume *: "reservation_charge claim = Inl e"
  then obtain e' where "claim_checked_add claim bookkeeping_claim = Inl e'"
    and e: "e = ProviderInvariant OpaqueDependencyResidual"
    by (auto simp: reservation_charge_def split: sum.splits)
  then obtain d where "checked_add (claim d) (bookkeeping_claim d) = None"
    by (auto simp: claim_checked_add_def claim_loop_Inl_iff find_Some_iff)
  then have "18446744073709551615 < unat (claim d) + record_charge d"
    by (simp add: checked_add_None_iff)
  then have "d = OpaqueDependencyResidual \<and> unat (claim d) = 18446744073709551615"
    using unat_u64_le [of "claim d"]
    by (cases "d = OpaqueDependencyResidual") (simp_all add: record_charge_def del: unat_u64_le)
  then show ?thesis using e by (auto simp: word_unat_eq_iff)
qed

subsection \<open>Admission\<close>

definition over_capacity ::
    "provider_state \<Rightarrow> resource_claim \<Rightarrow> resource_claim \<Rightarrow> resource_class option" where
  "over_capacity st base part =
     find (\<lambda>d. unat (grant st d) < unat (base d) + unat (part d)) all_classes"

definition pressure_error ::
    "provider_state \<Rightarrow> resource_claim \<Rightarrow> scope_id \<Rightarrow> authority_class \<Rightarrow> resource_claim \<Rightarrow>
     resource_class \<Rightarrow> unavailable" where
  "pressure_error st base sid authority part d =
     Pressure \<lparr>pr_scope = sid, pr_authority = authority, pr_dimension = d,
       pr_requested = part d, pr_in_use = base d, pr_capacity = grant st d\<rparr>"

lemma admission_step:
  fixes used amount capacity :: u64
  assumes "used \<le> capacity"
  shows "amount > capacity - used \<longleftrightarrow> unat capacity < unat used + unat amount"
proof -
  have "unat (capacity - used) = unat capacity - unat used"
    using assms by (simp add: unat_sub word_le_nat_alt)
  then show ?thesis using assms unfolding word_less_nat_alt word_le_nat_alt by linarith
qed

lemma admission_loop_single:
  assumes "\<And>d. base d \<le> grant st d"
  shows "admission_loop st base sid authority [part] ds requested next =
    (case find (\<lambda>d. unat (grant st d) < unat (base d) + unat (part d)) ds of
       Some d \<Rightarrow> (st, Inl (pressure_error st base sid authority part d))
     | None \<Rightarrow> (st, Inr (\<lambda>d. if d \<in> set ds then part d else requested d,
                        \<lambda>d. if d \<in> set ds then base d + part d else next d)))"
proof (induction ds arbitrary: requested "next")
  case Nil
  then show ?case by simp
next
  case (Cons x ds)
  have le: "\<not> base x > grant st x" using assms [of x] by simp
  show ?case
  proof (cases "unat (grant st x) < unat (base x) + unat (part x)")
    case True
    then show ?thesis
      using le admission_step [OF assms [of x], of "part x"] by (simp add: pressure_error_def Let_def not_le)
  next
    case False
    then have "unat (base x) + unat (part x) < 18446744073709551616"
      using unat_u64_less [of "grant st x"] by linarith
    then have "checked_add (base x) (part x) = Some (base x + part x)"
      by (simp add: checked_add_def)
    with False show ?thesis
      using le admission_step [OF assms [of x], of "part x"]
      by (simp add: Let_def not_le Cons.IH) (auto simp: fun_eq_iff split: option.split)
  qed
qed

lemma checked_admission_single:
  assumes "\<And>d. base d \<le> grant st d"
  shows "checked_admission st base sid authority [part] =
    (case over_capacity st base part of
       Some d \<Rightarrow> (st, Inl (pressure_error st base sid authority part d))
     | None \<Rightarrow> (st, Inr (part, \<lambda>d. base d + part d)))"
  unfolding checked_admission_def over_capacity_def
  by (subst admission_loop_single [OF assms]) (auto split: option.split)

lemma over_capacity_None:
  "over_capacity st base part = None \<longleftrightarrow> (\<forall>d. unat (base d) + unat (part d) \<le> unat (grant st d))"
  by (simp add: over_capacity_def find_None_iff not_less)

lemma over_capacity_None_unat:
  "over_capacity st base part = None \<Longrightarrow> unat (base d + part d) = unat (base d) + unat (part d)"
proof -
  assume "over_capacity st base part = None"
  then have "unat (base d) + unat (part d) \<le> unat (grant st d)"
    by (simp add: over_capacity_None)
  then have "unat (base d) + unat (part d) < 18446744073709551616"
    using unat_u64_less [of "grant st d"] by linarith
  then show ?thesis by (simp add: unat_word_ariths)
qed

lemma fits_iff_over_capacity:
  assumes "\<And>d. unat (in_use st d) = accounted st d"
    and "\<And>d. unat (charge d) = unat (claim d) + records * record_charge d"
  shows "over_capacity st (in_use st) charge = None \<longleftrightarrow> fits st claim records"
  using assms by (simp add: over_capacity_None fits_def add.assoc)

subsection \<open>Healthy states\<close>

definition provider_ok :: "identity \<Rightarrow> provider_state \<Rightarrow> bool" where
  "provider_ok pa st \<longleftrightarrow> live st \<and> provider_authority st = Some pa \<and> provider_inv st"

definition with_reservation ::
    "provider_state \<Rightarrow> scope_id \<Rightarrow> authority_class \<Rightarrow> resource_claim \<Rightarrow> resource_claim \<Rightarrow>
     provider_state" where
  "with_reservation st sid authority claim next =
     st\<lparr>next_reservation_id := next_reservation_id st + 1,
        reservations := bmap_insert (next_reservation_id st)
          \<lparr>res_scope = sid, res_authority = authority, res_claim = claim\<rparr> (reservations st),
        in_use := next\<rparr>"

lemma provider_ok_simps:
  assumes "provider_ok pa st"
  shows "lock_state st = st" "check_poisoned st = Inr ()"
    "require_provider_authority st pa = Inr ()" "bind_provider_authority st pa = (st, Inr ())"
  using assms
  by (auto simp: provider_ok_def live_def lock_state_def check_poisoned_def
      require_provider_authority_def bind_provider_authority_def)

lemma provider_ok_le: "provider_ok pa st \<Longrightarrow> in_use st d \<le> grant st d"
  by (simp add: provider_ok_def provider_inv_def)

lemma provider_ok_accounted: "provider_ok pa st \<Longrightarrow> unat (in_use st d) = accounted st d"
  by (simp add: provider_ok_def provider_inv_def)

lemma provider_inv_fresh_id:
  "provider_inv st \<Longrightarrow> bmap_get (reservations st) (next_reservation_id st) = None"
  by (auto simp: provider_inv_def provider_struct_def) (metis less_irrefl not_Some_eq)

lemma commit_reservation_eq:
  assumes "bmap_get (reservations st) (next_reservation_id st) = None"
  shows "commit_reservation st sid authority claim next =
    (if next_reservation_id st = u64_max then (st\<lparr>lock_poisoned := True\<rparr>, Panic)
     else (with_reservation st sid authority claim next, Done (Inr (next_reservation_id st))))"
proof -
  have "checked_add (next_reservation_id st) 1 =
      (if next_reservation_id st = u64_max then None else Some (next_reservation_id st + 1))"
    using unat_u64_less [of "next_reservation_id st"]
    by (auto simp: checked_add_def word_unat_eq_iff simp del: unat_u64_less)
  then show ?thesis
    using assms
    by (simp add: commit_reservation_def allocate_reservation_id_def bmap_contains_def
        with_reservation_def Let_def)
qed

lemma finite_acquire_eq:
  assumes "provider_ok pa st"
  shows "finite_acquire pa sid authority claim st =
    (if sid \<notin> set (scopes st) then refuse st (UnknownScope sid)
     else case reservation_charge claim of Inl e \<Rightarrow> refuse st e
     | Inr charge \<Rightarrow>
        case over_capacity st (in_use st) charge of
          Some d \<Rightarrow> refuse st (pressure_error st (in_use st) sid authority charge d)
        | None \<Rightarrow> commit_reservation st sid authority claim (\<lambda>d. in_use st d + charge d))"
  unfolding finite_acquire_def
  by (simp add: provider_ok_simps [OF assms] checked_admission_single [OF provider_ok_le [OF assms]]
      split: sum.split option.split)

lemma finite_create_scope_eq:
  assumes "provider_ok pa st"
  shows "finite_create_scope pa sid parent st =
    (if (case parent of Some p \<Rightarrow> p \<notin> set (scopes st) | None \<Rightarrow> False)
     then refuse st (UnknownScope (the parent))
     else if sid \<in> set (scopes st)
     then refuse (poison st OpaqueDependencyResidual) (ProviderInvariant OpaqueDependencyResidual)
     else case over_capacity st (in_use st) bookkeeping_claim of
            Some d \<Rightarrow> refuse st (pressure_error st (in_use st) sid Speculative bookkeeping_claim d)
          | None \<Rightarrow> (st\<lparr>scopes := bset_insert sid (scopes st),
                         in_use := (\<lambda>d. in_use st d + bookkeeping_claim d)\<rparr>, Done (Inr ())))"
  unfolding finite_create_scope_def
  by (simp add: provider_ok_simps [OF assms] checked_admission_single [OF provider_ok_le [OF assms]]
      split: sum.split option.split)

lemma finite_create_scope_and_acquire_eq:
  assumes "provider_ok pa st"
  shows "finite_create_scope_and_acquire pa sid parent authority claim st =
    (if parent \<notin> set (scopes st) then refuse st (UnknownScope parent)
     else if sid \<in> set (scopes st)
     then refuse (poison st OpaqueDependencyResidual) (ProviderInvariant OpaqueDependencyResidual)
     else case reservation_charge claim of Inl e \<Rightarrow> refuse st e
     | Inr charge1 \<Rightarrow>
       case claim_checked_add charge1 bookkeeping_claim of
         Inl _ \<Rightarrow> refuse st (ProviderInvariant OpaqueDependencyResidual)
       | Inr charge \<Rightarrow>
         case over_capacity st (in_use st) charge of
           Some d \<Rightarrow> refuse st (pressure_error st (in_use st) sid authority charge d)
         | None \<Rightarrow> commit_reservation (st\<lparr>scopes := bset_insert sid (scopes st)\<rparr>)
                     sid authority claim (\<lambda>d. in_use st d + charge d))"
  unfolding finite_create_scope_and_acquire_def
  by (simp add: provider_ok_simps [OF assms] checked_admission_single [OF provider_ok_le [OF assms]]
      split: sum.split option.split)

subsection \<open>Every operation keeps the accounts\<close>

lemma next_id_less: "(rid :: u64) \<noteq> u64_max \<Longrightarrow> rid < rid + 1"
  using unat_u64_le [of rid]
  by (simp add: word_less_nat_alt unat_word_ariths word_unat_eq_iff del: unat_u64_le)

lemma with_reservation_struct:
  assumes "provider_struct st" "sid \<in> set (scopes st)" "next_reservation_id st \<noteq> u64_max"
  shows "provider_struct (with_reservation st sid authority claim next)"
  using assms next_id_less [of "next_reservation_id st"]
  by (auto simp: provider_struct_def with_reservation_def dest: less_trans split: if_splits)

lemma with_reservation_accounted:
  assumes "bmap_get (reservations st) (next_reservation_id st) = None"
  shows "accounted (with_reservation st sid authority claim next) d =
         accounted st d + unat (claim d) + record_charge d"
  using assms
  by (simp add: accounted_def with_reservation_def bmap_total_insert_fresh charge_amount_def)

lemma with_reservation_inv:
  assumes "provider_struct st" "sid \<in> set (scopes st)" "next_reservation_id st \<noteq> u64_max"
    and "\<And>d. unat (next d) = accounted st d + unat (claim d) + record_charge d"
    and "\<And>d. next d \<le> grant st d"
  shows "provider_inv (with_reservation st sid authority claim next)"
proof -
  have fresh: "bmap_get (reservations st) (next_reservation_id st) = None"
    using assms(1) by (auto simp: provider_struct_def) (metis less_irrefl not_Some_eq)
  show ?thesis
    using assms with_reservation_struct [OF assms(1-3)] with_reservation_accounted [OF fresh]
    by (simp add: provider_inv_def) (simp add: with_reservation_def)
qed

lemma over_capacity_None_le:
  assumes "over_capacity st base part = None"
  shows "base d + part d \<le> grant st d"
  using assms over_capacity_None_unat [OF assms, of d]
  by (simp add: over_capacity_None word_le_nat_alt)

lemma finite_acquire_granted:
  assumes ok: "provider_ok pa st"
    and run: "finite_acquire pa sid authority claim st = (st', Done (Inr rid))"
  shows "provider_ok pa st' \<and> sid \<in> set (scopes st) \<and> rid = next_reservation_id st \<and>
    bmap_get (reservations st) rid = None \<and> scopes st' = scopes st \<and> grant st' = grant st \<and>
    reservations st' = bmap_insert rid
      \<lparr>res_scope = sid, res_authority = authority, res_claim = claim\<rparr> (reservations st) \<and>
    retained_after_failed_cleanup st' = retained_after_failed_cleanup st"
proof -
  from run obtain charge where sid: "sid \<in> set (scopes st)"
    and charge: "reservation_charge claim = Inr charge"
    and cap: "over_capacity st (in_use st) charge = None"
    and commit: "commit_reservation st sid authority claim (\<lambda>d. in_use st d + charge d) =
      (st', Done (Inr rid))"
    by (auto simp: finite_acquire_eq [OF ok] refuse_def split: if_splits sum.splits option.splits)
  have inv: "provider_inv st" using ok by (simp add: provider_ok_def)
  have nid: "next_reservation_id st \<noteq> u64_max" "rid = next_reservation_id st"
    and st': "st' = with_reservation st sid authority claim (\<lambda>d. in_use st d + charge d)"
    using commit commit_reservation_eq [OF provider_inv_fresh_id [OF inv]] by (auto split: if_splits)
  have "provider_inv st'"
    unfolding st'
    using inv nid sid charge provider_ok_accounted [OF ok] over_capacity_None_unat [OF cap]
      over_capacity_None_le [OF cap]
    by (intro with_reservation_inv) (simp_all add: provider_inv_def reservation_charge_Inr_iff)
  then show ?thesis
    using ok sid nid provider_inv_fresh_id [OF inv] st'
    by (simp add: provider_ok_def live_def) (simp add: with_reservation_def)
qed

lemma finite_acquire_refused:
  assumes "provider_ok pa st"
    and "finite_acquire pa sid authority claim st = (st', Done (Inl e))"
  shows "st' = st"
  using assms commit_reservation_eq [OF provider_inv_fresh_id, of st]
  by (auto simp: finite_acquire_eq [OF assms(1)] refuse_def provider_ok_def
      split: if_splits sum.splits option.splits)

lemma finite_create_scope_granted:
  assumes ok: "provider_ok pa st"
    and run: "finite_create_scope pa sid parent st = (st', Done (Inr ()))"
  shows "provider_ok pa st' \<and> sid \<notin> set (scopes st) \<and> scopes st' = bset_insert sid (scopes st) \<and>
    (\<forall>p. parent = Some p \<longrightarrow> p \<in> set (scopes st)) \<and>
    reservations st' = reservations st \<and> grant st' = grant st \<and>
    retained_after_failed_cleanup st' = retained_after_failed_cleanup st"
proof -
  from run have sid: "sid \<notin> set (scopes st)"
    and cap: "over_capacity st (in_use st) bookkeeping_claim = None"
    and par: "\<forall>p. parent = Some p \<longrightarrow> p \<in> set (scopes st)"
    and st': "st' = st\<lparr>scopes := bset_insert sid (scopes st),
                        in_use := (\<lambda>d. in_use st d + bookkeeping_claim d)\<rparr>"
    by (auto simp: finite_create_scope_eq [OF ok] refuse_def split: if_splits option.splits)
  have "provider_inv st'"
    using ok sid over_capacity_None_unat [OF cap] over_capacity_None_le [OF cap]
      provider_ok_accounted [OF ok]
    unfolding st'
    by (auto simp: provider_inv_def provider_struct_def provider_ok_def accounted_def
        length_bset_insert)
  then show ?thesis using ok sid par st' by (simp add: provider_ok_def live_def)
qed

lemma finite_create_scope_refused:
  assumes "provider_ok pa st" "sid \<notin> set (scopes st)"
    and "finite_create_scope pa sid parent st = (st', Done (Inl e))"
  shows "st' = st"
  using assms
  by (auto simp: finite_create_scope_eq [OF assms(1)] refuse_def split: if_splits option.splits)

lemma finite_create_scope_and_acquire_granted:
  assumes ok: "provider_ok pa st"
    and run: "finite_create_scope_and_acquire pa sid parent authority claim st =
      (st', Done (Inr rid))"
  shows "provider_ok pa st' \<and> sid \<notin> set (scopes st) \<and> parent \<in> set (scopes st) \<and>
    rid = next_reservation_id st \<and> bmap_get (reservations st) rid = None \<and>
    scopes st' = bset_insert sid (scopes st) \<and> grant st' = grant st \<and>
    reservations st' = bmap_insert rid
      \<lparr>res_scope = sid, res_authority = authority, res_claim = claim\<rparr> (reservations st) \<and>
    retained_after_failed_cleanup st' = retained_after_failed_cleanup st"
proof -
  from run obtain charge1 charge where sid: "sid \<notin> set (scopes st)" "parent \<in> set (scopes st)"
    and charge: "reservation_charge claim = Inr charge1"
      "claim_checked_add charge1 bookkeeping_claim = Inr charge"
    and cap: "over_capacity st (in_use st) charge = None"
    and commit: "commit_reservation (st\<lparr>scopes := bset_insert sid (scopes st)\<rparr>) sid authority claim
      (\<lambda>d. in_use st d + charge d) = (st', Done (Inr rid))"
    by (auto simp: finite_create_scope_and_acquire_eq [OF ok] refuse_def
        split: if_splits sum.splits option.splits)
  define st1 where "st1 = st\<lparr>scopes := bset_insert sid (scopes st)\<rparr>"
  have inv: "provider_inv st" using ok by (simp add: provider_ok_def)
  have fresh: "bmap_get (reservations st1) (next_reservation_id st1) = None"
    using provider_inv_fresh_id [OF inv] by (simp add: st1_def)
  have nid: "next_reservation_id st \<noteq> u64_max" "rid = next_reservation_id st"
    and st': "st' = with_reservation st1 sid authority claim (\<lambda>d. in_use st d + charge d)"
    using commit commit_reservation_eq [OF fresh]
    by (auto simp: st1_def [symmetric] split: if_splits) (simp_all add: st1_def)
  have acc: "accounted st1 d = accounted st d + record_charge d" for d
    using sid by (simp add: st1_def accounted_def length_bset_insert)
  have "provider_struct st1"
    using inv by (auto simp: st1_def provider_inv_def provider_struct_def)
  then have "provider_inv st'"
    unfolding st'
    using nid charge provider_ok_accounted [OF ok] over_capacity_None_unat [OF cap]
      over_capacity_None_le [OF cap] acc
    by (intro with_reservation_inv)
       (simp_all add: reservation_charge_Inr_iff claim_checked_add_Inr_iff, simp_all add: st1_def)
  then show ?thesis
    using ok sid nid provider_inv_fresh_id [OF inv] st'
    by (simp add: provider_ok_def live_def) (simp add: with_reservation_def st1_def)
qed

lemma finite_create_scope_and_acquire_refused:
  assumes ok: "provider_ok pa st" and sid: "sid \<notin> set (scopes st)"
    and run: "finite_create_scope_and_acquire pa sid parent authority claim st = (st', Done (Inl e))"
  shows "st' = st"
proof -
  define st1 where "st1 = st\<lparr>scopes := bset_insert sid (scopes st)\<rparr>"
  have "provider_inv st" using ok by (simp add: provider_ok_def)
  then have fresh: "bmap_get (reservations st1) (next_reservation_id st1) = None"
    using provider_inv_fresh_id [of st] by (simp add: st1_def)
  have "commit_reservation st1 sid authority claim n \<noteq> (st', Done (Inl e))" for n
    by (simp add: commit_reservation_eq [OF fresh])
  then show ?thesis
    using run sid
    by (auto simp: finite_create_scope_and_acquire_eq [OF ok] refuse_def st1_def
        split: if_splits sum.splits option.splits)
qed

lemma is_exactI:
  "bmap_get (reservations st) rid =
     Some \<lparr>res_scope = sid, res_authority = authority, res_claim = claim\<rparr> \<Longrightarrow>
   is_exact st rid sid authority claim"
  by (simp add: is_exact_def)

lemma is_exact_iff:
  "is_exact st rid sid authority claim \<longleftrightarrow>
   bmap_get (reservations st) rid =
     Some \<lparr>res_scope = sid, res_authority = authority, res_claim = claim\<rparr>"
  by (auto simp: is_exact_def split: option.splits)

lemma provider_struct_scope:
  "\<lbrakk>provider_struct st; bmap_get (reservations st) rid = Some r\<rbrakk> \<Longrightarrow> res_scope r \<in> set (scopes st)"
  by (auto simp: provider_struct_def)

lemma accounted_without:
  assumes "provider_struct st" "bmap_get (reservations st) rid = Some r"
  shows "accounted st d =
    accounted (st\<lparr>reservations := bmap_remove rid (reservations st)\<rparr>) d + charge_amount d r"
  using assms bmap_total_remove [of "reservations st" rid r "charge_amount d"]
  by (simp add: accounted_def provider_struct_def)

lemma charge_le_in_use:
  assumes "provider_ok pa st" "bmap_get (reservations st) rid = Some r"
  shows "charge_amount d r \<le> unat (in_use st d)"
  using assms accounted_without [of st rid r d]
  by (simp add: provider_ok_def provider_inv_def)

lemma live_reservation_charge:
  assumes "provider_ok pa st" "bmap_get (reservations st) rid = Some r"
  obtains charge where "reservation_charge (res_claim r) = Inr charge"
    "\<And>d. unat (charge d) = charge_amount d r"
proof (cases "reservation_charge (res_claim r)")
  case (Inl e)
  then have "unat (res_claim r OpaqueDependencyResidual) = 18446744073709551615"
    using reservation_charge_Inl [OF Inl] by simp
  moreover have "charge_amount OpaqueDependencyResidual r \<le> 18446744073709551615"
    using charge_le_in_use [OF assms, of OpaqueDependencyResidual] unat_u64_le order_trans by blast
  ultimately show ?thesis by (simp add: charge_amount_def record_charge_def)
next
  case (Inr charge)
  then show ?thesis
    using that [OF Inr] by (simp add: reservation_charge_Inr_iff charge_amount_def)
qed

lemma finite_release_exact:
  assumes ok: "provider_ok pa st"
    and get: "bmap_get (reservations st) rid =
      Some \<lparr>res_scope = sid, res_authority = authority, res_claim = claim\<rparr>"
  obtains st' where "finite_release pa rid sid authority claim st = st'" "provider_ok pa st'"
    "reservations st' = bmap_remove rid (reservations st)" "scopes st' = scopes st"
    "grant st' = grant st"
    "retained_after_failed_cleanup st' = retained_after_failed_cleanup st"
proof -
  have inv: "provider_inv st" and str: "provider_struct st"
    using ok by (auto simp: provider_ok_def provider_inv_def)
  have sid: "sid \<in> set (scopes st)" using provider_struct_scope [OF str get] by simp
  obtain charge where charge: "reservation_charge claim = Inr charge"
    "\<And>d. unat (charge d) =
       charge_amount d \<lparr>res_scope = sid, res_authority = authority, res_claim = claim\<rparr>"
    using live_reservation_charge [OF ok get] by auto
  obtain nxt where nxt: "claim_checked_sub (in_use st) charge = Inr nxt"
    "\<And>d. unat (nxt d) = unat (in_use st d) - unat (charge d)"
    using claim_checked_sub_ex [of charge "in_use st"] charge_le_in_use [OF ok get] charge(2)
    by auto
  define st' where
    "st' = st\<lparr>reservations := bmap_remove rid (reservations st), in_use := nxt\<rparr>"
  have eq: "finite_release pa rid sid authority claim st = st'"
    using sid get charge nxt
    by (simp add: finite_release_def provider_ok_simps [OF ok] is_exactI st'_def)
  have acc: "unat (nxt d) = accounted st' d" for d
    using accounted_without [OF str get, of d] nxt(2) charge(2) provider_ok_accounted [OF ok, of d]
    by (simp add: st'_def accounted_def)
  have "nxt d \<le> grant st d" for d
    using nxt(2) [of d] provider_ok_le [OF ok, of d] by (simp add: word_le_nat_alt)
  then have "provider_inv st'"
    using acc str by (auto simp: provider_inv_def provider_struct_def st'_def)
  then show ?thesis
    using that [OF eq] ok by (simp add: st'_def provider_ok_def live_def)
qed

lemma finite_retain_exact:
  assumes ok: "provider_ok pa st"
    and get: "bmap_get (reservations st) rid =
      Some \<lparr>res_scope = sid, res_authority = authority, res_claim = claim\<rparr>"
  obtains st' where
    "finite_retain_after_failed_cleanup pa rid sid authority claim st = (st', Done (Inr claim))"
    "provider_ok pa st'" "reservations st' = bmap_remove rid (reservations st)"
    "scopes st' = scopes st" "grant st' = grant st"
    "\<And>d. unat (retained_after_failed_cleanup st' d) =
          unat (retained_after_failed_cleanup st d) + unat (claim d)"
proof -
  let ?r = "\<lparr>res_scope = sid, res_authority = authority, res_claim = claim\<rparr>"
  have inv: "provider_inv st" and str: "provider_struct st"
    using ok by (auto simp: provider_ok_def provider_inv_def)
  have sid: "sid \<in> set (scopes st)" using provider_struct_scope [OF str get] by simp
  note without = accounted_without [OF str get]
  have "unat (retained_after_failed_cleanup st d) + unat (claim d) \<le> unat (in_use st d)" for d
    using without [of d] provider_ok_accounted [OF ok, of d]
    by (simp add: charge_amount_def) (simp add: accounted_def)
  then have "unat (retained_after_failed_cleanup st d) + unat (claim d) < 18446744073709551616" for d
    using unat_u64_less [of "in_use st d"] order.strict_trans1 by blast
  then obtain ret where ret: "claim_checked_add (retained_after_failed_cleanup st) claim = Inr ret"
    "\<And>d. unat (ret d) = unat (retained_after_failed_cleanup st d) + unat (claim d)"
    using claim_checked_add_ex [of "retained_after_failed_cleanup st" claim] by auto
  have "record_charge d \<le> unat (in_use st d)" for d
    using charge_le_in_use [OF ok get, of d] by (simp add: charge_amount_def)
  then obtain nxt where nxt: "claim_checked_sub (in_use st) bookkeeping_claim = Inr nxt"
    "\<And>d. unat (nxt d) = unat (in_use st d) - record_charge d"
    using claim_checked_sub_ex [of bookkeeping_claim "in_use st"] by auto
  define st' where "st' = st\<lparr>reservations := bmap_remove rid (reservations st),
    retained_after_failed_cleanup := ret, in_use := nxt\<rparr>"
  have eq: "finite_retain_after_failed_cleanup pa rid sid authority claim st = (st', Done (Inr claim))"
    using sid get ret nxt
    by (simp add: finite_retain_after_failed_cleanup_def provider_ok_simps [OF ok] is_exactI st'_def)
  have acc: "unat (nxt d) = accounted st' d" for d
    using without [of d] nxt(2) [of d] ret(2) [of d] provider_ok_accounted [OF ok, of d]
    by (simp add: st'_def accounted_def charge_amount_def)
  have "nxt d \<le> grant st d" for d
    using nxt(2) [of d] provider_ok_le [OF ok, of d] by (simp add: word_le_nat_alt)
  then have "provider_inv st'"
    using acc str by (auto simp: provider_inv_def provider_struct_def st'_def)
  then show ?thesis
    using that [OF eq] ok ret(2) by (simp add: st'_def provider_ok_def live_def)
qed

lemma finite_release_scope_exact:
  assumes ok: "provider_ok pa st" and sid: "sid \<in> set (scopes st)"
    and idle: "\<And>rid r. bmap_get (reservations st) rid = Some r \<Longrightarrow> res_scope r \<noteq> sid"
  obtains st' where "finite_release_scope pa sid st = st'" "provider_ok pa st'"
    "reservations st' = reservations st" "scopes st' = bset_remove sid (scopes st)"
    "grant st' = grant st"
    "retained_after_failed_cleanup st' = retained_after_failed_cleanup st"
proof -
  have str: "provider_struct st" and acc: "\<And>d. unat (in_use st d) = accounted st d"
    using ok by (auto simp: provider_ok_def provider_inv_def)
  have wf: "bset_wf (scopes st)" "bmap_wf (reservations st)"
    using str by (auto simp: provider_struct_def)
  obtain n where n: "length (scopes st) = Suc n" using sid by (cases "scopes st") auto
  have "record_charge d \<le> unat (in_use st d)" for d
    using n acc [of d] by (simp add: accounted_def)
  then obtain nxt where nxt: "claim_checked_sub (in_use st) bookkeeping_claim = Inr nxt"
    "\<And>d. unat (nxt d) = unat (in_use st d) - record_charge d"
    using claim_checked_sub_ex [of bookkeeping_claim "in_use st"] by auto
  define st' where "st' = st\<lparr>scopes := bset_remove sid (scopes st), in_use := nxt\<rparr>"
  have "\<not> list_ex (\<lambda>e. res_scope (snd e) = sid) (reservations st)"
    using idle bmap_get_eq_Some_iff [OF wf(2)] by (fastforce simp: list_ex_iff)
  then have eq: "finite_release_scope pa sid st = st'"
    using sid nxt by (simp add: finite_release_scope_def provider_ok_simps [OF ok] st'_def)
  have "unat (nxt d) = accounted st' d" for d
    using nxt(2) [of d] acc [of d] n sid wf
    by (simp add: st'_def accounted_def length_bset_remove)
  moreover have "nxt d \<le> grant st d" for d
    using nxt(2) [of d] provider_ok_le [OF ok, of d] by (simp add: word_le_nat_alt)
  ultimately have "provider_inv st'"
    using str idle by (auto simp: provider_inv_def provider_struct_def st'_def)
  then show ?thesis
    using that [OF eq] ok by (simp add: st'_def provider_ok_def live_def)
qed

lemma finite_transition_eq:
  assumes ok: "provider_ok pa st"
    and get: "bmap_get (reservations st) rid =
      Some \<lparr>res_scope = sid, res_authority = authority, res_claim = claim\<rparr>"
  obtains base where
    "\<And>d. unat (base d) = unat (in_use st d) -
       charge_amount d \<lparr>res_scope = sid, res_authority = authority, res_claim = claim\<rparr>"
    "finite_transition pa
       \<lparr>rs_reservation_id = rid, rs_scope_id = sid, rs_authority = authority, rs_claim = claim\<rparr>
       authority' claim' st =
     (case reservation_charge claim' of Inl e \<Rightarrow> refuse st e
      | Inr charge \<Rightarrow>
        case over_capacity st base charge of
          Some d \<Rightarrow> refuse st (pressure_error st base sid authority' charge d)
        | None \<Rightarrow>
            (st\<lparr>reservations := bmap_insert rid
                  \<lparr>res_scope = sid, res_authority = authority', res_claim = claim'\<rparr>
                  (reservations st),
                in_use := (\<lambda>d. base d + charge d)\<rparr>, Done (Inr ())))"
proof -
  let ?r = "\<lparr>res_scope = sid, res_authority = authority, res_claim = claim\<rparr>"
  have str: "provider_struct st" using ok by (auto simp: provider_ok_def provider_inv_def)
  have sid: "sid \<in> set (scopes st)" using provider_struct_scope [OF str get] by simp
  obtain old where old: "reservation_charge claim = Inr old"
    "\<And>d. unat (old d) = charge_amount d ?r"
    using live_reservation_charge [OF ok get] by auto
  obtain base where base: "claim_checked_sub (in_use st) old = Inr base"
    "\<And>d. unat (base d) = unat (in_use st d) - unat (old d)"
    using claim_checked_sub_ex [of old "in_use st"] charge_le_in_use [OF ok get] old(2) by auto
  have "base d \<le> grant st d" for d
    using base(2) [of d] provider_ok_le [OF ok, of d] by (simp add: word_le_nat_alt)
  note adm = checked_admission_single [OF this]
  show ?thesis
    by (rule that [of base])
       (simp_all add: base old(2) finite_transition_def provider_ok_simps [OF ok] sid get is_exactI
         old(1) adm split: sum.split option.split)
qed

lemma finite_transition_granted:
  assumes ok: "provider_ok pa st"
    and get: "bmap_get (reservations st) rid =
      Some \<lparr>res_scope = sid, res_authority = authority, res_claim = claim\<rparr>"
    and run: "finite_transition pa
       \<lparr>rs_reservation_id = rid, rs_scope_id = sid, rs_authority = authority, rs_claim = claim\<rparr>
       authority' claim' st = (st', Done (Inr ()))"
  shows "provider_ok pa st' \<and> scopes st' = scopes st \<and> grant st' = grant st \<and>
    reservations st' = bmap_insert rid
      \<lparr>res_scope = sid, res_authority = authority', res_claim = claim'\<rparr> (reservations st) \<and>
    retained_after_failed_cleanup st' = retained_after_failed_cleanup st"
proof -
  let ?r = "\<lparr>res_scope = sid, res_authority = authority, res_claim = claim\<rparr>"
  let ?r' = "\<lparr>res_scope = sid, res_authority = authority', res_claim = claim'\<rparr>"
  have str: "provider_struct st" using ok by (auto simp: provider_ok_def provider_inv_def)
  then have wf: "bmap_wf (reservations st)" by (simp add: provider_struct_def)
  obtain base charge where base: "\<And>d. unat (base d) = unat (in_use st d) - charge_amount d ?r"
    and charge: "reservation_charge claim' = Inr charge"
    and cap: "over_capacity st base charge = None"
    and st': "st' = st\<lparr>reservations := bmap_insert rid ?r' (reservations st),
                        in_use := (\<lambda>d. base d + charge d)\<rparr>"
    using run
    by (rule_tac authority' = authority' and claim' = claim' in finite_transition_eq [OF ok get])
       (auto simp: refuse_def split: sum.splits option.splits)
  have "unat (base d + charge d) = accounted st' d" for d
    using bmap_total_update [OF wf get, of "charge_amount d" ?r'] base [of d] charge
      over_capacity_None_unat [OF cap, of d] provider_ok_accounted [OF ok, of d]
      charge_le_in_use [OF ok get, of d]
    by (simp add: st' accounted_def reservation_charge_Inr_iff charge_amount_def)
  moreover have "provider_struct st'"
    using str get by (auto simp: st' provider_struct_def split: if_splits)
       (metis reservation.select_convs(1))+
  ultimately have "provider_inv st'"
    using over_capacity_None_le [OF cap] by (simp add: provider_inv_def st')
  then show ?thesis using ok by (simp add: st' provider_ok_def live_def)
qed

lemma finite_transition_refused:
  assumes ok: "provider_ok pa st"
    and get: "bmap_get (reservations st) rid =
      Some \<lparr>res_scope = sid, res_authority = authority, res_claim = claim\<rparr>"
    and run: "finite_transition pa
       \<lparr>rs_reservation_id = rid, rs_scope_id = sid, rs_authority = authority, rs_claim = claim\<rparr>
       authority' claim' st = (st', Done (Inl e))"
  shows "st' = st"
  using run
  by (rule_tac authority' = authority' and claim' = claim' in finite_transition_eq [OF ok get])
     (auto simp: refuse_def split: sum.splits option.splits)

lemma provider_new_inv: "provider_inv (provider_new g)"
  by (simp add: provider_inv_def provider_struct_def provider_new_def accounted_def zero_claim_def)

lemma finite_create_scope_new:
  "finite_create_scope pa sid None (provider_new g) =
   (if g OpaqueDependencyResidual = 0
    then refuse ((provider_new g)\<lparr>provider_authority := Some pa\<rparr>)
           (pressure_error (provider_new g) zero_claim sid Speculative bookkeeping_claim
              OpaqueDependencyResidual)
    else ((provider_new g)\<lparr>provider_authority := Some pa, scopes := [sid],
             in_use := bookkeeping_claim\<rparr>, Done (Inr ())))"
proof -
  let ?st = "(provider_new g)\<lparr>provider_authority := Some pa\<rparr>"
  have over: "over_capacity ?st zero_claim bookkeeping_claim =
      (if g OpaqueDependencyResidual = 0 then Some OpaqueDependencyResidual else None)"
    by (simp add: over_capacity_def all_classes_def provider_new_def zero_claim_def record_charge_def
        unat_eq_zero)
  show ?thesis
    using over
    by (subst finite_create_scope_def)
       (simp add: checked_admission_single provider_new_def lock_state_def check_poisoned_def
         bind_provider_authority_def zero_claim_def bset_insert_def pressure_error_def
         insort_insert_key_def refuse_def)
qed

subsection \<open>The grant never changes\<close>

lemma grant_helpers [simp]:
  "grant (lock_state st) = grant st" "grant (poison st d) = grant st"
  "grant (fst (refuse st e)) = grant st"
  "grant (fst (bind_provider_authority st pa)) = grant st"
  by (simp_all add: lock_state_def poison_def refuse_def bind_provider_authority_def
      split: option.split)

lemma grant_admission_loop [simp]:
  "grant (fst (admission_loop st base sid authority parts ds requested next)) = grant st"
  by (induction ds arbitrary: requested "next") (simp_all add: Let_def split: option.split)

lemma grant_checked_admission:
  "checked_admission st base sid authority parts = (st', r) \<Longrightarrow> grant st' = grant st"
  using grant_admission_loop [of st base sid authority parts all_classes zero_claim base]
  by (simp add: checked_admission_def)

lemma grant_bind: "bind_provider_authority st pa = (st', r) \<Longrightarrow> grant st' = grant st"
  using grant_helpers(4) [of st pa] by simp

lemma grant_commit [simp]: "grant (fst (commit_reservation st sid authority claim next)) = grant st"
  by (auto simp: commit_reservation_def allocate_reservation_id_def Let_def split: option.split)

lemma grant_create_scope: "grant (fst (finite_create_scope pa sid parent st)) = grant st"
  by (auto simp: finite_create_scope_def Let_def dest!: grant_bind grant_checked_admission
      split: sum.split prod.split)

lemma grant_create_scope_and_acquire:
  "grant (fst (finite_create_scope_and_acquire pa sid parent authority claim st)) = grant st"
  by (auto simp: finite_create_scope_and_acquire_def Let_def dest!: grant_checked_admission
      split: sum.split prod.split)

lemma grant_acquire: "grant (fst (finite_acquire pa sid authority claim st)) = grant st"
  by (auto simp: finite_acquire_def Let_def dest!: grant_checked_admission
      split: sum.split prod.split)

lemma grant_transition: "grant (fst (finite_transition pa cur authority claim st)) = grant st"
  by (auto simp: finite_transition_def Let_def dest!: grant_checked_admission
      split: sum.split prod.split option.split)

lemma grant_release: "grant (finite_release pa rid sid authority claim st) = grant st"
  by (simp add: finite_release_def Let_def split: sum.split)

lemma grant_release_scope: "grant (finite_release_scope pa sid st) = grant st"
  by (simp add: finite_release_scope_def Let_def split: sum.split)

lemma grant_retain:
  "grant (fst (finite_retain_after_failed_cleanup pa rid sid authority claim st)) = grant st"
  by (simp add: finite_retain_after_failed_cleanup_def Let_def split: sum.split)

lemma next_id_of_acquire:
  assumes "provider_ok pa st"
    and "finite_acquire pa sid authority claim st = (st', Done (Inr rid))"
  shows "next_reservation_id st' = next_reservation_id st + 1"
proof -
  have inv: "provider_inv st" using assms(1) by (simp add: provider_ok_def)
  show ?thesis
    using assms(2) commit_reservation_eq [OF provider_inv_fresh_id [OF inv]]
    by (auto simp: finite_acquire_eq [OF assms(1)] refuse_def with_reservation_def
        split: if_splits sum.splits option.splits)
qed

lemma next_id_of_release:
  "next_reservation_id (finite_release pa rid sid authority claim st) = next_reservation_id st"
  by (simp add: finite_release_def Let_def lock_state_def poison_def split: sum.split)

section \<open>Properties\<close>

definition sample_provider :: provider_state where
  "sample_provider = (provider_new (\<lambda>_. 10))\<lparr>provider_authority := Some 7, scopes := [7],
     in_use := bookkeeping_claim\<rparr>"

lemma sample_provider_ok: "provider_ok 7 sample_provider"
  by (simp add: sample_provider_def provider_ok_def live_def provider_inv_def provider_struct_def
      accounted_def provider_new_def zero_claim_def bset_wf_def word_le_nat_alt record_charge_def)

lemma finite_acquire_cases:
  assumes ok: "provider_ok pa st" and sid: "sid \<in> set (scopes st)"
    and nid: "next_reservation_id st \<noteq> u64_max"
  shows "(\<exists>st'. finite_acquire pa sid authority claim st = (st', Done (Inr (next_reservation_id st))) \<and>
            fits st claim 1) \<or>
         (\<exists>e. finite_acquire pa sid authority claim st = (st, Done (Inl e)) \<and> \<not> fits st claim 1 \<and>
            (e = ProviderInvariant OpaqueDependencyResidual \<and>
               claim OpaqueDependencyResidual = u64_max \<or>
             (\<exists>d amount. e = Pressure \<lparr>pr_scope = sid, pr_authority = authority, pr_dimension = d,
                pr_requested = amount, pr_in_use = in_use st d, pr_capacity = grant st d\<rparr> \<and>
                unat amount = unat (claim d) + record_charge d \<and>
                unat (grant st d) < accounted st d + unat amount)))"
proof (cases "reservation_charge claim")
  case (Inl e)
  note e = reservation_charge_Inl [OF Inl]
  then have "\<not> fits st claim 1"
    using unat_u64_le [of "grant st OpaqueDependencyResidual"]
    by (auto simp: fits_def record_charge_def simp del: unat_u64_le
        intro!: exI [of _ OpaqueDependencyResidual])
  with Inl e sid show ?thesis by (simp add: finite_acquire_eq [OF ok] refuse_def)
next
  case (Inr charge)
  then have charge: "\<And>d. unat (charge d) = unat (claim d) + 1 * record_charge d"
    by (simp add: reservation_charge_Inr_iff)
  have fits: "over_capacity st (in_use st) charge = None \<longleftrightarrow> fits st claim 1"
    using fits_iff_over_capacity [OF provider_ok_accounted [OF ok] charge] .
  show ?thesis
  proof (cases "over_capacity st (in_use st) charge")
    case None
    then show ?thesis
      using sid nid Inr fits ok
      by (simp add: finite_acquire_eq [OF ok] provider_ok_def
          commit_reservation_eq [OF provider_inv_fresh_id])
  next
    case (Some d)
    then have "unat (grant st d) < accounted st d + unat (charge d)"
      using provider_ok_accounted [OF ok, of d] by (auto simp: over_capacity_def find_Some_iff)
    then show ?thesis
      using Some sid Inr fits charge
      by (auto simp: finite_acquire_eq [OF ok] refuse_def pressure_error_def)
  qed
qed

text \<open>
  C3: Admission is work conserving and exact. On a healthy provider, for a known scope and while
  reservation identities last, \<open>acquire\<close> grants a claim if and only if, in every dimension, the
  accounted charge plus the claim plus its bookkeeping stays within the grant. A grant adds
  exactly that charge and returns the next identity; a refusal leaves the state as it was and, when
  it reports pressure, names a dimension that truly lacks the capacity, with its exact figures.
\<close>

theorem acquire_decides:
  assumes "provider_ok pa st" "sid \<in> set (scopes st)" "next_reservation_id st \<noteq> u64_max"
  shows "case finite_acquire pa sid authority claim st of
      (st', Done (Inr rid)) \<Rightarrow>
        fits st claim 1 \<and> provider_ok pa st' \<and> rid = next_reservation_id st \<and>
        (\<forall>d. accounted st' d = accounted st d + unat (claim d) + record_charge d)
    | (st', Done (Inl e)) \<Rightarrow>
        \<not> fits st claim 1 \<and> st' = st \<and>
        (\<forall>p. e = Pressure p \<longrightarrow>
           pr_in_use p = in_use st (pr_dimension p) \<and> pr_capacity p = grant st (pr_dimension p) \<and>
           unat (pr_capacity p) < unat (pr_in_use p) + unat (pr_requested p))
    | (st', Panic) \<Rightarrow> False"
proof -
  from finite_acquire_cases [OF assms, of authority claim] show ?thesis
  proof (elim disjE exE conjE)
    fix st'
    assume run: "finite_acquire pa sid authority claim st = (st', Done (Inr (next_reservation_id st)))"
      and "fits st claim 1"
    moreover note g = finite_acquire_granted [OF assms(1) run]
    moreover have "accounted st' d = accounted st d + unat (claim d) + record_charge d" for d
      using g by (simp add: accounted_def bmap_total_insert_fresh charge_amount_def)
    ultimately show ?thesis by simp
  qed (use provider_ok_accounted [OF assms(1)] in auto)
qed

theorem acquire_decides_witness:
  "(case finite_acquire 7 7 Admitted (\<lambda>_. 9) sample_provider of
      (st', Done (Inr rid)) \<Rightarrow> False
    | (st', Done (Inl e)) \<Rightarrow> st' = sample_provider
    | (st', Panic) \<Rightarrow> False)"
proof -
  have "\<not> fits sample_provider (\<lambda>_. 9) 1"
    by (auto simp: fits_def sample_provider_def provider_new_def accounted_def record_charge_def
        zero_claim_def intro!: exI [of _ OpaqueDependencyResidual])
  then show ?thesis
    using acquire_decides [OF sample_provider_ok, where sid = 7 and authority = Admitted
        and claim = "\<lambda>_. 9"]
    by (simp add: sample_provider_def provider_new_def word_unat_eq_iff
        split: prod.splits outcome.splits sum.splits)
qed

text \<open>
  C4: A transition is atomic. On a healthy provider and for the exact reservation a lease owns, a
  transition succeeds if and only if the grant holds the accounts with the old claim taken out and
  the new one put in; then the accounts change by exactly that, and otherwise nothing changes.
\<close>

theorem transition_atomic:
  assumes ok: "provider_ok pa st"
    and get: "bmap_get (reservations st) rid =
      Some \<lparr>res_scope = sid, res_authority = authority, res_claim = claim\<rparr>"
  shows "case finite_transition pa
      \<lparr>rs_reservation_id = rid, rs_scope_id = sid, rs_authority = authority, rs_claim = claim\<rparr>
      authority' claim' st of
      (st', Done (Inr _)) \<Rightarrow>
        (\<forall>d. accounted st' d + unat (claim d) = accounted st d + unat (claim' d) \<and>
             accounted st' d \<le> unat (grant st d)) \<and> provider_ok pa st'
    | (st', Done (Inl e)) \<Rightarrow>
        st' = st \<and> (\<exists>d. unat (grant st d) + unat (claim d) < accounted st d + unat (claim' d))
    | (st', Panic) \<Rightarrow> False"
proof -
  let ?cur = "\<lparr>rs_reservation_id = rid, rs_scope_id = sid, rs_authority = authority,
               rs_claim = claim\<rparr>"
  let ?r = "\<lparr>res_scope = sid, res_authority = authority, res_claim = claim\<rparr>"
  obtain base where base: "\<And>d. unat (base d) = unat (in_use st d) - charge_amount d ?r"
    and eq: "finite_transition pa ?cur authority' claim' st =
     (case reservation_charge claim' of Inl e \<Rightarrow> refuse st e
      | Inr charge \<Rightarrow>
        case over_capacity st base charge of
          Some d \<Rightarrow> refuse st (pressure_error st base sid authority' charge d)
        | None \<Rightarrow>
            (st\<lparr>reservations := bmap_insert rid
                  \<lparr>res_scope = sid, res_authority = authority', res_claim = claim'\<rparr>
                  (reservations st),
                in_use := (\<lambda>d. base d + charge d)\<rparr>, Done (Inr ())))"
    using finite_transition_eq [OF ok get, of authority' claim'] by blast
  have acc: "accounted st d = unat (base d) + unat (claim d) + record_charge d" for d
    using base [of d] charge_le_in_use [OF ok get, of d] provider_ok_accounted [OF ok, of d]
    by (simp add: charge_amount_def)
  obtain st' q where run: "finite_transition pa ?cur authority' claim' st = (st', q)" by fastforce
  show ?thesis
  proof (cases "reservation_charge claim'")
    case (Inl e)
    from reservation_charge_Inl [OF this]
    have "unat (grant st OpaqueDependencyResidual) + unat (claim OpaqueDependencyResidual) <
      accounted st OpaqueDependencyResidual + unat (claim' OpaqueDependencyResidual)"
      using acc [of OpaqueDependencyResidual] unat_u64_le [of "grant st OpaqueDependencyResidual"]
      by (simp add: record_charge_def del: unat_u64_le)
    then show ?thesis using Inl by (auto simp: eq refuse_def)
  next
    case (Inr charge)
    then have charge: "\<And>d. unat (charge d) = unat (claim' d) + record_charge d"
      by (simp add: reservation_charge_Inr_iff)
    show ?thesis
    proof (cases "over_capacity st base charge")
      case None
      with Inr eq run have q: "q = Done (Inr ())"
        and st': "reservations st' = bmap_insert rid
          \<lparr>res_scope = sid, res_authority = authority', res_claim = claim'\<rparr> (reservations st)"
        by auto
      have granted: "provider_ok pa st'" "grant st' = grant st"
        using finite_transition_granted [OF ok get run [unfolded q]] by auto
      have "in_use st' = (\<lambda>d. base d + charge d)" using Inr None eq run by auto
      then have "accounted st' d = unat (base d) + unat (charge d)" for d
        using provider_ok_accounted [OF granted(1), of d] over_capacity_None_unat [OF None, of d]
        by simp
      moreover have "unat (base d) + unat (charge d) \<le> unat (grant st d)" for d
        using None by (simp add: over_capacity_None)
      ultimately show ?thesis using acc charge granted run q by simp
    next
      case (Some d)
      then have "unat (grant st d) < unat (base d) + unat (charge d)"
        by (auto simp: over_capacity_def find_Some_iff)
      then have "unat (grant st d) + unat (claim d) < accounted st d + unat (claim' d)"
        using acc [of d] charge [of d] by simp
      then show ?thesis using Some Inr by (auto simp: eq refuse_def)
    qed
  qed
qed

definition sample_leased :: provider_state where
  "sample_leased = sample_provider\<lparr>next_reservation_id := 2,
     reservations := [(1, \<lparr>res_scope = 7, res_authority = Admitted, res_claim = (\<lambda>_. 3)\<rparr>)],
     in_use := (\<lambda>_. 3)(OpaqueDependencyResidual := 5)\<rparr>"

lemma sample_leased_ok: "provider_ok 7 sample_leased"
  by (simp add: sample_leased_def sample_provider_def provider_ok_def live_def provider_inv_def
      provider_struct_def accounted_def provider_new_def zero_claim_def bset_wf_def word_le_nat_alt
      record_charge_def bmap_wf_def bmap_get_Cons bmap_total_def charge_amount_def
      word_less_nat_alt)

lemma sample_leased_get:
  "bmap_get (reservations sample_leased) 1 =
     Some \<lparr>res_scope = 7, res_authority = Admitted, res_claim = (\<lambda>_. 3)\<rparr>"
  by (simp add: sample_leased_def bmap_get_Cons)

theorem transition_atomic_witness:
  "case finite_transition 7 \<lparr>rs_reservation_id = 1, rs_scope_id = 7, rs_authority = Admitted,
        rs_claim = (\<lambda>_. 3)\<rparr> Cleanup (\<lambda>_. 9) sample_leased of
      (st', Done (Inl e)) \<Rightarrow> st' = sample_leased
    | _ \<Rightarrow> False"
proof -
  have acc: "accounted sample_leased OpaqueDependencyResidual = 5"
    and cap: "grant sample_leased = (\<lambda>_. 10)"
    by (simp_all add: sample_leased_def sample_provider_def provider_new_def accounted_def
        bmap_total_def charge_amount_def record_charge_def zero_claim_def)
  note transition_atomic [OF sample_leased_ok sample_leased_get, where authority' = Cleanup
      and claim' = "\<lambda>_. 9"]
  moreover have False if "\<forall>d. accounted st' d + unat (3 :: u64) =
      accounted sample_leased d + unat (9 :: u64) \<and> accounted st' d \<le> unat (grant sample_leased d)"
    for st'
    using that [rule_format, of OpaqueDependencyResidual] acc cap by auto
  ultimately show ?thesis by (auto split: prod.splits outcome.splits sum.splits)
qed

text \<open>
  C5: Acquire and release are inverse. Releasing a reservation just granted, with the fields the
  lease carries, gives back the provider state before it, charge for charge and entry for entry,
  except that the reservation identity is spent.
\<close>

theorem acquire_release_roundtrip:
  assumes "provider_ok pa st"
    and "finite_acquire pa sid authority claim st = (st', Done (Inr rid))"
  shows "finite_release pa rid sid authority claim st' =
         st\<lparr>next_reservation_id := next_reservation_id st + 1\<rparr>"
proof -
  note g = finite_acquire_granted [OF assms]
  have get: "bmap_get (reservations st') rid =
      Some \<lparr>res_scope = sid, res_authority = authority, res_claim = claim\<rparr>"
    using g provider_ok_def provider_inv_def provider_struct_def assms(1) by auto
  obtain st'' where r: "finite_release pa rid sid authority claim st' = st''" "provider_ok pa st''"
    "reservations st'' = bmap_remove rid (reservations st')" "scopes st'' = scopes st'"
    "grant st'' = grant st'"
    "retained_after_failed_cleanup st'' = retained_after_failed_cleanup st'"
    using finite_release_exact [OF conjunct1 [OF g] get] by metis
  have wf: "bmap_wf (reservations st)"
    using assms(1) by (simp add: provider_ok_def provider_inv_def provider_struct_def)
  have res: "reservations st'' = reservations st" using g r(3) wf by (auto simp: bm.rem_ins_fresh)
  have "unat (in_use st'' d) = unat (in_use st d)" for d
    using provider_ok_accounted [OF r(2), of d] provider_ok_accounted [OF assms(1), of d] g res r
    by (simp add: accounted_def)
  then have use: "in_use st'' = in_use st" by (simp add: fun_eq_iff word_unat_eq_iff)
  have nid: "next_reservation_id st'' = next_reservation_id st + 1"
    using r(1) next_id_of_acquire [OF assms] next_id_of_release [of pa rid sid authority claim st']
    by simp
  show ?thesis
    using g r res use nid assms(1) r(2)
    by (intro provider_state.equality) (auto simp: provider_ok_def live_def)
qed

theorem acquire_release_roundtrip_witness:
  "\<exists>st'. finite_acquire 7 7 Admitted (\<lambda>_. 4) sample_provider = (st', Done (Inr 1)) \<and>
     finite_release 7 1 7 Admitted (\<lambda>_. 4) st' = sample_provider\<lparr>next_reservation_id := 2\<rparr>"
proof -
  have sid: "7 \<in> set (scopes sample_provider)" and nid: "next_reservation_id sample_provider = 1"
    by (simp_all add: sample_provider_def provider_new_def)
  have "fits sample_provider (\<lambda>_. 4) 1"
    by (simp add: fits_def sample_provider_def provider_new_def accounted_def record_charge_def
        zero_claim_def)
  then obtain st' where run: "finite_acquire 7 7 Admitted (\<lambda>_. 4) sample_provider = (st', Done (Inr 1))"
    using finite_acquire_cases [OF sample_provider_ok sid, of Admitted "\<lambda>_. 4"] nid
    by (auto simp: word_unat_eq_iff)
  from acquire_release_roundtrip [OF sample_provider_ok run] run nid show ?thesis by simp
qed

text \<open>
  C7: The provider obeys only the authority it is bound to. Every mutating operation called with
  another authority leaves the state as locking it gives it (so unchanged while the mutex is
  healthy), and every fallible one refuses.
\<close>

theorem foreign_authority_powerless:
  assumes "provider_authority st = Some bound" "pa \<noteq> bound"
  shows "fst (finite_acquire pa sid a c st) = lock_state st \<and>
    fst (finite_create_scope pa sid parent st) = lock_state st \<and>
    fst (finite_create_scope_and_acquire pa sid p a c st) = lock_state st \<and>
    fst (finite_transition pa cur a c st) = lock_state st \<and>
    fst (finite_retain_after_failed_cleanup pa rid sid a c st) = lock_state st \<and>
    finite_release pa rid sid a c st = lock_state st \<and>
    finite_release_scope pa sid st = lock_state st \<and>
    (\<exists>e. snd (finite_acquire pa sid a c st) = Done (Inl e)) \<and>
    (\<exists>e. snd (finite_create_scope pa sid parent st) = Done (Inl e)) \<and>
    (\<exists>e. snd (finite_create_scope_and_acquire pa sid p a c st) = Done (Inl e)) \<and>
    (\<exists>e. snd (finite_transition pa cur a c st) = Done (Inl e)) \<and>
    (\<exists>e. snd (finite_retain_after_failed_cleanup pa rid sid a c st) = Done (Inl e))"
proof -
  have auth: "provider_authority (lock_state st) = Some bound"
    using assms(1) by (simp add: lock_state_def)
  then have req: "require_provider_authority (lock_state st) pa =
      Inl (ProviderInvariant OpaqueDependencyResidual)"
    and bind: "bind_provider_authority (lock_state st) pa =
      (lock_state st, Inl (ProviderInvariant OpaqueDependencyResidual))"
    using assms(2) by (simp_all add: require_provider_authority_def bind_provider_authority_def)
  note defs = finite_acquire_def finite_create_scope_def finite_create_scope_and_acquire_def
    finite_transition_def finite_retain_after_failed_cleanup_def finite_release_def
    finite_release_scope_def refuse_def
  show ?thesis by (simp add: defs req bind Let_def split: sum.split)
qed

theorem foreign_authority_powerless_witness:
  "finite_release 8 1 7 Admitted (\<lambda>_. 3) sample_leased = sample_leased"
  using foreign_authority_powerless [of sample_leased 7 8 7 Admitted "\<lambda>_. 3" _ _ _ 1]
  by (simp add: sample_leased_def sample_provider_def lock_state_def provider_new_def)




end
