(* ===== verification/Resource_Port.thy ===== *)
theory Resource_Port
  imports Resource_Provider
begin

text \<open>
  The authority port, its scopes and its leases (\<open>resource/provider.rs\<close>): \<open>ResourceProviderPort\<close>,
  \<open>ResourceScope\<close> and \<open>ResourceLease\<close> over a provider behind the trait \<open>ResourceProvider\<close>. The
  trait object is a record of operations, \<open>provider_ops\<close>; \<open>finite_provider\<close> is the one that
  \<open>FiniteResourceProvider\<close> implements.

  The state of a port holds the provider's state, the scope registry, the live scopes with their
  parents and the handles clients own, and the live leases, keyed by the reservation each owns.
  Reference counting is explicit: a scope is retained by client handles, by its children, by its
  leases and, for the process scope, by the port; \<open>collect\<close> is what dropping the last reference
  does, up the chain of parents. The relation \<open>port_step\<close> takes one operation of a client at a
  time. The contract of a provider is the locale \<open>resource_provider\<close>; inside it every step is
  shown to keep the port's invariant, and the finite provider is an instance.
\<close>

section \<open>The provider interface\<close>

record 's provider_ops =
  op_create_scope ::
    "identity \<Rightarrow> scope_id \<Rightarrow> scope_id option \<Rightarrow> 's \<Rightarrow> 's \<times> (unavailable + unit) outcome"
  op_create_scope_and_acquire ::
    "identity \<Rightarrow> scope_id \<Rightarrow> scope_id \<Rightarrow> authority_class \<Rightarrow> resource_claim \<Rightarrow> 's \<Rightarrow>
     's \<times> (unavailable + u64) outcome"
  op_release_scope :: "identity \<Rightarrow> scope_id \<Rightarrow> 's \<Rightarrow> 's"
  op_acquire ::
    "identity \<Rightarrow> scope_id \<Rightarrow> authority_class \<Rightarrow> resource_claim \<Rightarrow> 's \<Rightarrow>
     's \<times> (unavailable + u64) outcome"
  op_transition ::
    "identity \<Rightarrow> reservation_state \<Rightarrow> authority_class \<Rightarrow> resource_claim \<Rightarrow> 's \<Rightarrow>
     's \<times> (unavailable + unit) outcome"
  op_release ::
    "identity \<Rightarrow> u64 \<Rightarrow> scope_id \<Rightarrow> authority_class \<Rightarrow> resource_claim \<Rightarrow> 's \<Rightarrow> 's"
  op_retain_after_failed_cleanup ::
    "identity \<Rightarrow> u64 \<Rightarrow> scope_id \<Rightarrow> authority_class \<Rightarrow> resource_claim \<Rightarrow> 's \<Rightarrow>
     's \<times> (unavailable + resource_claim) outcome"
  op_pressure ::
    "scope_id \<Rightarrow> authority_class \<Rightarrow> resource_class \<Rightarrow> 's \<Rightarrow> 's \<times> resource_pressure"

definition finite_provider :: "provider_state provider_ops" where
  "finite_provider =
     \<lparr>op_create_scope = finite_create_scope,
      op_create_scope_and_acquire = finite_create_scope_and_acquire,
      op_release_scope = finite_release_scope,
      op_acquire = finite_acquire,
      op_transition = finite_transition,
      op_release = finite_release,
      op_retain_after_failed_cleanup = finite_retain_after_failed_cleanup,
      op_pressure = finite_pressure\<rparr>"

section \<open>Port, scopes and leases\<close>

record scope_inner =
  sc_parent :: "scope_id option"
  sc_registered :: bool
  sc_handles :: nat

record 's port =
  pt_provider :: 's
  pt_authority :: identity
  pt_known_scopes :: "scope_id list"
  pt_process_scope :: scope_id
  pt_alive :: bool
  pt_heap :: "(scope_id, scope_inner) bmap"
  pt_leases :: "(u64, reservation) bmap"

definition scope_refs :: "'s port \<Rightarrow> scope_id \<Rightarrow> nat" where
  "scope_refs pt sid =
     (case bmap_get (pt_heap pt) sid of None \<Rightarrow> 0 | Some sc \<Rightarrow> sc_handles sc) +
     length (filter (\<lambda>e. sc_parent (snd e) = Some sid) (pt_heap pt)) +
     length (filter (\<lambda>e. res_scope (snd e) = sid) (pt_leases pt)) +
     (if pt_alive pt \<and> pt_process_scope pt = sid then 1 else 0)"

definition drop_scope_inner :: "'s provider_ops \<Rightarrow> scope_id \<Rightarrow> scope_inner \<Rightarrow> 's port \<Rightarrow> 's port" where
  "drop_scope_inner P sid sc pt =
     (let pt1 = (if pt_alive pt
                 then pt\<lparr>pt_known_scopes := bset_remove sid (pt_known_scopes pt)\<rparr> else pt);
          pt2 = (if sc_registered sc
                 then pt1\<lparr>pt_provider := op_release_scope P (pt_authority pt1) sid (pt_provider pt1)\<rparr>
                 else pt1)
      in pt2\<lparr>pt_heap := bmap_remove sid (pt_heap pt2)\<rparr>)"

lemma length_bmap_remove_less: "bmap_get m k = Some v \<Longrightarrow> length (bmap_remove k m) < length m"
  unfolding bmap_remove_def
  by (rule length_filter_less [where x = "(k, v)"]) (auto dest: bmap_get_Some_in_set)

lemma pt_heap_drop_scope_inner [simp]:
  "pt_heap (drop_scope_inner P sid sc pt) = bmap_remove sid (pt_heap pt)"
  by (simp add: drop_scope_inner_def Let_def)

function collect :: "'s provider_ops \<Rightarrow> scope_id \<Rightarrow> 's port \<Rightarrow> 's port" where
  "collect P sid pt =
     (case bmap_get (pt_heap pt) sid of None \<Rightarrow> pt
      | Some sc \<Rightarrow>
          if scope_refs pt sid \<noteq> 0 then pt
          else
            case sc_parent sc of
              None \<Rightarrow> drop_scope_inner P sid sc pt
            | Some parent \<Rightarrow> collect P parent (drop_scope_inner P sid sc pt))"
  by pat_completeness auto
termination
  by (relation "measure (\<lambda>(_, _, pt). length (pt_heap pt))") (auto intro: length_bmap_remove_less)

definition add_handle :: "scope_id \<Rightarrow> 's port \<Rightarrow> 's port" where
  "add_handle sid pt =
     (case bmap_get (pt_heap pt) sid of None \<Rightarrow> pt
      | Some sc \<Rightarrow>
          pt\<lparr>pt_heap := bmap_insert sid (sc\<lparr>sc_handles := sc_handles sc + 1\<rparr>) (pt_heap pt)\<rparr>)"

definition drop_handle :: "'s provider_ops \<Rightarrow> scope_id \<Rightarrow> 's port \<Rightarrow> 's port" where
  "drop_handle P sid pt =
     (case bmap_get (pt_heap pt) sid of None \<Rightarrow> pt
      | Some sc \<Rightarrow>
          collect P sid
            (pt\<lparr>pt_heap := bmap_insert sid (sc\<lparr>sc_handles := sc_handles sc - 1\<rparr>) (pt_heap pt)\<rparr>))"

definition port_new ::
    "'s provider_ops \<Rightarrow> identity \<Rightarrow> 's \<Rightarrow> 's port \<times> (unavailable + unit) outcome" where
  "port_new P ident s =
     (let pt = \<lparr>pt_provider = s, pt_authority = ident, pt_known_scopes = [ident],
                pt_process_scope = ident, pt_alive = True,
                pt_heap = [(ident, \<lparr>sc_parent = None, sc_registered = False, sc_handles = 0\<rparr>)],
                pt_leases = []\<rparr>
      in case op_create_scope P ident ident None s of
           (s', Done (Inr _)) \<Rightarrow>
             (pt\<lparr>pt_provider := s',
                 pt_heap := [(ident, \<lparr>sc_parent = None, sc_registered = True, sc_handles = 0\<rparr>)]\<rparr>,
              Done (Inr ()))
         | (s', Done (Inl e)) \<Rightarrow>
             (pt\<lparr>pt_provider := s', pt_alive := False, pt_heap := []\<rparr>, Done (Inl e))
         | (s', Panic) \<Rightarrow>
             (pt\<lparr>pt_provider := s', pt_alive := False, pt_heap := []\<rparr>, Panic))"

definition validate_scope :: "'s port \<Rightarrow> scope_id \<Rightarrow> unavailable + unit" where
  "validate_scope pt sid =
     (if bmap_contains (pt_heap pt) sid \<and> pt_alive pt \<and> sid \<in> set (pt_known_scopes pt)
      then Inr () else Inl (UnknownScope sid))"

definition port_create_scope ::
    "'s provider_ops \<Rightarrow> scope_id \<Rightarrow> scope_id \<Rightarrow> 's port \<Rightarrow> 's port \<times> (unavailable + unit) outcome" where
  "port_create_scope P parent sid pt =
     (case validate_scope pt parent of Inl e \<Rightarrow> (pt, Done (Inl e))
      | Inr _ \<Rightarrow>
        case op_create_scope P (pt_authority pt) sid (Some parent) (pt_provider pt) of
          (s', Done (Inr _)) \<Rightarrow>
            (pt\<lparr>pt_provider := s',
                pt_heap := bmap_insert sid
                  \<lparr>sc_parent = Some parent, sc_registered = True, sc_handles = 1\<rparr> (pt_heap pt),
                pt_known_scopes := bset_insert sid (pt_known_scopes pt)\<rparr>, Done (Inr ()))
        | (s', Done (Inl e)) \<Rightarrow>
            (pt\<lparr>pt_provider := s', pt_known_scopes := bset_remove sid (pt_known_scopes pt)\<rparr>,
             Done (Inl e))
        | (s', Panic) \<Rightarrow>
            (pt\<lparr>pt_provider := s', pt_known_scopes := bset_remove sid (pt_known_scopes pt)\<rparr>, Panic))"

definition port_create_scope_with_lease ::
    "'s provider_ops \<Rightarrow> scope_id \<Rightarrow> scope_id \<Rightarrow> authority_class \<Rightarrow> resource_claim \<Rightarrow> 's port \<Rightarrow>
     's port \<times> (unavailable + u64) outcome" where
  "port_create_scope_with_lease P parent sid authority claim pt =
     (case validate_scope pt parent of Inl e \<Rightarrow> (pt, Done (Inl e))
      | Inr _ \<Rightarrow>
        case op_create_scope_and_acquire P (pt_authority pt) sid parent authority claim
               (pt_provider pt) of
          (s', Done (Inr rid)) \<Rightarrow>
            (pt\<lparr>pt_provider := s',
                pt_heap := bmap_insert sid
                  \<lparr>sc_parent = Some parent, sc_registered = True, sc_handles = 1\<rparr> (pt_heap pt),
                pt_known_scopes := bset_insert sid (pt_known_scopes pt),
                pt_leases := bmap_insert rid
                  \<lparr>res_scope = sid, res_authority = authority, res_claim = claim\<rparr>
                  (pt_leases pt)\<rparr>, Done (Inr rid))
        | (s', Done (Inl e)) \<Rightarrow>
            (pt\<lparr>pt_provider := s', pt_known_scopes := bset_remove sid (pt_known_scopes pt)\<rparr>,
             Done (Inl e))
        | (s', Panic) \<Rightarrow>
            (pt\<lparr>pt_provider := s', pt_known_scopes := bset_remove sid (pt_known_scopes pt)\<rparr>, Panic))"

definition port_acquire ::
    "'s provider_ops \<Rightarrow> scope_id \<Rightarrow> authority_class \<Rightarrow> resource_claim \<Rightarrow> 's port \<Rightarrow>
     's port \<times> (unavailable + u64) outcome" where
  "port_acquire P sid authority claim pt =
     (case validate_scope pt sid of Inl e \<Rightarrow> (pt, Done (Inl e))
      | Inr _ \<Rightarrow>
        case op_acquire P (pt_authority pt) sid authority claim (pt_provider pt) of
          (s', Done (Inr rid)) \<Rightarrow>
            (pt\<lparr>pt_provider := s',
                pt_leases := bmap_insert rid
                  \<lparr>res_scope = sid, res_authority = authority, res_claim = claim\<rparr>
                  (pt_leases pt)\<rparr>, Done (Inr rid))
        | (s', Done (Inl e)) \<Rightarrow> (pt\<lparr>pt_provider := s'\<rparr>, Done (Inl e))
        | (s', Panic) \<Rightarrow> (pt\<lparr>pt_provider := s'\<rparr>, Panic))"

definition port_pressure ::
    "'s provider_ops \<Rightarrow> scope_id \<Rightarrow> authority_class \<Rightarrow> resource_class \<Rightarrow> 's port \<Rightarrow>
     's port \<times> (unavailable + resource_pressure)" where
  "port_pressure P sid authority dimension pt =
     (case validate_scope pt sid of Inl e \<Rightarrow> (pt, Inl e)
      | Inr _ \<Rightarrow>
        case op_pressure P sid authority dimension (pt_provider pt) of
          (s', p) \<Rightarrow> (pt\<lparr>pt_provider := s'\<rparr>, Inr p))"

definition lease_transition_to ::
    "'s provider_ops \<Rightarrow> u64 \<Rightarrow> authority_class \<Rightarrow> resource_claim \<Rightarrow> 's port \<Rightarrow>
     's port \<times> (unavailable + unit) outcome" where
  "lease_transition_to P rid authority' claim' pt =
     (case bmap_get (pt_leases pt) rid of
        None \<Rightarrow> (pt, Panic)
      | Some l \<Rightarrow>
        case op_transition P (pt_authority pt)
               \<lparr>rs_reservation_id = rid, rs_scope_id = res_scope l, rs_authority = res_authority l,
                rs_claim = res_claim l\<rparr> authority' claim' (pt_provider pt) of
          (s', Done (Inr _)) \<Rightarrow>
            (pt\<lparr>pt_provider := s',
                pt_leases := bmap_insert rid
                  (l\<lparr>res_authority := authority', res_claim := claim'\<rparr>) (pt_leases pt)\<rparr>,
             Done (Inr ()))
        | (s', Done (Inl e)) \<Rightarrow> (pt\<lparr>pt_provider := s'\<rparr>, Done (Inl e))
        | (s', Panic) \<Rightarrow> (pt\<lparr>pt_provider := s'\<rparr>, Panic))"

definition lease_transition ::
    "'s provider_ops \<Rightarrow> u64 \<Rightarrow> resource_claim \<Rightarrow> 's port \<Rightarrow>
     's port \<times> (unavailable + unit) outcome" where
  "lease_transition P rid claim' pt =
     (case bmap_get (pt_leases pt) rid of
        None \<Rightarrow> (pt, Panic)
      | Some l \<Rightarrow> lease_transition_to P rid (res_authority l) claim' pt)"

definition lease_drop :: "'s provider_ops \<Rightarrow> u64 \<Rightarrow> 's port \<Rightarrow> 's port" where
  "lease_drop P rid pt =
     (case bmap_get (pt_leases pt) rid of
        None \<Rightarrow> pt
      | Some l \<Rightarrow>
          collect P (res_scope l)
            (pt\<lparr>pt_provider := op_release P (pt_authority pt) rid (res_scope l) (res_authority l)
                                (res_claim l) (pt_provider pt),
                pt_leases := bmap_remove rid (pt_leases pt)\<rparr>))"

definition lease_retain_after_failed_cleanup ::
    "'s provider_ops \<Rightarrow> u64 \<Rightarrow> 's port \<Rightarrow> 's port \<times> (unavailable + resource_claim) outcome" where
  "lease_retain_after_failed_cleanup P rid pt =
     (case bmap_get (pt_leases pt) rid of
        None \<Rightarrow> (pt, Done (Inl (ProviderInvariant OpaqueDependencyResidual)))
      | Some l \<Rightarrow>
        case op_retain_after_failed_cleanup P (pt_authority pt) rid (res_scope l)
               (res_authority l) (res_claim l) (pt_provider pt) of
          (s', r) \<Rightarrow>
            (collect P (res_scope l)
               (pt\<lparr>pt_provider := s', pt_leases := bmap_remove rid (pt_leases pt)\<rparr>), r))"

definition drop_port :: "'s provider_ops \<Rightarrow> 's port \<Rightarrow> 's port" where
  "drop_port P pt = collect P (pt_process_scope pt) (pt\<lparr>pt_alive := False\<rparr>)"

declare collect.simps [simp del]

section \<open>Steps of a client\<close>

inductive port_step :: "'s provider_ops \<Rightarrow> 's port \<Rightarrow> 's port \<Rightarrow> bool" for P where
  step_clone_scope:
    "bmap_contains (pt_heap pt) sid \<Longrightarrow> port_step P pt (add_handle sid pt)"
| step_drop_scope:
    "\<lbrakk>bmap_get (pt_heap pt) sid = Some sc; 0 < sc_handles sc\<rbrakk> \<Longrightarrow>
     port_step P pt (drop_handle P sid pt)"
| step_create_scope:
    "\<lbrakk>pt_alive pt; \<not> bmap_contains (pt_heap pt) sid;
      port_create_scope P parent sid pt = (pt', Done r)\<rbrakk> \<Longrightarrow> port_step P pt pt'"
| step_create_scope_with_lease:
    "\<lbrakk>pt_alive pt; \<not> bmap_contains (pt_heap pt) sid;
      port_create_scope_with_lease P parent sid authority claim pt = (pt', Done q)\<rbrakk> \<Longrightarrow>
     port_step P pt pt'"
| step_acquire:
    "\<lbrakk>pt_alive pt; port_acquire P sid authority claim pt = (pt', Done q)\<rbrakk> \<Longrightarrow> port_step P pt pt'"
| step_transition:
    "lease_transition_to P rid authority claim pt = (pt', Done r) \<Longrightarrow> port_step P pt pt'"
| step_drop_lease:
    "bmap_contains (pt_leases pt) rid \<Longrightarrow> port_step P pt (lease_drop P rid pt)"
| step_retain:
    "\<lbrakk>bmap_contains (pt_leases pt) rid;
      lease_retain_after_failed_cleanup P rid pt = (pt', Done c)\<rbrakk> \<Longrightarrow> port_step P pt pt'"
| step_pressure:
    "\<lbrakk>pt_alive pt; port_pressure P sid authority d pt = (pt', x)\<rbrakk> \<Longrightarrow> port_step P pt pt'"
| step_drop_port:
    "pt_alive pt \<Longrightarrow> port_step P pt (drop_port P pt)"

inductive port_reach :: "'s provider_ops \<Rightarrow> 's port \<Rightarrow> 's port \<Rightarrow> bool" for P where
  reach_refl: "port_reach P pt pt"
| reach_step: "\<lbrakk>port_reach P pt pt'; port_step P pt' pt''\<rbrakk> \<Longrightarrow> port_reach P pt pt''"

section \<open>The invariant of a port\<close>

definition port_shape :: "'s port \<Rightarrow> bool" where
  "port_shape pt \<longleftrightarrow>
     bmap_wf (pt_heap pt) \<and> bmap_wf (pt_leases pt) \<and> bset_wf (pt_known_scopes pt) \<and>
     (\<forall>sid sc. bmap_get (pt_heap pt) sid = Some sc \<longrightarrow> sc_registered sc) \<and>
     (pt_alive pt \<longrightarrow> set (pt_known_scopes pt) = fst ` set (pt_heap pt)) \<and>
     (\<forall>rid l. bmap_get (pt_leases pt) rid = Some l \<longrightarrow> res_scope l \<in> fst ` set (pt_heap pt))"

definition parents_ok :: "'s port \<Rightarrow> bool" where
  "parents_ok pt \<longleftrightarrow>
     (\<exists>rank. \<forall>sid sc p. bmap_get (pt_heap pt) sid = Some sc \<longrightarrow> sc_parent sc = Some p \<longrightarrow>
        p \<in> fst ` set (pt_heap pt) \<and> rank p < (rank sid :: nat))"

definition retained_scopes :: "'s port \<Rightarrow> scope_id set \<Rightarrow> bool" where
  "retained_scopes pt except \<longleftrightarrow> (\<forall>sid \<in> fst ` set (pt_heap pt) - except. 0 < scope_refs pt sid)"

lemma heap_dom_iff: "sid \<in> fst ` set m \<longleftrightarrow> (\<exists>sc. bmap_get m sid = Some sc)"
  using bmap_get_None_iff [of m sid] by auto

lemma fst_set_bmap_remove: "fst ` set (bmap_remove k m) = fst ` set m - {k}"
  by (auto simp: bmap_remove_def)

lemma filter_bmap_remove:
  assumes "bmap_wf m" "bmap_get m k = Some v" "\<not> Q v"
  shows "filter (\<lambda>e. Q (snd e)) (bmap_remove k m) = filter (\<lambda>e. Q (snd e)) m"
proof -
  have "snd e = v" if "e \<in> set m" "fst e = k" for e
    using assms(1,2) that bmap_get_eq_Some_iff [OF assms(1), of k "snd e"] by auto
  then show ?thesis
    using assms(3) unfolding bmap_remove_def filter_filter by (intro filter_cong) auto
qed

lemma scope_refs_zeroD:
  assumes "scope_refs pt sid = 0" "bmap_wf (pt_heap pt)" "bmap_wf (pt_leases pt)"
  shows "bmap_get (pt_heap pt) s = Some sc \<Longrightarrow> sc_parent sc \<noteq> Some sid"
    and "bmap_get (pt_leases pt) rid = Some l \<Longrightarrow> res_scope l \<noteq> sid"
    and "\<not> (pt_alive pt \<and> pt_process_scope pt = sid)"
  using assms
  by (auto simp: scope_refs_def filter_empty_conv bmap_get_eq_Some_iff split: if_splits)

definition linked ::
    "(identity \<Rightarrow> 's \<Rightarrow> bool) \<Rightarrow> ('s \<Rightarrow> scope_id set) \<Rightarrow> ('s \<Rightarrow> u64 \<Rightarrow> reservation option) \<Rightarrow>
     's port \<Rightarrow> bool" where
  "linked ok known resv pt \<longleftrightarrow>
     ok (pt_authority pt) (pt_provider pt) \<and>
     known (pt_provider pt) = fst ` set (pt_heap pt) \<and>
     resv (pt_provider pt) = bmap_get (pt_leases pt)"

definition port_inv ::
    "(identity \<Rightarrow> 's \<Rightarrow> bool) \<Rightarrow> ('s \<Rightarrow> scope_id set) \<Rightarrow> ('s \<Rightarrow> u64 \<Rightarrow> reservation option) \<Rightarrow>
     scope_id set \<Rightarrow> 's port \<Rightarrow> bool" where
  "port_inv ok known resv except pt \<longleftrightarrow>
     port_shape pt \<and> parents_ok pt \<and> linked ok known resv pt \<and> retained_scopes pt except"

lemma port_shape_wf:
  "port_shape pt \<Longrightarrow> bmap_wf (pt_heap pt)" "port_shape pt \<Longrightarrow> bmap_wf (pt_leases pt)"
  "port_shape pt \<Longrightarrow> bset_wf (pt_known_scopes pt)"
  by (simp_all add: port_shape_def)

lemma count_as_total: "length (filter (\<lambda>e. Q (snd e)) m) = bmap_total (\<lambda>v. of_bool (Q v)) m"
  by (induction m) (simp_all add: bmap_total_def)

lemmas scope_counts =
  count_as_total [of "\<lambda>sc. sc_parent sc = Some s" for s]
  count_as_total [of "\<lambda>l. res_scope l = s" for s]

lemma bmap_total_insert:
  assumes "bmap_wf m"
  shows "bmap_total f (bmap_insert k v m) + (case bmap_get m k of None \<Rightarrow> 0 | Some w \<Rightarrow> f w) =
         bmap_total f m + f v"
  using bmap_total_insert_fresh [of m k f v] bmap_total_update [OF assms, of k _ f v]
  by (auto split: option.split)

lemma scope_refs_insert_scope:
  assumes "bmap_wf (pt_heap pt)" "bmap_get (pt_heap pt) sid = None"
  shows "scope_refs (pt\<lparr>pt_provider := p, pt_known_scopes := ks,
           pt_heap := bmap_insert sid sc (pt_heap pt), pt_leases := ls\<rparr>) s =
         (if s = sid then sc_handles sc else 0) + of_bool (sc_parent sc = Some s) +
         scope_refs (pt\<lparr>pt_leases := ls\<rparr>) s"
  using assms bmap_total_insert [OF assms(1), of "\<lambda>sc. of_bool (sc_parent sc = Some s)" sid sc]
  by (auto simp: scope_refs_def scope_counts)

lemma scope_refs_update_scope:
  assumes "bmap_wf (pt_heap pt)" "bmap_get (pt_heap pt) sid = Some sc"
    and "sc_parent sc' = sc_parent sc"
  shows "scope_refs (pt\<lparr>pt_heap := bmap_insert sid sc' (pt_heap pt)\<rparr>) s +
           (if s = sid then sc_handles sc else 0) =
         scope_refs pt s + (if s = sid then sc_handles sc' else 0)"
  using assms bmap_total_update [OF assms(1,2), of "\<lambda>sc. of_bool (sc_parent sc = Some s)" sc']
  by (simp add: scope_refs_def scope_counts)

lemma scope_refs_insert_lease:
  assumes "bmap_wf (pt_leases pt)" "bmap_get (pt_leases pt) rid = None"
  shows "scope_refs (pt\<lparr>pt_leases := bmap_insert rid l (pt_leases pt)\<rparr>) s =
         scope_refs pt s + of_bool (res_scope l = s)"
  using bmap_total_insert_fresh [OF assms(2), of "\<lambda>l. of_bool (res_scope l = s)" l]
  by (simp add: scope_refs_def scope_counts)

lemma scope_refs_update_lease:
  assumes "bmap_wf (pt_leases pt)" "bmap_get (pt_leases pt) rid = Some l" "res_scope l' = res_scope l"
  shows "scope_refs (pt\<lparr>pt_leases := bmap_insert rid l' (pt_leases pt)\<rparr>) s = scope_refs pt s"
  using bmap_total_update [OF assms(1,2), of "\<lambda>l. of_bool (res_scope l = s)" l'] assms(3)
  by (simp add: scope_refs_def scope_counts)

lemma scope_refs_remove_lease:
  assumes "bmap_wf (pt_leases pt)" "bmap_get (pt_leases pt) rid = Some l"
  shows "scope_refs pt s =
         scope_refs (pt\<lparr>pt_leases := bmap_remove rid (pt_leases pt)\<rparr>) s + of_bool (res_scope l = s)"
  using bmap_total_remove [OF assms, of "\<lambda>l. of_bool (res_scope l = s)"]
  by (simp add: scope_refs_def scope_counts)

lemma scope_refs_other [simp]:
  "scope_refs (pt\<lparr>pt_provider := p\<rparr>) s = scope_refs pt s"
  "scope_refs (pt\<lparr>pt_known_scopes := ks\<rparr>) s = scope_refs pt s"
  "scope_refs (pt\<lparr>pt_provider := p, pt_known_scopes := ks\<rparr>) s = scope_refs pt s"
  "scope_refs (pt\<lparr>pt_provider := p, pt_leases := ls\<rparr>) s = scope_refs (pt\<lparr>pt_leases := ls\<rparr>) s"
  by (simp_all add: scope_refs_def)

lemma parents_ok_insert_scope:
  assumes "parents_ok pt" "bmap_wf (pt_heap pt)" "bmap_get (pt_heap pt) sid = None"
    and parent: "\<And>p. sc_parent sc = Some p \<Longrightarrow> p \<in> fst ` set (pt_heap pt)"
    and heap: "pt_heap pt' = bmap_insert sid sc (pt_heap pt)"
  shows "parents_ok pt'"
proof -
  from assms(1) obtain rank where rank:
    "\<And>s sc p. bmap_get (pt_heap pt) s = Some sc \<Longrightarrow> sc_parent sc = Some p \<Longrightarrow>
       p \<in> fst ` set (pt_heap pt) \<and> rank p < (rank s :: nat)"
    unfolding parents_ok_def by blast
  have sid: "sid \<notin> fst ` set (pt_heap pt)" using assms(3) by (simp add: bmap_get_None_iff)
  let ?rank = "rank(sid := (case sc_parent sc of None \<Rightarrow> 0 | Some p \<Rightarrow> Suc (rank p)))"
  show ?thesis
    unfolding parents_ok_def heap
    using rank parent sid assms(2) by (intro exI [of _ ?rank]) (auto simp: set_bmap_insert)
qed

lemma parents_ok_update_scope:
  assumes "parents_ok pt" "bmap_wf (pt_heap pt)" "bmap_get (pt_heap pt) sid = Some sc"
    and "sc_parent sc' = sc_parent sc" "pt_heap pt' = bmap_insert sid sc' (pt_heap pt)"
  shows "parents_ok pt'"
  using assms unfolding parents_ok_def
  by (auto simp: set_bmap_insert) (metis option.inject)

lemma parents_ok_same_heap: "\<lbrakk>parents_ok pt; pt_heap pt' = pt_heap pt\<rbrakk> \<Longrightarrow> parents_ok pt'"
  by (simp add: parents_ok_def)

lemma drop_scope_inner_simps [simp]:
  "pt_leases (drop_scope_inner P sid sc pt) = pt_leases pt"
  "pt_alive (drop_scope_inner P sid sc pt) = pt_alive pt"
  "pt_authority (drop_scope_inner P sid sc pt) = pt_authority pt"
  "pt_process_scope (drop_scope_inner P sid sc pt) = pt_process_scope pt"
  "pt_known_scopes (drop_scope_inner P sid sc pt) =
     (if pt_alive pt then bset_remove sid (pt_known_scopes pt) else pt_known_scopes pt)"
  "sc_registered sc \<Longrightarrow> pt_provider (drop_scope_inner P sid sc pt) =
     op_release_scope P (pt_authority pt) sid (pt_provider pt)"
  by (simp_all add: drop_scope_inner_def Let_def)

lemma scope_refs_drop_scope_inner:
  assumes "bmap_wf (pt_heap pt)" "bmap_get (pt_heap pt) sid = Some sc" "s \<noteq> sid"
    and "sc_parent sc \<noteq> Some s"
  shows "scope_refs (drop_scope_inner P sid sc pt) s = scope_refs pt s"
  using assms filter_bmap_remove [of "pt_heap pt" sid sc "\<lambda>sc. sc_parent sc = Some s"]
  by (simp add: scope_refs_def)

lemma port_shape_drop_scope_inner:
  assumes "port_shape pt" "bmap_get (pt_heap pt) sid = Some sc" "scope_refs pt sid = 0"
  shows "port_shape (drop_scope_inner P sid sc pt)"
  using assms scope_refs_zeroD(2) [OF assms(3)]
  by (auto simp: port_shape_def fst_set_bmap_remove split: if_splits)

lemma parents_ok_drop_scope_inner:
  assumes "parents_ok pt" "port_shape pt" "scope_refs pt sid = 0"
  shows "parents_ok (drop_scope_inner P sid sc pt)"
proof -
  from assms(1) obtain rank where
    "\<forall>s sc p. bmap_get (pt_heap pt) s = Some sc \<longrightarrow> sc_parent sc = Some p \<longrightarrow>
       p \<in> fst ` set (pt_heap pt) \<and> rank p < (rank s :: nat)"
    unfolding parents_ok_def by blast
  then show ?thesis
    using scope_refs_zeroD(1) [OF assms(3)] assms(2)
    unfolding parents_ok_def port_shape_def
    by (intro exI [of _ rank]) (auto simp: fst_set_bmap_remove split: if_splits)
qed

section \<open>The contract of a provider\<close>

text \<open>
  What the port relies on: a healthy provider keeps a set of known scopes and a map of live
  reservations; a granted operation makes exactly its own change to them under a fresh
  reservation identity, a refused operation makes none, and the operations of a lease succeed on
  the exact reservation it owns. The lemmas inside hold for every provider of this kind.
\<close>

locale resource_provider =
  fixes P :: "'s provider_ops"
    and ok :: "identity \<Rightarrow> 's \<Rightarrow> bool"
    and known :: "'s \<Rightarrow> scope_id set"
    and resv :: "'s \<Rightarrow> u64 \<Rightarrow> reservation option"
  assumes create_granted:
      "\<lbrakk>ok pa s; op_create_scope P pa sid parent s = (s', Done (Inr ()))\<rbrakk> \<Longrightarrow>
       ok pa s' \<and> known s' = insert sid (known s) \<and> resv s' = resv s"
    and create_refused:
      "\<lbrakk>ok pa s; sid \<notin> known s; op_create_scope P pa sid parent s = (s', Done (Inl e))\<rbrakk> \<Longrightarrow> s' = s"
    and create_acquire_granted:
      "\<lbrakk>ok pa s;
        op_create_scope_and_acquire P pa sid p authority claim s = (s', Done (Inr rid))\<rbrakk> \<Longrightarrow>
       ok pa s' \<and> known s' = insert sid (known s) \<and> resv s rid = None \<and>
       resv s' = (resv s)(rid \<mapsto>
         \<lparr>res_scope = sid, res_authority = authority, res_claim = claim\<rparr>)"
    and create_acquire_refused:
      "\<lbrakk>ok pa s; sid \<notin> known s;
        op_create_scope_and_acquire P pa sid p authority claim s = (s', Done (Inl e))\<rbrakk> \<Longrightarrow> s' = s"
    and acquire_granted:
      "\<lbrakk>ok pa s; op_acquire P pa sid authority claim s = (s', Done (Inr rid))\<rbrakk> \<Longrightarrow>
       ok pa s' \<and> known s' = known s \<and> resv s rid = None \<and>
       resv s' = (resv s)(rid \<mapsto>
         \<lparr>res_scope = sid, res_authority = authority, res_claim = claim\<rparr>)"
    and acquire_refused:
      "\<lbrakk>ok pa s; op_acquire P pa sid authority claim s = (s', Done (Inl e))\<rbrakk> \<Longrightarrow> s' = s"
    and transition_granted:
      "\<lbrakk>ok pa s; resv s rid = Some l;
        op_transition P pa \<lparr>rs_reservation_id = rid, rs_scope_id = res_scope l,
          rs_authority = res_authority l, rs_claim = res_claim l\<rparr> authority' claim' s =
          (s', Done (Inr ()))\<rbrakk> \<Longrightarrow>
       ok pa s' \<and> known s' = known s \<and>
       resv s' = (resv s)(rid \<mapsto> l\<lparr>res_authority := authority', res_claim := claim'\<rparr>)"
    and transition_refused:
      "\<lbrakk>ok pa s; resv s rid = Some l;
        op_transition P pa \<lparr>rs_reservation_id = rid, rs_scope_id = res_scope l,
          rs_authority = res_authority l, rs_claim = res_claim l\<rparr> authority' claim' s =
          (s', Done (Inl e))\<rbrakk> \<Longrightarrow> s' = s"
    and release_exact:
      "\<lbrakk>ok pa s; resv s rid = Some l;
        op_release P pa rid (res_scope l) (res_authority l) (res_claim l) s = s'\<rbrakk> \<Longrightarrow>
       ok pa s' \<and> known s' = known s \<and> resv s' = (resv s)(rid := None)"
    and retain_exact:
      "\<lbrakk>ok pa s; resv s rid = Some l;
        op_retain_after_failed_cleanup P pa rid (res_scope l) (res_authority l) (res_claim l) s =
          (s', r)\<rbrakk> \<Longrightarrow>
       r = Done (Inr (res_claim l)) \<and> ok pa s' \<and> known s' = known s \<and>
       resv s' = (resv s)(rid := None)"
    and release_scope_idle:
      "\<lbrakk>ok pa s; sid \<in> known s; \<And>rid l. resv s rid = Some l \<Longrightarrow> res_scope l \<noteq> sid;
        op_release_scope P pa sid s = s'\<rbrakk> \<Longrightarrow>
       ok pa s' \<and> known s' = known s - {sid} \<and> resv s' = resv s"
    and pressure_reads: "ok pa s \<Longrightarrow> fst (op_pressure P sid authority d s) = s"
begin

lemma linked_drop_scope_inner:
  assumes "linked ok known resv pt" "port_shape pt" "bmap_get (pt_heap pt) sid = Some sc"
    and zero: "scope_refs pt sid = 0"
  shows "linked ok known resv (drop_scope_inner P sid sc pt)"
proof -
  let ?s = "pt_provider pt" and ?pa = "pt_authority pt"
  have reg: "sc_registered sc" and sid: "sid \<in> fst ` set (pt_heap pt)"
    using assms(2,3) by (auto simp: port_shape_def heap_dom_iff)
  have "res_scope l \<noteq> sid" if "resv ?s rid = Some l" for rid l
    using that assms(1,2) scope_refs_zeroD(2) [OF zero] by (auto simp: linked_def port_shape_def)
  then show ?thesis
    using release_scope_idle [of ?pa ?s sid] assms(1) sid reg
    by (simp add: linked_def fst_set_bmap_remove)
qed

lemma collect_inv:
  assumes "port_inv ok known resv {sid} pt"
  shows "port_inv ok known resv {} (collect P sid pt)"
  using assms
proof (induction "length (pt_heap pt)" arbitrary: sid pt rule: less_induct)
  case less
  show ?case
  proof (cases "bmap_get (pt_heap pt) sid")
    case None
    then have "sid \<notin> fst ` set (pt_heap pt)" by (simp add: bmap_get_None_iff)
    with None less.prems show ?thesis
      by (auto simp: collect.simps [of P sid] port_inv_def retained_scopes_def)
  next
    case (Some sc)
    show ?thesis
    proof (cases "scope_refs pt sid = 0")
      case False
      then show ?thesis
        using Some less.prems by (auto simp: collect.simps [of P sid] port_inv_def retained_scopes_def)
    next
      case True
      let ?pt = "drop_scope_inner P sid sc pt"
      have "port_inv ok known resv (set_option (sc_parent sc)) ?pt"
        using less.prems Some True
        by (auto simp: port_inv_def port_shape_drop_scope_inner parents_ok_drop_scope_inner
            linked_drop_scope_inner retained_scopes_def fst_set_bmap_remove
            scope_refs_drop_scope_inner port_shape_wf)
      moreover have "length (pt_heap ?pt) < length (pt_heap pt)"
        using Some by (simp add: length_bmap_remove_less)
      ultimately show ?thesis
        using less.hyps Some True by (cases "sc_parent sc") (simp_all add: collect.simps [of P sid])
    qed
  qed
qed

lemma add_handle_inv:
  assumes inv: "port_inv ok known resv {} pt" and sid: "bmap_contains (pt_heap pt) sid"
  shows "port_inv ok known resv {} (add_handle sid pt)"
proof -
  obtain sc where sc: "bmap_get (pt_heap pt) sid = Some sc" using sid by (auto simp: bmap_contains_def)
  have wf: "bmap_wf (pt_heap pt)" using inv by (simp add: port_inv_def port_shape_wf)
  let ?sc = "sc\<lparr>sc_handles := sc_handles sc + 1\<rparr>"
  let ?pt = "pt\<lparr>pt_heap := bmap_insert sid ?sc (pt_heap pt)\<rparr>"
  have dom: "fst ` set (bmap_insert sid ?sc (pt_heap pt)) = fst ` set (pt_heap pt)"
    using sc by (auto simp: set_bmap_insert heap_dom_iff)
  have "scope_refs pt s \<le> scope_refs ?pt s" for s
    using scope_refs_update_scope [OF wf sc, of ?sc s] by (simp split: if_splits)
  then have "retained_scopes ?pt {}"
    using inv dom by (auto simp: port_inv_def retained_scopes_def intro: less_le_trans)
  moreover have "parents_ok ?pt"
    using inv wf sc parents_ok_update_scope [of pt sid sc ?sc ?pt] by (simp add: port_inv_def)
  moreover have "port_shape ?pt" "linked ok known resv ?pt"
    using inv sc wf dom by (auto simp: port_inv_def port_shape_def linked_def split: if_splits)
  ultimately show ?thesis using sc by (simp add: add_handle_def port_inv_def)
qed

lemma drop_handle_inv:
  assumes inv: "port_inv ok known resv {} pt"
  shows "port_inv ok known resv {} (drop_handle P sid pt)"
proof (cases "bmap_get (pt_heap pt) sid")
  case (Some sc)
  have wf: "bmap_wf (pt_heap pt)" using inv by (simp add: port_inv_def port_shape_wf)
  let ?sc = "sc\<lparr>sc_handles := sc_handles sc - 1\<rparr>"
  let ?pt = "pt\<lparr>pt_heap := bmap_insert sid ?sc (pt_heap pt)\<rparr>"
  have dom: "fst ` set (bmap_insert sid ?sc (pt_heap pt)) = fst ` set (pt_heap pt)"
    using Some by (auto simp: set_bmap_insert heap_dom_iff)
  have "s \<noteq> sid \<Longrightarrow> scope_refs ?pt s = scope_refs pt s" for s
    using scope_refs_update_scope [OF wf Some, of ?sc s] by simp
  then have "retained_scopes ?pt {sid}"
    using inv dom by (auto simp: port_inv_def retained_scopes_def)
  moreover have "parents_ok ?pt"
    using inv wf Some parents_ok_update_scope [of pt sid sc ?sc ?pt] by (simp add: port_inv_def)
  moreover have "port_shape ?pt" "linked ok known resv ?pt"
    using inv Some wf dom by (auto simp: port_inv_def port_shape_def linked_def split: if_splits)
  ultimately have "port_inv ok known resv {sid} ?pt" by (simp add: port_inv_def)
  from collect_inv [OF this] Some show ?thesis by (simp add: drop_handle_def)
qed (use inv in \<open>simp add: drop_handle_def\<close>)

lemma validate_scope_Inr:
  "validate_scope pt sid = Inr u \<Longrightarrow> sid \<in> fst ` set (pt_heap pt) \<and> pt_alive pt"
  by (auto simp: validate_scope_def bmap_contains_def heap_dom_iff split: if_splits)

lemma insert_scope_inv:
  assumes inv: "port_inv ok known resv {} pt" and alive: "pt_alive pt"
    and fresh: "\<not> bmap_contains (pt_heap pt) sid" and parent: "parent \<in> fst ` set (pt_heap pt)"
    and prov: "ok (pt_authority pt) s'" "known s' = insert sid (known (pt_provider pt))"
    and resv: "resv s' = bmap_get ls"
    and ls: "bmap_wf ls" "\<And>rid l. bmap_get ls rid = Some l \<Longrightarrow> res_scope l \<in> insert sid (fst ` set (pt_heap pt))"
    and refs: "\<And>s. scope_refs pt s \<le> scope_refs (pt\<lparr>pt_leases := ls\<rparr>) s"
  shows "port_inv ok known resv {}
    (pt\<lparr>pt_provider := s', pt_known_scopes := bset_insert sid (pt_known_scopes pt),
        pt_heap := bmap_insert sid
          \<lparr>sc_parent = Some parent, sc_registered = True, sc_handles = 1\<rparr> (pt_heap pt),
        pt_leases := ls\<rparr>)" (is "port_inv _ _ _ _ ?pt")
proof -
  let ?sc = "\<lparr>sc_parent = Some parent, sc_registered = True, sc_handles = 1\<rparr>"
  have none: "bmap_get (pt_heap pt) sid = None" using fresh by (simp add: bmap_contains_def)
  have wf: "bmap_wf (pt_heap pt)" "bset_wf (pt_known_scopes pt)"
    using inv by (simp_all add: port_inv_def port_shape_wf)
  have more: "scope_refs pt s + (if s = sid then 1 else 0) \<le> scope_refs ?pt s" for s
    using refs [of s] by (auto simp: scope_refs_insert_scope [OF wf(1) none])
  have "0 < scope_refs ?pt s" if "s \<in> insert sid (fst ` set (pt_heap pt))" for s
  proof (cases "s = sid")
    case False
    then have "0 < scope_refs pt s"
      using that inv unfolding port_inv_def retained_scopes_def by blast
    then show ?thesis using more [of s] by linarith
  qed (use more [of s] in simp)
  then have "retained_scopes ?pt {}"
    unfolding retained_scopes_def by (simp add: set_bmap_insert)
  moreover have "parents_ok ?pt"
    using inv wf none parent parents_ok_insert_scope [of pt sid ?sc ?pt] by (simp add: port_inv_def)
  moreover have "port_shape ?pt"
    using inv wf alive ls
    by (simp add: port_inv_def port_shape_def set_bmap_insert del: image_insert)
  moreover have "linked ok known resv ?pt"
    using inv prov resv by (simp add: port_inv_def linked_def set_bmap_insert)
  ultimately show ?thesis by (simp add: port_inv_def)
qed

lemma known_scopes_remove_fresh:
  assumes "port_inv ok known resv {} pt" "pt_alive pt" "\<not> bmap_contains (pt_heap pt) sid"
  shows "pt\<lparr>pt_provider := pt_provider pt, pt_known_scopes := bset_remove sid (pt_known_scopes pt)\<rparr> = pt"
proof -
  have "sid \<notin> set (pt_known_scopes pt)"
    using assms by (auto simp: port_inv_def port_shape_def bmap_contains_def heap_dom_iff)
  then have "bset_remove sid (pt_known_scopes pt) = pt_known_scopes pt"
    by (auto simp: bset_remove_def intro: filter_True)
  then show ?thesis by simp
qed

lemma port_create_scope_inv:
  assumes inv: "port_inv ok known resv {} pt" and alive: "pt_alive pt"
    and fresh: "\<not> bmap_contains (pt_heap pt) sid"
    and run: "port_create_scope P parent sid pt = (pt', Done r)"
  shows "port_inv ok known resv {} pt'"
proof (cases "validate_scope pt parent")
  case (Inl e)
  then show ?thesis using run inv by (simp add: port_create_scope_def)
next
  case (Inr u)
  obtain s' q where op: "op_create_scope P (pt_authority pt) sid (Some parent) (pt_provider pt) = (s', q)"
    by fastforce
  have link: "linked ok known resv pt" and shape: "port_shape pt"
    using inv by (simp_all add: port_inv_def)
  have new: "sid \<notin> known (pt_provider pt)"
    using link fresh by (auto simp: linked_def bmap_contains_def heap_dom_iff)
  show ?thesis
  proof (cases r)
    case (Inl e)
    then have "q = Done (Inl e)"
      and pt': "pt' = pt\<lparr>pt_provider := s', pt_known_scopes := bset_remove sid (pt_known_scopes pt)\<rparr>"
      using run Inr op by (auto simp: port_create_scope_def split: outcome.splits sum.splits)
    then have "s' = pt_provider pt" using create_refused new op link by (auto simp: linked_def)
    then show ?thesis using pt' known_scopes_remove_fresh [OF inv alive fresh] inv by simp
  next
    case (Inr v)
    then have q: "q = Done (Inr ())"
      and pt': "pt' = pt\<lparr>pt_provider := s', pt_known_scopes := bset_insert sid (pt_known_scopes pt),
        pt_heap := bmap_insert sid
          \<lparr>sc_parent = Some parent, sc_registered = True, sc_handles = 1\<rparr> (pt_heap pt),
        pt_leases := pt_leases pt\<rparr>"
      using run \<open>validate_scope pt parent = Inr u\<close> op
      by (auto simp: port_create_scope_def split: outcome.splits sum.splits)
    have *: "ok (pt_authority pt) s'" "known s' = insert sid (known (pt_provider pt))"
      "resv s' = bmap_get (pt_leases pt)"
      using create_granted [OF _ op [unfolded q]] link by (simp_all add: linked_def)
    have parent: "parent \<in> fst ` set (pt_heap pt)"
      using validate_scope_Inr \<open>validate_scope pt parent = Inr u\<close> by blast
    show ?thesis
      unfolding pt' using shape
      by (intro insert_scope_inv [OF inv alive fresh parent *]) (auto simp: port_shape_def)
  qed
qed

lemma port_create_scope_with_lease_inv:
  assumes inv: "port_inv ok known resv {} pt" and alive: "pt_alive pt"
    and fresh: "\<not> bmap_contains (pt_heap pt) sid"
    and run: "port_create_scope_with_lease P parent sid authority claim pt = (pt', Done r)"
  shows "port_inv ok known resv {} pt'"
proof (cases "validate_scope pt parent")
  case (Inl e)
  then show ?thesis using run inv by (simp add: port_create_scope_with_lease_def)
next
  case valid: (Inr u)
  let ?l = "\<lparr>res_scope = sid, res_authority = authority, res_claim = claim\<rparr>"
  obtain s' q where op: "op_create_scope_and_acquire P (pt_authority pt) sid parent authority claim
      (pt_provider pt) = (s', q)"
    by fastforce
  have link: "linked ok known resv pt" and shape: "port_shape pt"
    using inv by (simp_all add: port_inv_def)
  have new: "sid \<notin> known (pt_provider pt)"
    using link fresh by (auto simp: linked_def bmap_contains_def heap_dom_iff)
  show ?thesis
  proof (cases r)
    case (Inl e)
    then have "q = Done (Inl e)"
      and pt': "pt' = pt\<lparr>pt_provider := s', pt_known_scopes := bset_remove sid (pt_known_scopes pt)\<rparr>"
      using run valid op
      by (auto simp: port_create_scope_with_lease_def split: outcome.splits sum.splits)
    then have "s' = pt_provider pt" using create_acquire_refused new op link by (auto simp: linked_def)
    then show ?thesis using pt' known_scopes_remove_fresh [OF inv alive fresh] inv by simp
  next
    case (Inr rid)
    then have q: "q = Done (Inr rid)"
      and pt': "pt' = pt\<lparr>pt_provider := s', pt_known_scopes := bset_insert sid (pt_known_scopes pt),
        pt_heap := bmap_insert sid
          \<lparr>sc_parent = Some parent, sc_registered = True, sc_handles = 1\<rparr> (pt_heap pt),
        pt_leases := bmap_insert rid ?l (pt_leases pt)\<rparr>"
      using run valid op
      by (auto simp: port_create_scope_with_lease_def split: outcome.splits sum.splits)
    have wf: "bmap_wf (pt_leases pt)" using shape by (simp add: port_shape_wf)
    have none: "bmap_get (pt_leases pt) rid = None"
      and *: "ok (pt_authority pt) s'" "known s' = insert sid (known (pt_provider pt))"
        "resv s' = bmap_get (bmap_insert rid ?l (pt_leases pt))"
      using create_acquire_granted [OF _ op [unfolded q]] link wf
      by (auto simp: linked_def fun_eq_iff)
    have parent: "parent \<in> fst ` set (pt_heap pt)" using validate_scope_Inr valid by blast
    show ?thesis
      unfolding pt' using shape wf scope_refs_insert_lease [OF wf none, of ?l]
      by (intro insert_scope_inv [OF inv alive fresh parent *])
         (auto simp: port_shape_def split: if_splits)
  qed
qed

lemma port_acquire_inv:
  assumes inv: "port_inv ok known resv {} pt"
    and run: "port_acquire P sid authority claim pt = (pt', Done r)"
  shows "port_inv ok known resv {} pt'"
proof (cases "validate_scope pt sid")
  case (Inl e)
  then show ?thesis using run inv by (simp add: port_acquire_def)
next
  case valid: (Inr u)
  let ?l = "\<lparr>res_scope = sid, res_authority = authority, res_claim = claim\<rparr>"
  obtain s' q where op: "op_acquire P (pt_authority pt) sid authority claim (pt_provider pt) = (s', q)"
    by fastforce
  have link: "linked ok known resv pt" and shape: "port_shape pt"
    using inv by (simp_all add: port_inv_def)
  show ?thesis
  proof (cases r)
    case (Inl e)
    then have "q = Done (Inl e)" and pt': "pt' = pt\<lparr>pt_provider := s'\<rparr>"
      using run valid op by (auto simp: port_acquire_def split: outcome.splits sum.splits)
    then have "s' = pt_provider pt" using acquire_refused op link by (auto simp: linked_def)
    then show ?thesis using pt' inv by simp
  next
    case (Inr rid)
    then have q: "q = Done (Inr rid)"
      and pt': "pt' = pt\<lparr>pt_provider := s', pt_leases := bmap_insert rid ?l (pt_leases pt)\<rparr>"
      using run valid op by (auto simp: port_acquire_def split: outcome.splits sum.splits)
    have wf: "bmap_wf (pt_leases pt)" using shape by (simp add: port_shape_wf)
    have none: "bmap_get (pt_leases pt) rid = None"
      and *: "ok (pt_authority pt) s'" "known s' = known (pt_provider pt)"
        "resv s' = bmap_get (bmap_insert rid ?l (pt_leases pt))"
      using acquire_granted [OF _ op [unfolded q]] link wf by (auto simp: linked_def fun_eq_iff)
    have sid: "sid \<in> fst ` set (pt_heap pt)" using validate_scope_Inr valid by blast
    have "retained_scopes pt' {}"
      using inv scope_refs_insert_lease [OF wf none, of ?l]
      by (auto simp: pt' port_inv_def retained_scopes_def)
    moreover have "parents_ok pt'"
      using inv parents_ok_same_heap [of pt pt'] by (simp add: pt' port_inv_def)
    moreover have "port_shape pt'" "linked ok known resv pt'"
      using shape link sid wf * by (auto simp: pt' port_shape_def linked_def split: if_splits)
    ultimately show ?thesis by (simp add: port_inv_def)
  qed
qed

lemma lease_transition_to_inv:
  assumes inv: "port_inv ok known resv {} pt"
    and run: "lease_transition_to P rid authority' claim' pt = (pt', Done r)"
  shows "port_inv ok known resv {} pt'"
proof -
  have link: "linked ok known resv pt" and shape: "port_shape pt"
    using inv by (simp_all add: port_inv_def)
  have wf: "bmap_wf (pt_leases pt)" using shape by (simp add: port_shape_wf)
  obtain l where l: "bmap_get (pt_leases pt) rid = Some l"
    using run by (auto simp: lease_transition_to_def split: option.splits)
  let ?l = "l\<lparr>res_authority := authority', res_claim := claim'\<rparr>"
  obtain s' q where op: "op_transition P (pt_authority pt)
      \<lparr>rs_reservation_id = rid, rs_scope_id = res_scope l, rs_authority = res_authority l,
       rs_claim = res_claim l\<rparr> authority' claim' (pt_provider pt) = (s', q)"
    by fastforce
  have rl: "ok (pt_authority pt) (pt_provider pt)" "resv (pt_provider pt) rid = Some l"
    using link l by (simp_all add: linked_def)
  show ?thesis
  proof (cases r)
    case (Inl e)
    then have q: "q = Done (Inl e)" and pt': "pt' = pt\<lparr>pt_provider := s'\<rparr>"
      using run l op by (auto simp: lease_transition_to_def split: outcome.splits sum.splits)
    then show ?thesis using transition_refused [OF rl op [unfolded q]] inv by simp
  next
    case (Inr u)
    then have q: "q = Done (Inr ())"
      and pt': "pt' = pt\<lparr>pt_provider := s', pt_leases := bmap_insert rid ?l (pt_leases pt)\<rparr>"
      using run l op by (auto simp: lease_transition_to_def split: outcome.splits sum.splits)
    have "retained_scopes pt' {}"
      using inv scope_refs_update_lease [OF wf l, of ?l]
      by (auto simp: pt' port_inv_def retained_scopes_def)
    moreover have "parents_ok pt'"
      using inv parents_ok_same_heap [of pt pt'] by (simp add: pt' port_inv_def)
    moreover have "port_shape pt'"
      using shape l wf by (auto simp: pt' port_shape_def split: if_splits)
    moreover have "linked ok known resv pt'"
      using link wf transition_granted [OF rl op [unfolded q]]
      by (auto simp: pt' linked_def fun_eq_iff)
    ultimately show ?thesis by (simp add: port_inv_def)
  qed
qed

lemma remove_lease_inv:
  assumes inv: "port_inv ok known resv {} pt" and l: "bmap_get (pt_leases pt) rid = Some l"
    and "ok (pt_authority pt) s'" "known s' = known (pt_provider pt)"
      "resv s' = (resv (pt_provider pt))(rid := None)"
  shows "port_inv ok known resv {}
    (collect P (res_scope l) (pt\<lparr>pt_provider := s', pt_leases := bmap_remove rid (pt_leases pt)\<rparr>))"
proof (rule collect_inv)
  let ?pt = "pt\<lparr>pt_provider := s', pt_leases := bmap_remove rid (pt_leases pt)\<rparr>"
  have wf: "bmap_wf (pt_leases pt)" using inv by (simp add: port_inv_def port_shape_wf)
  have "s \<noteq> res_scope l \<Longrightarrow> scope_refs ?pt s = scope_refs pt s" for s
    using scope_refs_remove_lease [OF wf l, of s] by simp
  then have "retained_scopes ?pt {res_scope l}"
    using inv by (auto simp: port_inv_def retained_scopes_def)
  moreover have "parents_ok ?pt"
    using inv parents_ok_same_heap [of pt ?pt] by (simp add: port_inv_def)
  moreover have "port_shape ?pt" "linked ok known resv ?pt"
    using inv assms(3-) by (auto simp: port_inv_def port_shape_def linked_def fun_eq_iff split: if_splits)
  ultimately show "port_inv ok known resv {res_scope l} ?pt" by (simp add: port_inv_def)
qed

lemma drop_port_inv:
  assumes inv: "port_inv ok known resv {} pt"
  shows "port_inv ok known resv {} (drop_port P pt)"
  unfolding drop_port_def
proof (rule collect_inv)
  let ?pt = "pt\<lparr>pt_alive := False\<rparr>"
  have "s \<noteq> pt_process_scope pt \<Longrightarrow> scope_refs ?pt s = scope_refs pt s" for s
    by (simp add: scope_refs_def)
  then have "retained_scopes ?pt {pt_process_scope pt}"
    using inv by (auto simp: port_inv_def retained_scopes_def)
  moreover have "parents_ok ?pt"
    using inv parents_ok_same_heap [of pt ?pt] by (simp add: port_inv_def)
  moreover have "port_shape ?pt" "linked ok known resv ?pt"
    using inv by (simp_all add: port_inv_def port_shape_def linked_def)
  ultimately show "port_inv ok known resv {pt_process_scope pt} ?pt" by (simp add: port_inv_def)
qed

theorem port_step_inv:
  assumes "port_step P pt pt'" "port_inv ok known resv {} pt"
  shows "port_inv ok known resv {} pt'"
  using assms
proof (induction rule: port_step.induct)
  case (step_drop_lease pt rid)
  then obtain l where l: "bmap_get (pt_leases pt) rid = Some l" by (auto simp: bmap_contains_def)
  from l step_drop_lease have "ok (pt_authority pt) (pt_provider pt)"
    "resv (pt_provider pt) rid = Some l"
    by (simp_all add: port_inv_def linked_def)
  note released = release_exact [OF this refl]
  show ?case
    unfolding lease_drop_def l option.case
    by (rule remove_lease_inv [OF step_drop_lease.prems l]) (simp_all only: released)
next
  case (step_retain pt rid pt' r)
  then obtain l where l: "bmap_get (pt_leases pt) rid = Some l" by (auto simp: bmap_contains_def)
  obtain s' q where op: "op_retain_after_failed_cleanup P (pt_authority pt) rid (res_scope l)
      (res_authority l) (res_claim l) (pt_provider pt) = (s', q)"
    by fastforce
  from l step_retain have "ok (pt_authority pt) (pt_provider pt)" "resv (pt_provider pt) rid = Some l"
    by (simp_all add: port_inv_def linked_def)
  note retained = retain_exact [OF this op]
  have "pt' = collect P (res_scope l) (pt\<lparr>pt_provider := s', pt_leases := bmap_remove rid (pt_leases pt)\<rparr>)"
    using step_retain.hyps(2) l op by (simp add: lease_retain_after_failed_cleanup_def)
  then show ?case
    by (simp only:) (rule remove_lease_inv [OF step_retain.prems l], simp_all only: retained)
next
  case (step_pressure pt sid authority d pt' r)
  then have "fst (op_pressure P sid authority d (pt_provider pt)) = pt_provider pt"
    by (intro pressure_reads [of "pt_authority pt"]) (simp add: port_inv_def linked_def)
  then show ?case
    using step_pressure.hyps(2) step_pressure.prems
    by (cases "op_pressure P sid authority d (pt_provider pt)")
       (auto simp: port_pressure_def split: sum.splits)
next
  case (step_drop_port pt)
  then show ?case by (simp add: drop_port_inv)
next
  case (step_clone_scope pt sid)
  show ?case by (rule add_handle_inv) (fact step_clone_scope)+
next
  case (step_drop_scope pt sid sc)
  show ?case by (rule drop_handle_inv) (fact step_drop_scope)+
next
  case (step_create_scope pt sid parent pt' r)
  show ?case by (rule port_create_scope_inv) (fact step_create_scope)+
next
  case (step_create_scope_with_lease pt sid parent authority claim pt' q)
  show ?case by (rule port_create_scope_with_lease_inv) (fact step_create_scope_with_lease)+
next
  case (step_acquire pt sid authority claim pt' q)
  show ?case by (rule port_acquire_inv) (fact step_acquire)+
next
  case (step_transition rid authority claim pt pt' r)
  show ?case by (rule lease_transition_to_inv) (fact step_transition)+
qed

lemma port_reach_inv:
  "\<lbrakk>port_reach P pt pt'; port_inv ok known resv {} pt\<rbrakk> \<Longrightarrow> port_inv ok known resv {} pt'"
  by (induction rule: port_reach.induct) (auto intro: port_step_inv)

lemma empty_heap:
  assumes inv: "port_inv ok known resv {} pt" and dead: "\<not> pt_alive pt" and none: "pt_leases pt = []"
    and handles: "\<And>sid sc. bmap_get (pt_heap pt) sid = Some sc \<Longrightarrow> sc_handles sc = 0"
  shows "pt_heap pt = []"
proof (rule ccontr)
  assume nonempty: "pt_heap pt \<noteq> []"
  let ?D = "fst ` set (pt_heap pt)"
  obtain rank where rank:
    "\<And>s sc p. bmap_get (pt_heap pt) s = Some sc \<Longrightarrow> sc_parent sc = Some p \<Longrightarrow> rank p < (rank s :: nat)"
    using inv unfolding port_inv_def parents_ok_def by blast
  have "finite ?D" "?D \<noteq> {}" using nonempty by auto
  then obtain sid where sid: "sid \<in> ?D" and top: "\<And>s. s \<in> ?D \<Longrightarrow> rank s \<le> rank sid"
    using Max_in [of "rank ` ?D"] Max_ge [of "rank ` ?D"] by fastforce
  have "0 < scope_refs pt sid"
    using inv sid unfolding port_inv_def retained_scopes_def by blast
  moreover have "(case bmap_get (pt_heap pt) sid of None \<Rightarrow> 0 | Some sc \<Rightarrow> sc_handles sc) = 0"
    using handles by (simp split: option.split)
  ultimately obtain e where e: "e \<in> set (pt_heap pt)" "sc_parent (snd e) = Some sid"
    using dead none by (auto simp: scope_refs_def filter_empty_conv)
  have "bmap_get (pt_heap pt) (fst e) = Some (snd e)"
    using inv e(1) bmap_get_eq_Some_iff [of "pt_heap pt" "fst e" "snd e"]
    by (simp add: port_inv_def port_shape_wf)
  then have "rank sid < rank (fst e)" using rank e(2) by blast
  moreover have "rank (fst e) \<le> rank sid" using top e(1) by blast
  ultimately show False by simp
qed

end

section \<open>What no operation changes\<close>

text \<open>An observation of the provider that every operation leaves alone is constant over steps.\<close>

locale provider_constant =
  fixes P :: "'s provider_ops"
    and obs :: "'s \<Rightarrow> 'o"
  assumes obs_create: "obs (fst (op_create_scope P pa sid parent s)) = obs s"
    and obs_create_acquire: "obs (fst (op_create_scope_and_acquire P pa sid p a c s)) = obs s"
    and obs_acquire: "obs (fst (op_acquire P pa sid a c s)) = obs s"
    and obs_transition: "obs (fst (op_transition P pa cur a c s)) = obs s"
    and obs_release: "obs (op_release P pa rid sid a c s) = obs s"
    and obs_retain: "obs (fst (op_retain_after_failed_cleanup P pa rid sid a c s)) = obs s"
    and obs_release_scope: "obs (op_release_scope P pa sid s) = obs s"
    and obs_pressure: "obs (fst (op_pressure P sid a d s)) = obs s"
begin

lemma obs_collect: "obs (pt_provider (collect P sid pt)) = obs (pt_provider pt)"
proof (induction "length (pt_heap pt)" arbitrary: sid pt rule: less_induct)
  case less
  have drop: "obs (pt_provider (drop_scope_inner P sid sc pt)) = obs (pt_provider pt)" for sc
    by (simp add: drop_scope_inner_def Let_def obs_release_scope)
  show ?case
    using less [of "drop_scope_inner P sid (the (bmap_get (pt_heap pt) sid)) pt"] drop
    by (subst collect.simps) (auto simp: length_bmap_remove_less split: option.split)
qed

lemma obs_step: "port_step P pt pt' \<Longrightarrow> obs (pt_provider pt') = obs (pt_provider pt)"
proof (induction rule: port_step.induct)
  case (step_create_scope pt sid parent pt' r)
  then show ?case
    using obs_create [of "pt_authority pt" sid "Some parent" "pt_provider pt"]
    by (auto simp: port_create_scope_def split: sum.splits prod.splits outcome.splits)
next
  case (step_create_scope_with_lease pt sid parent authority claim pt' q)
  then show ?case
    using obs_create_acquire [of "pt_authority pt" sid parent authority claim "pt_provider pt"]
    by (auto simp: port_create_scope_with_lease_def split: sum.splits prod.splits outcome.splits)
next
  case (step_acquire pt sid authority claim pt' q)
  then show ?case
    using obs_acquire [of "pt_authority pt" sid authority claim "pt_provider pt"]
    by (auto simp: port_acquire_def split: sum.splits prod.splits outcome.splits)
next
  case (step_transition rid authority claim pt pt' r)
  then obtain l where l: "bmap_get (pt_leases pt) rid = Some l"
    by (auto simp: lease_transition_to_def split: option.splits)
  show ?case
    using step_transition l obs_transition [of "pt_authority pt" "\<lparr>rs_reservation_id = rid,
        rs_scope_id = res_scope l, rs_authority = res_authority l, rs_claim = res_claim l\<rparr>"
        authority claim "pt_provider pt"]
    by (auto simp: lease_transition_to_def split: sum.splits prod.splits outcome.splits)
next
  case (step_retain pt rid pt' c)
  then obtain l where l: "bmap_get (pt_leases pt) rid = Some l" by (auto simp: bmap_contains_def)
  show ?case
    using step_retain l
      obs_retain [of "pt_authority pt" rid "res_scope l" "res_authority l" "res_claim l" "pt_provider pt"]
    by (auto simp: lease_retain_after_failed_cleanup_def obs_collect split: prod.splits)
next
  case (step_pressure pt sid authority d pt' x)
  then show ?case
    using obs_pressure [of sid authority d "pt_provider pt"]
    by (auto simp: port_pressure_def split: sum.splits prod.splits)
qed (auto simp: add_handle_def drop_handle_def lease_drop_def drop_port_def obs_collect obs_release
      split: option.split)

lemma obs_reach: "port_reach P pt pt' \<Longrightarrow> obs (pt_provider pt') = obs (pt_provider pt)"
  by (induction rule: port_reach.induct) (auto dest: obs_step)

end

section \<open>The finite provider is an instance\<close>

abbreviation finite_known :: "provider_state \<Rightarrow> scope_id set" where
  "finite_known st \<equiv> set (scopes st)"

abbreviation finite_resv :: "provider_state \<Rightarrow> u64 \<Rightarrow> reservation option" where
  "finite_resv st \<equiv> bmap_get (reservations st)"

lemma provider_ok_wf: "provider_ok pa st \<Longrightarrow> bmap_wf (reservations st)"
  by (simp add: provider_ok_def provider_inv_def provider_struct_def)

lemma lease_record:
  "l = \<lparr>res_scope = res_scope l, res_authority = res_authority l, res_claim = res_claim l\<rparr>"
  by simp

interpretation fin: resource_provider finite_provider provider_ok finite_known finite_resv
proof (unfold_locales, goal_cases)
  case (1 pa s sid parent s')
  then show ?case using finite_create_scope_granted [of pa s sid parent s']
    by (simp add: finite_provider_def)
next
  case (2 pa s sid parent s' e)
  then show ?case using finite_create_scope_refused [of pa s sid parent s' e]
    by (simp add: finite_provider_def)
next
  case (3 pa s sid p authority claim s' rid)
  then show ?case
    using finite_create_scope_and_acquire_granted [of pa s sid p authority claim s' rid]
    by (auto simp: finite_provider_def provider_ok_wf)
next
  case (4 pa s sid p authority claim s' e)
  then show ?case
    using finite_create_scope_and_acquire_refused [of pa s sid p authority claim s' e]
    by (simp add: finite_provider_def)
next
  case (5 pa s sid authority claim s' rid)
  then show ?case using finite_acquire_granted [of pa s sid authority claim s' rid]
    by (auto simp: finite_provider_def provider_ok_wf)
next
  case (6 pa s sid authority claim s' e)
  then show ?case using finite_acquire_refused [of pa s sid authority claim s' e]
    by (simp add: finite_provider_def)
next
  case (7 pa s rid l authority' claim' s')
  then show ?case
    using finite_transition_granted [of pa s rid "res_scope l" "res_authority l" "res_claim l"
        authority' claim' s']
    by (simp add: finite_provider_def provider_ok_wf fun_eq_iff)
next
  case (8 pa s rid l authority' claim' s' e)
  then show ?case
    using finite_transition_refused [of pa s rid "res_scope l" "res_authority l" "res_claim l"
        authority' claim' s' e]
    by (simp add: finite_provider_def)
next
  case (9 pa s rid l s')
  then have "bmap_get (reservations s) rid = Some
      \<lparr>res_scope = res_scope l, res_authority = res_authority l, res_claim = res_claim l\<rparr>"
    by simp
  from finite_release_exact [OF 9(1) this] obtain s1 where
    "finite_release pa rid (res_scope l) (res_authority l) (res_claim l) s = s1" "provider_ok pa s1"
    "reservations s1 = bmap_remove rid (reservations s)" "scopes s1 = scopes s"
    by metis
  with 9(3) show ?case by (simp add: finite_provider_def fun_eq_iff)
next
  case (10 pa s rid l s' r)
  then have "bmap_get (reservations s) rid = Some
      \<lparr>res_scope = res_scope l, res_authority = res_authority l, res_claim = res_claim l\<rparr>"
    by simp
  from finite_retain_exact [OF 10(1) this] obtain s1 where
    "finite_retain_after_failed_cleanup pa rid (res_scope l) (res_authority l) (res_claim l) s =
      (s1, Done (Inr (res_claim l)))" "provider_ok pa s1"
    "reservations s1 = bmap_remove rid (reservations s)" "scopes s1 = scopes s"
    by metis
  with 10(3) show ?case by (simp add: finite_provider_def fun_eq_iff)
next
  case (11 pa s sid s')
  from finite_release_scope_exact [OF 11(1,2)] 11(3) obtain s1 where
    "finite_release_scope pa sid s = s1" "provider_ok pa s1" "reservations s1 = reservations s"
    "scopes s1 = bset_remove sid (scopes s)"
    by metis
  with 11(4) show ?case by (simp add: finite_provider_def)
next
  case (12 pa s sid authority d)
  then show ?case by (simp add: finite_provider_def finite_pressure_def provider_ok_simps Let_def)
qed

lemma port_new_inv:
  assumes "port_new finite_provider ident (provider_new g) = (pt, Done (Inr ()))"
  shows "port_inv provider_ok finite_known finite_resv {} pt" and "grant (pt_provider pt) = g"
proof -
  let ?st = "(provider_new g)\<lparr>provider_authority := Some ident, scopes := [ident],
               in_use := bookkeeping_claim\<rparr>"
  have g: "g OpaqueDependencyResidual \<noteq> 0" and
    pt: "pt = \<lparr>pt_provider = ?st, pt_authority = ident, pt_known_scopes = [ident],
                pt_process_scope = ident, pt_alive = True,
                pt_heap = [(ident, \<lparr>sc_parent = None, sc_registered = True, sc_handles = 0\<rparr>)],
                pt_leases = []\<rparr>"
    using assms
    by (auto simp: port_new_def finite_provider_def finite_create_scope_new refuse_def Let_def
        split: if_splits)
  have "bookkeeping_claim d \<le> g d" for d
    using g by (simp add: word_le_nat_alt record_charge_def Suc_le_eq unat_gt_0)
  then have "provider_ok ident ?st"
    by (simp add: provider_ok_def live_def provider_inv_def provider_struct_def accounted_def)
       (simp add: provider_new_def zero_claim_def bset_wf_def)
  then show "port_inv provider_ok finite_known finite_resv {} pt"
    by (simp add: pt port_inv_def port_shape_def parents_ok_def linked_def retained_scopes_def
        scope_refs_def bmap_get_Cons bmap_wf_def bset_wf_def fun_eq_iff)
       (simp add: provider_new_def)
  show "grant (pt_provider pt) = g" by (simp add: pt provider_new_def)
qed

interpretation fin_grant: provider_constant finite_provider grant
  by unfold_locales
     (simp_all add: finite_provider_def grant_create_scope grant_create_scope_and_acquire
       grant_acquire grant_transition grant_release grant_retain grant_release_scope
       finite_pressure_def Let_def)

lemma reach_finite:
  assumes "port_new finite_provider ident (provider_new g) = (pt, Done (Inr ()))"
    and "port_reach finite_provider pt pt'"
  shows "port_inv provider_ok finite_known finite_resv {} pt'" "grant (pt_provider pt') = g"
  using assms port_new_inv [OF assms(1)] fin.port_reach_inv fin_grant.obs_reach by auto

lemma port_inv_leases:
  assumes "port_inv provider_ok finite_known finite_resv {} pt"
  shows "reservations (pt_provider pt) = pt_leases pt"
  using assms by (intro bmap_eqI) (auto simp: port_inv_def linked_def port_shape_wf provider_ok_wf)

lemma port_inv_scopes:
  assumes "port_inv provider_ok finite_known finite_resv {} pt"
  shows "scopes (pt_provider pt) = map fst (pt_heap pt)"
  using assms
  by (intro bset_eqI)
     (auto simp: port_inv_def linked_def port_shape_def bmap_wf_def bset_wf_def provider_ok_def
       provider_inv_def provider_struct_def)

section \<open>Properties\<close>

text \<open>
  C1: The books balance in every reachable state. Whatever sequence of operations clients perform
  on a port over a finite provider (creating, cloning and dropping scopes, acquiring, replacing,
  dropping and retaining leases, dropping the port), the provider is never poisoned, its
  reservations are exactly the live leases, its scopes exactly the live scopes, and the charge in
  use is, in every dimension, the claims of the live leases, one record of the opaque residual for
  each lease and scope, and the charge retained after failed cleanups; it never exceeds the
  process grant.
\<close>

theorem port_books_balance:
  assumes "port_new finite_provider ident (provider_new g) = (pt0, Done (Inr ()))"
    and "port_reach finite_provider pt0 pt"
  shows "poisoned (pt_provider pt) = None \<and> \<not> lock_poisoned (pt_provider pt) \<and>
    reservations (pt_provider pt) = pt_leases pt \<and>
    scopes (pt_provider pt) = map fst (pt_heap pt) \<and>
    (\<forall>d. unat (in_use (pt_provider pt) d) =
       sum_list (map (\<lambda>e. unat (res_claim (snd e) d) + record_charge d) (pt_leases pt)) +
       record_charge d * length (pt_heap pt) +
       unat (retained_after_failed_cleanup (pt_provider pt) d)) \<and>
    (\<forall>d. in_use (pt_provider pt) d \<le> g d)"
proof -
  note inv = reach_finite [OF assms]
  from inv(1) have ok: "provider_ok (pt_authority pt) (pt_provider pt)"
    by (simp add: port_inv_def linked_def)
  have total: "bmap_total (charge_amount d) (pt_leases pt) =
      sum_list (map (\<lambda>e. unat (res_claim (snd e) d) + record_charge d) (pt_leases pt))" for d
    by (simp add: bmap_total_def comp_def charge_amount_def)
  show ?thesis
    using ok inv(2) port_inv_leases [OF inv(1)] port_inv_scopes [OF inv(1)]
      provider_ok_accounted [OF ok] provider_ok_le [OF ok] total
    by (auto simp: provider_ok_def live_def accounted_def)
qed

definition sample_port :: "provider_state port" where
  "sample_port = fst (port_new finite_provider 7 (provider_new (\<lambda>_. 10)))"

lemma sample_port_new:
  "port_new finite_provider 7 (provider_new (\<lambda>_. 10)) = (sample_port, Done (Inr ()))"
  by (simp add: sample_port_def port_new_def finite_provider_def finite_create_scope_new Let_def
      word_unat_eq_iff)

lemma sample_port_eq:
  "sample_port = \<lparr>pt_provider = sample_provider, pt_authority = 7, pt_known_scopes = [7],
     pt_process_scope = 7, pt_alive = True,
     pt_heap = [(7, \<lparr>sc_parent = None, sc_registered = True, sc_handles = 0\<rparr>)],
     pt_leases = []\<rparr>"
  by (simp add: sample_port_def port_new_def finite_provider_def finite_create_scope_new Let_def
      word_unat_eq_iff sample_provider_def)

lemma sample_port_acquire:
  "\<exists>pt. port_acquire finite_provider 7 Admitted (\<lambda>_. 4) sample_port = (pt, Done (Inr 1)) \<and>
     pt_leases pt = [(1, \<lparr>res_scope = 7, res_authority = Admitted, res_claim = (\<lambda>_. 4)\<rparr>)]"
proof -
  have sid: "7 \<in> set (scopes sample_provider)" and nid: "next_reservation_id sample_provider = 1"
    by (simp_all add: sample_provider_def provider_new_def)
  have "fits sample_provider (\<lambda>_. 4) 1"
    by (simp add: fits_def sample_provider_def provider_new_def accounted_def record_charge_def
        zero_claim_def)
  then obtain st' where
    "finite_acquire 7 7 Admitted (\<lambda>_. 4) sample_provider = (st', Done (Inr 1))"
    using finite_acquire_cases [OF sample_provider_ok sid, of Admitted "\<lambda>_. 4"] nid
    by (auto simp: word_unat_eq_iff)
  then show ?thesis
    by (simp add: port_acquire_def validate_scope_def sample_port_eq bmap_contains_def bmap_get_Cons
        finite_provider_def)
qed

theorem port_books_balance_witness:
  "\<exists>pt. port_reach finite_provider sample_port pt \<and>
     unat (in_use (pt_provider pt) QueuedBytes) =
       4 + unat (retained_after_failed_cleanup (pt_provider pt) QueuedBytes) \<and>
     poisoned (pt_provider pt) = None"
proof -
  obtain pt where run: "port_acquire finite_provider 7 Admitted (\<lambda>_. 4) sample_port = (pt, Done (Inr 1))"
    and leases: "pt_leases pt = [(1, \<lparr>res_scope = 7, res_authority = Admitted, res_claim = (\<lambda>_. 4)\<rparr>)]"
    using sample_port_acquire by blast
  have alive: "pt_alive sample_port" by (simp add: sample_port_eq)
  have reach: "port_reach finite_provider sample_port pt"
    by (rule reach_step [OF reach_refl step_acquire [OF alive run]])
  from port_books_balance [OF sample_port_new this] reach leases show ?thesis
    by (intro exI [of _ pt]) (simp add: record_charge_def)
qed

text \<open>
  C2: Nothing leaks. Once the port is dropped, no lease is live and no client holds a scope handle,
  the provider has no scope and no reservation left, and the only charge in use is the one that
  failed cleanups have handed to the provider.
\<close>

theorem port_drains:
  assumes "port_new finite_provider ident (provider_new g) = (pt0, Done (Inr ()))"
    and "port_reach finite_provider pt0 pt"
    and "\<not> pt_alive pt" "pt_leases pt = []"
    and "\<And>sid sc. bmap_get (pt_heap pt) sid = Some sc \<Longrightarrow> sc_handles sc = 0"
  shows "reservations (pt_provider pt) = [] \<and> scopes (pt_provider pt) = [] \<and>
    in_use (pt_provider pt) = retained_after_failed_cleanup (pt_provider pt)"
proof -
  note inv = reach_finite(1) [OF assms(1,2)]
  have ok: "provider_ok (pt_authority pt) (pt_provider pt)"
    using inv by (simp add: port_inv_def linked_def)
  have "pt_heap pt = []" using fin.empty_heap [OF inv assms(3,4)] assms(5) by blast
  then have "reservations (pt_provider pt) = []" "scopes (pt_provider pt) = []"
    using port_inv_leases [OF inv] port_inv_scopes [OF inv] assms(4) by simp_all
  then show ?thesis
    using provider_ok_accounted [OF ok]
    by (simp add: accounted_def fun_eq_iff word_unat_eq_iff)
qed

lemma sample_port_dropped:
  "drop_port finite_provider sample_port =
   \<lparr>pt_provider = sample_provider\<lparr>scopes := [], in_use := zero_claim\<rparr>, pt_authority = 7,
    pt_known_scopes = [7], pt_process_scope = 7, pt_alive = False, pt_heap = [], pt_leases = []\<rparr>"
proof -
  have "claim_checked_sub bookkeeping_claim bookkeeping_claim = Inr zero_claim"
    by (simp add: claim_checked_sub_Inr_iff zero_claim_def)
  then show ?thesis
    by (simp add: drop_port_def collect.simps [of _ 7] sample_port_eq bmap_get_Cons scope_refs_def
        drop_scope_inner_def Let_def finite_provider_def finite_release_scope_def sample_provider_def
        provider_new_def lock_state_def require_provider_authority_def bset_remove_def
        bmap_remove_def)
qed

theorem port_drains_witness:
  "in_use (pt_provider (drop_port finite_provider sample_port)) = zero_claim \<and>
   scopes (pt_provider (drop_port finite_provider sample_port)) = []"
proof -
  have reach: "port_reach finite_provider sample_port (drop_port finite_provider sample_port)"
    by (rule reach_step [OF reach_refl step_drop_port]) (simp add: sample_port_eq)
  from port_drains [OF sample_port_new this] show ?thesis
    by (simp add: sample_port_dropped sample_provider_def provider_new_def)
qed

text \<open>
  C8: A refused first scope still binds the provider. When the grant has no room for the process
  scope's record, creating a port is refused with pressure, yet the provider stays bound to the
  authority of the port that never came to be, and every later port is refused as an invariant
  failure, whatever its identity.
\<close>

theorem refused_port_binds_authority:
  assumes "g OpaqueDependencyResidual = 0" "ident' \<noteq> ident"
  shows "\<exists>pt p. port_new finite_provider ident (provider_new g) = (pt, Done (Inl (Pressure p))) \<and>
    pt_provider pt \<noteq> provider_new g \<and>
    snd (port_new finite_provider ident' (pt_provider pt)) =
      Done (Inl (ProviderInvariant OpaqueDependencyResidual))"
proof -
  have "finite_create_scope ident' ident' None ((provider_new g)\<lparr>provider_authority := Some ident\<rparr>) =
    refuse ((provider_new g)\<lparr>provider_authority := Some ident\<rparr>)
      (ProviderInvariant OpaqueDependencyResidual)"
    using assms(2)
    by (simp add: finite_create_scope_def provider_new_def lock_state_def check_poisoned_def
        bind_provider_authority_def)
  then show ?thesis
    using assms(1)
    by (simp add: port_new_def finite_provider_def finite_create_scope_new refuse_def Let_def
        pressure_error_def) (simp add: provider_new_def)
qed

theorem refused_port_binds_authority_witness:
  "\<exists>pt p. port_new finite_provider 7 (provider_new zero_claim) = (pt, Done (Inl (Pressure p))) \<and>
    snd (port_new finite_provider 8 (pt_provider pt)) =
      Done (Inl (ProviderInvariant OpaqueDependencyResidual))"
  using refused_port_binds_authority [of zero_claim 8 7] by (auto simp: zero_claim_def)

end
