(* ===== verification/Device_Ids.thy ===== *)
theory Device_Ids
  imports Mesh_Prelude
begin

text \<open>
  Device identifiers as strings (\<open>signing.rs\<close>): \<open>pubkey_part\<close>, which drops the display suffix of
  an identifier, and the facts the topology theories use of it. A string is the list of its bytes;
  the order on strings is the bytewise lexicographic order of Rust's \<open>str\<close>.
\<close>

definition rsplit_once :: "char \<Rightarrow> string \<Rightarrow> (string \<times> string) option" where
  "rsplit_once c s =
     (if c \<in> set s
      then Some (rev (tl (dropWhile (\<lambda>x. x \<noteq> c) (rev s))), rev (takeWhile (\<lambda>x. x \<noteq> c) (rev s)))
      else None)"

definition is_ascii_alphanumeric :: "char \<Rightarrow> bool" where
  "is_ascii_alphanumeric c =
     (let n = (of_char c :: nat) in
      48 \<le> n \<and> n \<le> 57 \<or> 65 \<le> n \<and> n \<le> 90 \<or> 97 \<le> n \<and> n \<le> 122)"

definition pubkey_part :: "string \<Rightarrow> string" where
  "pubkey_part device_id =
     (case rsplit_once CHR ''-'' device_id of
        Some (body, suffix) \<Rightarrow>
          if length suffix = 5 \<and> list_all is_ascii_alphanumeric suffix then body else device_id
      | None \<Rightarrow> device_id)"

lemma rsplit_once_append:
  "c \<notin> set suffix \<Longrightarrow> rsplit_once c (body @ c # suffix) = Some (body, suffix)"
  by (simp add: rsplit_once_def dropWhile_append takeWhile_append)

lemma rsplit_once_join: "rsplit_once c s = Some (body, suffix) \<Longrightarrow> s = body @ c # suffix"
proof -
  assume "rsplit_once c s = Some (body, suffix)"
  then have c: "c \<in> set s" and body: "body = rev (tl (dropWhile (\<lambda>x. x \<noteq> c) (rev s)))"
    and suffix: "suffix = rev (takeWhile (\<lambda>x. x \<noteq> c) (rev s))"
    by (auto simp: rsplit_once_def split: if_splits)
  have "dropWhile (\<lambda>x. x \<noteq> c) (rev s) \<noteq> []" using c by (simp add: dropWhile_eq_Nil_conv)
  then have "c # tl (dropWhile (\<lambda>x. x \<noteq> c) (rev s)) = dropWhile (\<lambda>x. x \<noteq> c) (rev s)"
    using hd_dropWhile [of "\<lambda>x. x \<noteq> c" "rev s"] by (metis list.collapse)
  then have "rev s = takeWhile (\<lambda>x. x \<noteq> c) (rev s) @ c # tl (dropWhile (\<lambda>x. x \<noteq> c) (rev s))"
    by (metis takeWhile_dropWhile_id)
  then have "s = rev (takeWhile (\<lambda>x. x \<noteq> c) (rev s) @ c # tl (dropWhile (\<lambda>x. x \<noteq> c) (rev s)))"
    by (metis rev_rev_ident)
  then show ?thesis by (simp add: body suffix)
qed

lemma dash_not_alphanumeric: "\<not> is_ascii_alphanumeric CHR ''-''"
  by (simp add: is_ascii_alphanumeric_def)

text \<open>A canonical key carries no dash; \<open>pubkey_part\<close> leaves it alone and strips any display form of it.\<close>

definition canonical_key :: "string \<Rightarrow> bool" where
  "canonical_key k \<longleftrightarrow> CHR ''-'' \<notin> set k"

lemma pubkey_part_canonical [simp]: "canonical_key k \<Longrightarrow> pubkey_part k = k"
  by (simp add: canonical_key_def pubkey_part_def rsplit_once_def)

lemma pubkey_part_display:
  assumes "length suffix = 5" "list_all is_ascii_alphanumeric suffix"
  shows "pubkey_part (k @ CHR ''-'' # suffix) = k"
proof -
  have "CHR ''-'' \<notin> set suffix"
    using assms(2) dash_not_alphanumeric by (auto simp: list_all_iff)
  then show ?thesis using assms by (simp add: pubkey_part_def rsplit_once_append)
qed

lemma pubkey_part_cases:
  obtains "pubkey_part s = s"
  | suffix where "s = pubkey_part s @ CHR ''-'' # suffix" "length suffix = 5"
      "list_all is_ascii_alphanumeric suffix"
proof (cases "rsplit_once CHR ''-'' s")
  case None
  then show ?thesis using that(1) by (simp add: pubkey_part_def)
next
  case (Some p)
  obtain body suffix where p: "p = (body, suffix)" by fastforce
  show ?thesis
  proof (cases "length suffix = 5 \<and> list_all is_ascii_alphanumeric suffix")
    case True
    then have "pubkey_part s = body" using Some p by (simp add: pubkey_part_def)
    then show ?thesis using that(2) [of suffix] True rsplit_once_join Some p by blast
  next
    case False
    then have "pubkey_part s = s" using Some p by (auto simp: pubkey_part_def)
    then show ?thesis by (rule that(1))
  qed
qed

end
