(* ===== verification/Ranked_Selection.thy ===== *)
theory Ranked_Selection
  imports Device_Ids
begin

text \<open>
  Bounded ranked selection, the loop that the hub, tree and ring selectors of \<open>topology/\<close> share:
  scan candidates once, keep only the best \<open>limit\<close> of them in rank order. The specification
  \<open>top_spec\<close> says what the loop computes; it is independent of the order of the scan and of
  repeated candidates, and it has one solution. \<open>retain_ranked\<close> is one turn of the loop.
\<close>

definition retain_ranked :: "('c \<Rightarrow> 'c \<Rightarrow> bool) \<Rightarrow> nat \<Rightarrow> 'c \<Rightarrow> 'c list \<Rightarrow> 'c list" where
  "retain_ranked lt limit candidate ranked =
     (if limit = 0 \<or> (length ranked = limit \<and> \<not> lt candidate (last ranked)) then ranked
      else
        let position = length (takeWhile (\<lambda>current. lt current candidate) ranked);
            kept = (if length ranked = limit then butlast ranked else ranked)
        in take position kept @ candidate # drop position kept)"

definition rank_insert :: "('c \<Rightarrow> 'c \<Rightarrow> bool) \<Rightarrow> 'c \<Rightarrow> 'c list \<Rightarrow> 'c list" where
  "rank_insert lt x ys =
     takeWhile (\<lambda>y. lt y x) ys @ x # dropWhile (\<lambda>y. lt y x) ys"

definition rank_sort :: "('c \<Rightarrow> 'c \<Rightarrow> bool) \<Rightarrow> 'c list \<Rightarrow> 'c list" where
  "rank_sort lt xs = foldr (rank_insert lt) xs []"

fun update_first :: "('c \<Rightarrow> bool) \<Rightarrow> ('c \<Rightarrow> 'c) \<Rightarrow> 'c list \<Rightarrow> 'c list" where
  "update_first p f [] = []"
| "update_first p f (x # xs) = (if p x then f x # xs else x # update_first p f xs)"

definition spelling :: "string \<Rightarrow> string list \<Rightarrow> string" where
  "spelling key connected = Min (set (filter (\<lambda>peer. pubkey_part peer = key) connected))"

definition reference_hops ::
    "(string \<Rightarrow> string \<Rightarrow> bool) \<Rightarrow> (string \<Rightarrow> bool) \<Rightarrow> nat \<Rightarrow> string list \<Rightarrow> string list" where
  "reference_hops lt eligible limit connected =
     map (\<lambda>key. spelling key connected)
       (take limit (rank_sort lt (remdups (filter eligible (map pubkey_part connected)))))"

definition top_spec :: "('c \<Rightarrow> 'c \<Rightarrow> bool) \<Rightarrow> nat \<Rightarrow> 'c set \<Rightarrow> 'c list \<Rightarrow> bool" where
  "top_spec lt limit S xs \<longleftrightarrow>
     sorted_wrt lt xs \<and> set xs \<subseteq> S \<and> length xs = min limit (card S) \<and>
     (\<forall>x \<in> set xs. \<forall>y \<in> S - set xs. lt x y)"

lemma set_rank_insert [simp]: "set (rank_insert lt x ys) = insert x (set ys)"
  by (auto simp: rank_insert_def dest: set_takeWhileD set_dropWhileD)
     (metis UnE in_set_conv_decomp set_append takeWhile_dropWhile_id)

lemma length_rank_insert [simp]: "length (rank_insert lt x ys) = Suc (length ys)"
  by (simp add: rank_insert_def) (metis length_append takeWhile_dropWhile_id)

lemma set_rank_sort [simp]: "set (rank_sort lt xs) = set xs"
  by (induction xs) (simp_all add: rank_sort_def)

lemma length_rank_sort [simp]: "length (rank_sort lt xs) = length xs"
  by (induction xs) (simp_all add: rank_sort_def)

lemma set_retain_ranked: "set (retain_ranked lt limit c xs) \<subseteq> insert c (set xs)"
  by (auto simp: retain_ranked_def Let_def split: if_splits
      dest!: in_set_takeD in_set_dropD in_set_butlastD)

lemma retain_ranked_cong:
  assumes "\<And>x. x \<in> set xs \<Longrightarrow> lt x c = lt' x c" "\<And>x. x \<in> set xs \<Longrightarrow> lt c x = lt' c x"
  shows "retain_ranked lt limit c xs = retain_ranked lt' limit c xs"
proof -
  have "takeWhile (\<lambda>x. lt x c) xs = takeWhile (\<lambda>x. lt' x c) xs"
    using assms(1) by (intro takeWhile_cong) auto
  moreover have "length xs = limit \<Longrightarrow> limit \<noteq> 0 \<Longrightarrow> lt c (last xs) = lt' c (last xs)"
    using assms(2) [of "last xs"] by (cases xs) auto
  ultimately show ?thesis by (auto simp: retain_ranked_def)
qed

lemma update_first_map:
  "distinct (map k xs) \<Longrightarrow> update_first (\<lambda>x. k x = a) f xs = map (\<lambda>x. if k x = a then f x else x) xs"
proof (induction xs)
  case (Cons x xs)
  have "map (\<lambda>x. if k x = a then f x else x) xs = xs" if "k x = a"
  proof (rule map_idI)
    fix y assume "y \<in> set xs"
    then have "k y \<noteq> a" using Cons.prems that by (metis distinct.simps(2) image_eqI list.set_map list.simps(9))
    then show "(if k y = a then f y else y) = y" by simp
  qed
  then show ?case using Cons by simp
qed simp

lemma spelling_in:
  assumes "key \<in> pubkey_part ` set connected"
  shows "spelling key connected \<in> set connected" "pubkey_part (spelling key connected) = key"
proof -
  let ?S = "set (filter (\<lambda>peer. pubkey_part peer = key) connected)"
  have "?S \<noteq> {}" using assms by auto
  then have "Min ?S \<in> ?S" by (intro Min_in) auto
  then show "spelling key connected \<in> set connected" "pubkey_part (spelling key connected) = key"
    by (auto simp: spelling_def)
qed

lemma spelling_snoc:
  "spelling key (seen @ [peer]) =
     (if pubkey_part peer = key
      then (if key \<in> pubkey_part ` set seen then min peer (spelling key seen) else peer)
      else spelling key seen)"
proof (cases "pubkey_part peer = key")
  case True
  let ?S = "set (filter (\<lambda>p. pubkey_part p = key) seen)"
  have "spelling key (seen @ [peer]) = Min (insert peer ?S)"
    using True by (simp add: spelling_def)
  moreover have "?S = {} \<longleftrightarrow> key \<notin> pubkey_part ` set seen" by auto
  ultimately show ?thesis
    using True by (cases "?S = {}") (simp_all add: spelling_def del: set_filter)
qed (simp add: spelling_def)

lemma reference_hops_bound: "length (reference_hops lt eligible limit connected) \<le> limit"
  by (simp add: reference_hops_def)

lemma reference_keys_sub:
  "set (take limit (rank_sort lt (remdups (filter eligible (map pubkey_part connected))))) \<subseteq>
   {key \<in> pubkey_part ` set connected. eligible key}"
proof
  fix x
  assume "x \<in> set (take limit (rank_sort lt (remdups (filter eligible (map pubkey_part connected)))))"
  then have "x \<in> set (rank_sort lt (remdups (filter eligible (map pubkey_part connected))))"
    by (rule in_set_takeD)
  then show "x \<in> {key \<in> pubkey_part ` set connected. eligible key}" by auto
qed

lemma reference_hops_connected: "set (reference_hops lt eligible limit connected) \<subseteq> set connected"
  using reference_keys_sub [of limit lt eligible connected]
  by (auto simp: reference_hops_def intro!: spelling_in(1))

lemma map_pubkey_reference_hops:
  "map pubkey_part (reference_hops lt eligible limit connected) =
   take limit (rank_sort lt (remdups (filter eligible (map pubkey_part connected))))"
  using reference_keys_sub [of limit lt eligible connected]
  by (auto simp: reference_hops_def comp_def spelling_in(2) intro!: map_idI)

lemma retain_ranked_map:
  "map f (retain_ranked (\<lambda>x y. lt (f x) (f y)) limit c xs) =
   retain_ranked lt limit (f c) (map f xs)"
  by (cases "xs = []")
     (simp_all add: retain_ranked_def Let_def takeWhile_map comp_def take_map drop_map last_map
       flip: map_butlast)

text \<open>A strict total ranking.\<close>

locale strict_ranking =
  fixes lt :: "'c \<Rightarrow> 'c \<Rightarrow> bool"
  assumes irrefl: "\<not> lt x x"
    and trans: "\<lbrakk>lt x y; lt y z\<rbrakk> \<Longrightarrow> lt x z"
    and total: "x \<noteq> y \<Longrightarrow> lt x y \<or> lt y x"
begin

lemma asym: "lt x y \<Longrightarrow> \<not> lt y x"
  using irrefl trans by blast

lemma sorted_distinct: "sorted_wrt lt xs \<Longrightarrow> distinct xs"
  using irrefl by (induction xs) auto

lemma sorted_unique:
  "\<lbrakk>sorted_wrt lt xs; sorted_wrt lt ys; set xs = set ys\<rbrakk> \<Longrightarrow> xs = ys"
proof (induction xs arbitrary: ys)
  case (Cons x xs)
  then obtain y ys' where ys: "ys = y # ys'" by (cases ys) auto
  have "x = y"
  proof (rule ccontr)
    assume "x \<noteq> y"
    then have "x \<in> set ys'" "y \<in> set xs" using Cons.prems(3) ys by auto
    then show False using Cons.prems ys asym by auto
  qed
  moreover have "set xs = set ys'"
    using Cons.prems sorted_distinct [OF Cons.prems(1)] sorted_distinct [OF Cons.prems(2)] ys
      \<open>x = y\<close> by auto
  ultimately show ?case using Cons ys by auto
qed simp

lemma top_unique:
  assumes "finite S" "top_spec lt limit S xs" "top_spec lt limit S ys"
  shows "xs = ys"
proof -
  have card: "card (set xs) = card (set ys)"
    using assms(2,3) sorted_distinct by (simp add: top_spec_def distinct_card)
  have "set xs \<subseteq> set ys"
  proof
    fix x assume x: "x \<in> set xs"
    show "x \<in> set ys"
    proof (rule ccontr)
      assume nx: "x \<notin> set ys"
      have "\<not> set ys \<subseteq> set xs"
        using card x nx by (metis List.finite_set card_subset_eq)
      then obtain y where y: "y \<in> set ys" "y \<notin> set xs" by blast
      have "lt x y" using assms(2,3) x y unfolding top_spec_def by blast
      moreover have "lt y x" using assms(2,3) x nx y unfolding top_spec_def by blast
      ultimately show False using asym by blast
    qed
  qed
  then have "set xs = set ys" using card by (simp add: card_subset_eq)
  then show ?thesis using sorted_unique assms(2,3) by (simp add: top_spec_def)
qed

lemma top_Nil: "top_spec lt limit {} []"
  by (simp add: top_spec_def)

lemma sorted_rank_insert:
  assumes "sorted_wrt lt xs" "x \<notin> set xs"
  shows "sorted_wrt lt (rank_insert lt x xs)"
  using assms
proof (induction xs)
  case (Cons y ys)
  show ?case
  proof (cases "lt y x")
    case True
    have "set (rank_insert lt x ys) = insert x (set ys)" by simp
    then show ?thesis
      using Cons True by (simp add: rank_insert_def)
  next
    case False
    then have "lt x y" using Cons.prems total by auto
    then show ?thesis using Cons.prems False trans by (auto simp: rank_insert_def)
  qed
qed (simp add: rank_insert_def)

lemma sorted_rank_sort: "distinct xs \<Longrightarrow> sorted_wrt lt (rank_sort lt xs)"
proof (induction xs)
  case (Cons x xs)
  have "set (foldr (rank_insert lt) xs []) = set xs"
    using set_rank_sort [of lt xs] by (simp add: rank_sort_def)
  then show ?case using Cons by (simp add: rank_sort_def sorted_rank_insert)
qed (simp add: rank_sort_def)

lemma less_last: "\<lbrakk>sorted_wrt lt xs; x \<in> set xs; x \<noteq> last xs\<rbrakk> \<Longrightarrow> lt x (last xs)"
  by (induction xs) (auto split: if_splits)

lemma retain_full:
  assumes "sorted_wrt lt xs" "xs \<noteq> []" "lt c (last xs)" "c \<notin> set xs"
  shows "retain_ranked lt (length xs) c xs = rank_insert lt c (butlast xs)"
proof -
  have xs: "xs = butlast xs @ [last xs]" using assms(2) by simp
  have "\<not> lt (last xs) c" using assms(3) asym by blast
  then have tw: "takeWhile (\<lambda>y. lt y c) xs = takeWhile (\<lambda>y. lt y c) (butlast xs)"
    by (subst xs) (simp add: takeWhile_append, metis takeWhile_eq_all_conv)
  have "take (length (takeWhile (\<lambda>y. lt y c) (butlast xs))) (butlast xs) =
      takeWhile (\<lambda>y. lt y c) (butlast xs)"
    by (simp flip: takeWhile_eq_take)
  then show ?thesis
    using assms(2,3) by (simp add: retain_ranked_def Let_def rank_insert_def tw dropWhile_eq_drop)
qed

lemma retain_spare:
  "\<lbrakk>length xs \<noteq> limit; limit \<noteq> 0\<rbrakk> \<Longrightarrow> retain_ranked lt limit c xs = rank_insert lt c xs"
  by (simp add: retain_ranked_def Let_def rank_insert_def dropWhile_eq_drop)
     (metis takeWhile_eq_take)

lemma retain_top:
  assumes fin: "finite S" and top: "top_spec lt limit S xs" and c: "c \<notin> set xs"
  shows "top_spec lt limit (insert c S) (retain_ranked lt limit c xs)"
proof -
  have sorted: "sorted_wrt lt xs" and sub: "set xs \<subseteq> S" and len: "length xs = min limit (card S)"
    and above: "\<And>x y. \<lbrakk>x \<in> set xs; y \<in> S; y \<notin> set xs\<rbrakk> \<Longrightarrow> lt x y"
    using top by (auto simp: top_spec_def)
  have dist: "distinct xs" using sorted_distinct [OF sorted] .
  consider "limit = 0" | "limit \<noteq> 0" "length xs = limit" "\<not> lt c (last xs)"
    | "limit \<noteq> 0" "length xs = limit" "lt c (last xs)" | "limit \<noteq> 0" "length xs \<noteq> limit"
    by blast
  then show ?thesis
  proof cases
    case 1
    then show ?thesis using len by (simp add: top_spec_def retain_ranked_def)
  next
    case 2
    then have "lt (last xs) c" using c total by (metis last_in_set list.size(3))
    then have "lt x c" if "x \<in> set xs" for x
      using that less_last [OF sorted that] trans by blast
    moreover have "limit \<le> card (insert c S)"
      using 2 len fin by (auto simp: card_insert_if)
    ultimately show ?thesis
      using 2 sorted sub above by (auto simp: top_spec_def retain_ranked_def)
  next
    case 3
    then have ne: "xs \<noteq> []" by auto
    then have xs: "xs = butlast xs @ [last xs]" by simp
    have "c \<notin> S" using above [of "last xs" c] c asym 3 ne by auto
    then have card: "limit \<le> card (insert c S)" using 3 len fin by simp
    have eq: "retain_ranked lt limit c xs = rank_insert lt c (butlast xs)"
      using retain_full [OF sorted ne 3(3) c] 3 by simp
    have nl: "last xs \<notin> set (butlast xs)" using dist xs by (metis distinct_append not_distinct_conv_prefix)
    have "c \<notin> set (butlast xs)" using c in_set_butlastD by fast
    then have "sorted_wrt lt (rank_insert lt c (butlast xs))"
      using sorted xs by (intro sorted_rank_insert) (metis sorted_wrt_append)+
    moreover have low: "lt x (last xs)" if "x \<in> insert c (set (butlast xs))" for x
      using that 3 nl less_last [OF sorted] in_set_butlastD by fastforce
    moreover have "lt x y" if "x \<in> insert c (set (butlast xs))" "y \<in> S" "y \<notin> set (butlast xs)" for x y
    proof (cases "y = last xs")
      case False
      then have "y \<notin> set xs" using that(3) xs by (metis UnE empty_iff insert_iff list.set set_append)
      then have "lt (last xs) y" using above ne that(2) by simp
      then show ?thesis using low [OF that(1)] trans by blast
    qed (use low that in simp)
    moreover have "Suc (length (butlast xs)) = limit" using 3 by simp
    ultimately show ?thesis
      using sub card by (auto simp: top_spec_def eq dest: in_set_butlastD)
  next
    case 4
    then have "card (set xs) = card S" using len dist by (simp add: distinct_card)
    then have S: "set xs = S" using sub fin by (simp add: card_subset_eq)
    have "retain_ranked lt limit c xs = rank_insert lt c xs" using retain_spare 4 by simp
    then show ?thesis
      using sorted_rank_insert [OF sorted c] c S 4 len fin by (auto simp: top_spec_def)
  qed
qed

lemma top_of_sort:
  assumes "distinct ys"
  shows "top_spec lt limit (set ys) (take limit (rank_sort lt ys))"
proof -
  have sorted: "sorted_wrt lt (rank_sort lt ys)" using sorted_rank_sort [OF assms] .
  have split: "sorted_wrt lt (take limit (rank_sort lt ys) @ drop limit (rank_sort lt ys))"
    using sorted by simp
  have "y \<in> set (drop limit (rank_sort lt ys))"
    if "y \<in> set ys" "y \<notin> set (take limit (rank_sort lt ys))" for y
    using that by (metis UnE append_take_drop_id set_append set_rank_sort)
  moreover have "set (take limit (rank_sort lt ys)) \<subseteq> set ys"
    using set_take_subset [of limit "rank_sort lt ys"] by simp
  ultimately show ?thesis
    using split assms unfolding top_spec_def sorted_wrt_append
    by (auto simp: distinct_card min.commute)
qed

lemma top_is_sorted_prefix:
  "\<lbrakk>distinct ys; top_spec lt limit (set ys) xs\<rbrakk> \<Longrightarrow> xs = take limit (rank_sort lt ys)"
  using top_unique [of "set ys"] top_of_sort by blast

lemma retain_seen:
  assumes "finite S" "top_spec lt limit S xs" "c \<in> S" "c \<notin> set xs"
  shows "retain_ranked lt limit c xs = xs"
proof -
  have "top_spec lt limit S (retain_ranked lt limit c xs)"
    using retain_top [OF assms(1,2,4)] assms(3) by (simp add: insert_absorb)
  then show ?thesis using top_unique [OF assms(1)] assms(2) by blast
qed

text \<open>The same turn on an unsorted buffer: append while there is room, else replace the worst.\<close>

lemma top_append:
  assumes "finite S" "distinct xs" "top_spec lt limit S (rank_sort lt xs)" "length xs < limit" "c \<notin> set xs"
  shows "top_spec lt limit (insert c S) (rank_sort lt (xs @ [c]))" and "c \<notin> S"
proof -
  have "retain_ranked lt limit c (rank_sort lt xs) = rank_insert lt c (rank_sort lt xs)"
    using assms(4) by (intro retain_spare) simp_all
  also have "\<dots> = rank_sort lt (xs @ [c])"
    using assms sorted_rank_insert [OF sorted_rank_sort] sorted_rank_sort [of "xs @ [c]"]
    by (intro sorted_unique) auto
  finally show "top_spec lt limit (insert c S) (rank_sort lt (xs @ [c]))"
    using retain_top [OF assms(1,3), of c] assms(5) by simp
  have "card (set xs) = card S" using assms(2,3,4) by (simp add: top_spec_def distinct_card)
  then have "set xs = S" using assms(1,3) by (intro card_subset_eq) (auto simp: top_spec_def)
  then show "c \<notin> S" using assms(5) by simp
qed

lemma last_rank_sort:
  assumes "distinct xs" "w < length xs" "\<And>k. \<lbrakk>k < length xs; k \<noteq> w\<rbrakk> \<Longrightarrow> lt (xs ! k) (xs ! w)"
  shows "last (rank_sort lt xs) = xs ! w"
proof (rule ccontr)
  assume ne: "last (rank_sort lt xs) \<noteq> xs ! w"
  have "rank_sort lt xs \<noteq> []" using assms(2) by (metis length_rank_sort list.size(3) not_less_zero)
  then have "last (rank_sort lt xs) \<in> set xs" by (metis last_in_set set_rank_sort)
  then have "lt (last (rank_sort lt xs)) (xs ! w)" using ne assms(3) by (metis in_set_conv_nth)
  moreover have "lt (xs ! w) (last (rank_sort lt xs))"
    using less_last [OF sorted_rank_sort [OF assms(1)]] ne assms(2) by simp
  ultimately show False using asym by blast
qed

lemma top_replace:
  assumes "finite S" "distinct xs" "top_spec lt (length xs) S (rank_sort lt xs)" "w < length xs"
    and worst: "\<And>k. \<lbrakk>k < length xs; k \<noteq> w\<rbrakk> \<Longrightarrow> lt (xs ! k) (xs ! w)" and c: "c \<notin> set xs"
  shows "lt c (xs ! w) \<Longrightarrow> top_spec lt (length xs) (insert c S) (rank_sort lt (xs[w := c])) \<and> c \<notin> S"
    and "\<not> lt c (xs ! w) \<Longrightarrow> top_spec lt (length xs) (insert c S) (rank_sort lt xs)"
proof -
  let ?s = "rank_sort lt xs"
  have sorted: "sorted_wrt lt ?s" using sorted_rank_sort [OF assms(2)] .
  have ne: "?s \<noteq> []" using assms(4) by (metis length_rank_sort list.size(3) not_less_zero)
  have last: "last ?s = xs ! w" using last_rank_sort [OF assms(2,4)] worst by blast
  note top = retain_top [OF assms(1,3), of c]
  show "top_spec lt (length xs) (insert c S) ?s" if "\<not> lt c (xs ! w)"
    using top c that last by (simp add: retain_ranked_def)
  assume lt: "lt c (xs ! w)"
  have split: "?s = butlast ?s @ [xs ! w]" using ne last by (metis append_butlast_last_id)
  have "distinct (butlast ?s @ [xs ! w])" using sorted_distinct [OF sorted] split by metis
  then have "set (butlast ?s) = set xs - {xs ! w}"
    using arg_cong [OF split, of set] by auto
  moreover have "set (xs[w := c]) = insert c (set xs - {xs ! w})"
    using assms(2,4) by (rule set_update_distinct)
  moreover have "distinct (xs[w := c])" using assms(2) c by (simp add: distinct_list_update)
  moreover have "sorted_wrt lt (butlast ?s)" using sorted split by (metis sorted_wrt_append)
  moreover have "c \<notin> set (butlast ?s)" using c in_set_butlastD by fastforce
  ultimately have "rank_insert lt c (butlast ?s) = rank_sort lt (xs[w := c])"
    using sorted_rank_sort sorted_rank_insert by (intro sorted_unique) auto
  moreover have "retain_ranked lt (length xs) c ?s = rank_insert lt c (butlast ?s)"
    using retain_full [OF sorted ne] lt last c by simp
  moreover have "c \<notin> S"
    using assms(3,4) lt c asym unfolding top_spec_def by (metis DiffI nth_mem set_rank_sort)
  ultimately show "top_spec lt (length xs) (insert c S) (rank_sort lt (xs[w := c])) \<and> c \<notin> S"
    using top c by simp
qed

definition least_of :: "'c set \<Rightarrow> 'c \<Rightarrow> bool" where
  "least_of S k \<longleftrightarrow> k \<in> S \<and> (\<forall>y \<in> S. y \<noteq> k \<longrightarrow> lt k y)"

lemma least_of_insert: "least_of S k \<Longrightarrow> least_of (insert c S) (if lt c k then c else k)"
proof (cases "lt c k")
  case True
  assume "least_of S k"
  then have "lt c y" if "y \<in> S" for y using True that trans unfolding least_of_def by metis
  then show ?thesis using True by (auto simp: least_of_def)
next
  case False
  assume "least_of S k"
  then show ?thesis using False total [of c k] by (auto simp: least_of_def)
qed

lemma least_of_single: "least_of {c} c"
  by (simp add: least_of_def)

lemma least_of_unique: "\<lbrakk>least_of S a; least_of S b\<rbrakk> \<Longrightarrow> a = b"
  unfolding least_of_def by (metis asym)

lemma sorted_least:
  assumes "sorted_wrt lt xs" "xs \<noteq> []"
  shows "least_of (set xs) (xs ! 0)"
  using assms by (cases xs) (auto simp: least_of_def)

lemma sorted_above:
  assumes "sorted_wrt lt xs" "i < length xs"
  shows "{y \<in> set xs. lt (xs ! i) y} = set (drop (Suc i) xs)"
proof -
  have xs: "xs = take i xs @ xs ! i # drop (Suc i) xs"
    using assms(2) by (simp add: id_take_nth_drop)
  have split: "sorted_wrt lt (take i xs @ xs ! i # drop (Suc i) xs)" using xs assms(1) by simp
  have "set xs = set (take i xs) \<union> {xs ! i} \<union> set (drop (Suc i) xs)"
    using arg_cong [OF xs, of set] by simp
  moreover have "\<not> lt (xs ! i) y" if "y \<in> set (take i xs)" for y
    using split that asym unfolding sorted_wrt_append by simp
  ultimately show ?thesis
    using split irrefl unfolding sorted_wrt_append by auto
qed

lemma sorted_next:
  assumes "sorted_wrt lt xs" "i < length xs"
  shows "Suc i < length xs \<Longrightarrow> least_of {y \<in> set xs. lt (xs ! i) y} (xs ! Suc i)"
    and "Suc i = length xs \<Longrightarrow> {y \<in> set xs. lt (xs ! i) y} = {}"
  using sorted_above [OF assms] sorted_least [of "drop (Suc i) xs"] sorted_wrt_drop [OF assms(1)]
  by simp_all

lemma top_mem_iff:
  assumes fin: "finite S" and top: "top_spec lt limit S xs"
  shows "x \<in> set xs \<longleftrightarrow> x \<in> S \<and> card {y \<in> S. lt y x} < limit"
proof -
  have card: "card (set xs) = length xs"
    using top unfolding top_spec_def by (intro distinct_card sorted_distinct) blast
  have len: "length xs = min limit (card S)" and sub: "set xs \<subseteq> S"
    using top by (simp_all add: top_spec_def)
  have "card {y \<in> S. lt y x} < limit" if x: "x \<in> set xs"
  proof -
    have "y \<in> set xs - {x}" if "y \<in> S" "lt y x" for y
      using that x top asym irrefl unfolding top_spec_def by blast
    then have "card {y \<in> S. lt y x} \<le> card (set xs - {x})" by (intro card_mono) auto
    also have "\<dots> < card (set xs)" using x by (intro psubset_card_mono) auto
    finally show ?thesis using card len by simp
  qed
  moreover have "limit \<le> card {y \<in> S. lt y x}" if x: "x \<in> S" "x \<notin> set xs"
  proof -
    have "set xs \<subseteq> {y \<in> S. lt y x}" using top x unfolding top_spec_def by blast
    then have "card (set xs) \<le> card {y \<in> S. lt y x}" using fin by (intro card_mono) auto
    moreover have "card (set xs) < card S" using fin sub x by (intro psubset_card_mono) auto
    ultimately show ?thesis using card len by simp
  qed
  ultimately show ?thesis using sub by (meson not_le subsetD)
qed

lemma top_remove_unranked:
  assumes "finite S" "top_spec lt limit S xs" "c \<notin> set xs"
  shows "top_spec lt limit (S - {c}) xs"
proof (cases "c \<in> S")
  case True
  have "card (set xs) = length xs"
    using assms(2) by (intro distinct_card sorted_distinct) (simp add: top_spec_def)
  moreover have "card (set xs) < card S"
    using assms True by (intro psubset_card_mono) (auto simp: top_spec_def)
  ultimately have "length xs = limit" "limit \<le> card (S - {c})"
    using assms True by (auto simp: top_spec_def)
  then show ?thesis using assms by (auto simp: top_spec_def)
qed (use assms in simp)

lemma retain_top_by:
  assumes "finite S" "top_spec lt limit S (map k xs)" "k c \<notin> k ` set xs"
    and "\<And>x. x \<in> set xs \<Longrightarrow> clt x c = lt (k x) (k c)" "\<And>x. x \<in> set xs \<Longrightarrow> clt c x = lt (k c) (k x)"
  shows "top_spec lt limit (insert (k c) S) (map k (retain_ranked clt limit c xs))"
    and "k c \<in> S \<Longrightarrow> retain_ranked clt limit c xs = xs"
proof -
  have eq: "retain_ranked clt limit c xs = retain_ranked (\<lambda>x y. lt (k x) (k y)) limit c xs"
    using assms(4,5) by (rule retain_ranked_cong)
  have m: "map k (retain_ranked clt limit c xs) = retain_ranked lt limit (k c) (map k xs)"
    unfolding eq by (rule retain_ranked_map)
  show "top_spec lt limit (insert (k c) S) (map k (retain_ranked clt limit c xs))"
    unfolding m using retain_top [OF assms(1,2)] assms(3) by simp
  assume "k c \<in> S"
  then have "map k (retain_ranked clt limit c xs) = map k xs"
    unfolding m using retain_seen [OF assms(1,2)] assms(3) by simp
  then have len: "length (retain_ranked clt limit c xs) = length xs" by (metis length_map)
  show "retain_ranked clt limit c xs = xs"
  proof (rule ccontr)
    assume ne: "retain_ranked clt limit c xs \<noteq> xs"
    then have "c \<in> set (retain_ranked clt limit c xs)"
      by (auto simp: retain_ranked_def Let_def split: if_splits)
    then have "k c \<in> k ` set xs"
      using \<open>map k (retain_ranked clt limit c xs) = map k xs\<close> by (metis image_eqI list.set_map)
    then show False using assms(3) by simp
  qed
qed

end

text \<open>Rankings of device keys, and the reference selection of next hops they give.\<close>

locale key_ranking = strict_ranking lt for lt :: "string \<Rightarrow> string \<Rightarrow> bool"
begin

lemma reference_hops_distinct:
  "distinct (map pubkey_part (reference_hops lt eligible limit connected))"
  using sorted_distinct [OF sorted_rank_sort, of "remdups (filter eligible (map pubkey_part connected))"]
  by (simp add: map_pubkey_reference_hops)

lemma reference_hops_eqI:
  assumes top: "top_spec lt limit {key \<in> pubkey_part ` set connected. eligible key} (map k cands)"
    and peers: "\<And>c. c \<in> set cands \<Longrightarrow> peer c = spelling (k c) connected"
  shows "map peer cands = reference_hops lt eligible limit connected"
proof -
  let ?ys = "remdups (filter eligible (map pubkey_part connected))"
  have S: "set ?ys = {key \<in> pubkey_part ` set connected. eligible key}" by auto
  have "map k cands = take limit (rank_sort lt ?ys)"
    using top_is_sorted_prefix [OF distinct_remdups] top S by metis
  then have "reference_hops lt eligible limit connected = map (\<lambda>key. spelling key connected) (map k cands)"
    by (simp add: reference_hops_def)
  then show ?thesis using peers by simp
qed

end

end
