(* ===== verification/Topology_Hubs.thy ===== *)
theory Topology_Hubs
  imports Ranked_Selection
begin

text \<open>
  The hub-tier selector (\<open>topology/hubs.rs\<close>): rendezvous ranking of the configured hubs for a
  spoke, the spoke's hubs, edges, preferred peers and next hops. SHA-256 comes from a dependency
  and is the parameter \<open>sha\<close>, any function on byte strings.

  The lemmas show that each bounded scan computes the specification \<open>top_spec\<close>: the ranked prefix
  is the best \<open>limit\<close> hubs whatever the order of the configuration, and next hops are the
  reference selection, whatever the order and repetition of the connected peers.
\<close>

definition string_bytes :: "string \<Rightarrow> byte list" where
  "string_bytes s = map of_char s"

definition u64_from_le_bytes :: "byte list \<Rightarrow> u64" where
  "u64_from_le_bytes bs = foldr (\<lambda>b acc. acc * 256 + ucast b) bs 0"

definition rendezvous_score :: "(byte list \<Rightarrow> byte list) \<Rightarrow> string \<Rightarrow> string \<Rightarrow> u64" where
  "rendezvous_score sha spoke hub =
     u64_from_le_bytes (take 8 (sha (string_bytes spoke @ string_bytes '':'' @ string_bytes hub)))"

record hubs_selector =
  hs_hubs :: "string list"
  hs_spoke_redundancy :: u32

record ranked_hub =
  rh_score :: u64
  rh_key :: string

record ranked_candidate =
  rc_direct :: bool
  rc_score :: u64
  rc_key :: string
  rc_peer :: string

definition redundancy_limit :: "hubs_selector \<Rightarrow> nat" where
  "redundancy_limit sel = unat (hs_spoke_redundancy sel)"

definition hubs_is_hub :: "hubs_selector \<Rightarrow> string \<Rightarrow> bool" where
  "hubs_is_hub sel device = list_ex (\<lambda>h. pubkey_part h = pubkey_part device) (hs_hubs sel)"

definition configured_hub_score ::
    "(byte list \<Rightarrow> byte list) \<Rightarrow> hubs_selector \<Rightarrow> string \<Rightarrow> string \<Rightarrow> u64 option" where
  "configured_hub_score sha sel spoke hub0 =
     (let hub = pubkey_part hub0 in
      if list_ex (\<lambda>configured. pubkey_part configured = hub) (hs_hubs sel)
      then Some (rendezvous_score sha spoke hub) else None)"

definition ranked_hub_lt :: "ranked_hub \<Rightarrow> ranked_hub \<Rightarrow> bool" where
  "ranked_hub_lt left right \<longleftrightarrow>
     rh_score right < rh_score left \<or>
     rh_score left = rh_score right \<and> rh_key left < rh_key right"

fun ranked_hubs_scan ::
    "(byte list \<Rightarrow> byte list) \<Rightarrow> string \<Rightarrow> nat \<Rightarrow> string list \<Rightarrow> ranked_hub list \<Rightarrow> ranked_hub list" where
  "ranked_hubs_scan sha spoke limit [] ranked = ranked"
| "ranked_hubs_scan sha spoke limit (configured # rest) ranked =
     (let hub = pubkey_part configured in
      if list_ex (\<lambda>previous. rh_key previous = hub) ranked
      then ranked_hubs_scan sha spoke limit rest ranked
      else ranked_hubs_scan sha spoke limit rest
             (retain_ranked ranked_hub_lt limit
                \<lparr>rh_score = rendezvous_score sha spoke hub, rh_key = hub\<rparr> ranked))"

definition ranked_hubs_prefix ::
    "(byte list \<Rightarrow> byte list) \<Rightarrow> hubs_selector \<Rightarrow> string \<Rightarrow> nat \<Rightarrow> ranked_hub list" where
  "ranked_hubs_prefix sha sel spoke limit =
     ranked_hubs_scan sha (pubkey_part spoke) limit (hs_hubs sel) []"

definition hubs_for :: "(byte list \<Rightarrow> byte list) \<Rightarrow> hubs_selector \<Rightarrow> string \<Rightarrow> string list" where
  "hubs_for sha sel spoke =
     map rh_key (ranked_hubs_prefix sha sel spoke (unat (max 1 (hs_spoke_redundancy sel))))"

definition spoke_selects_hub ::
    "(byte list \<Rightarrow> byte list) \<Rightarrow> hubs_selector \<Rightarrow> string \<Rightarrow> string \<Rightarrow> bool" where
  "spoke_selects_hub sha sel spoke hub =
     list_ex (\<lambda>candidate. rh_key candidate = pubkey_part hub)
       (ranked_hubs_prefix sha sel spoke (unat (max 1 (hs_spoke_redundancy sel))))"

definition route_candidate_lt :: "ranked_candidate \<Rightarrow> ranked_candidate \<Rightarrow> bool" where
  "route_candidate_lt left right \<longleftrightarrow>
     rc_direct left \<and> \<not> rc_direct right \<or>
     rc_direct left = rc_direct right \<and>
       (rc_score right < rc_score left \<or>
        rc_score left = rc_score right \<and> rc_key left < rc_key right)"

fun hubs_hop_scan ::
    "(byte list \<Rightarrow> byte list) \<Rightarrow> hubs_selector \<Rightarrow> string \<Rightarrow> string \<Rightarrow> bool \<Rightarrow> nat \<Rightarrow> string list \<Rightarrow>
     ranked_candidate list \<Rightarrow> ranked_candidate list" where
  "hubs_hop_scan sha sel source_key dest_key dest_is_hub target [] candidates = candidates"
| "hubs_hop_scan sha sel source_key dest_key dest_is_hub target (peer # rest) candidates =
     (let key = pubkey_part peer in
      if key = source_key
      then hubs_hop_scan sha sel source_key dest_key dest_is_hub target rest candidates
      else
        case configured_hub_score sha sel dest_key key of
          None \<Rightarrow> hubs_hop_scan sha sel source_key dest_key dest_is_hub target rest candidates
        | Some score \<Rightarrow>
            hubs_hop_scan sha sel source_key dest_key dest_is_hub target rest
              (if list_ex (\<lambda>item. rc_key item = key) candidates
               then update_first (\<lambda>item. rc_key item = key)
                      (\<lambda>item. if peer < rc_peer item then item\<lparr>rc_peer := peer\<rparr> else item) candidates
               else retain_ranked route_candidate_lt target
                      \<lparr>rc_direct = dest_is_hub \<and> key = dest_key, rc_score = score, rc_key = key,
                       rc_peer = peer\<rparr> candidates))"

definition hubs_next_hops ::
    "(byte list \<Rightarrow> byte list) \<Rightarrow> hubs_selector \<Rightarrow> string \<Rightarrow> string \<Rightarrow> string list \<Rightarrow> nat \<Rightarrow> string list" where
  "hubs_next_hops sha sel self_id dest connected limit =
     (let dest_key = pubkey_part dest; source_key = pubkey_part self_id;
          target = min limit (redundancy_limit sel) in
      if target = 0 then []
      else map rc_peer
             (hubs_hop_scan sha sel source_key dest_key (hubs_is_hub sel dest_key) target
                connected []))"

definition hubs_select_preferred ::
    "(byte list \<Rightarrow> byte list) \<Rightarrow> hubs_selector \<Rightarrow> string \<Rightarrow> string list \<Rightarrow> string set" where
  "hubs_select_preferred sha sel self_id peer_ids =
     (let self_is_hub = hubs_is_hub sel self_id; self_key = pubkey_part self_id;
          selected_hubs = (if self_is_hub then None else Some (hubs_for sha sel self_id)) in
      set (filter (\<lambda>peer.
             if pubkey_part peer = self_key then False
             else case (self_is_hub, hubs_is_hub sel peer) of
                    (True, True) \<Rightarrow> True
                  | (False, True) \<Rightarrow>
                      (case selected_hubs of None \<Rightarrow> False
                       | Some hubs \<Rightarrow> list_ex (\<lambda>hub. hub = pubkey_part peer) hubs)
                  | (True, False) \<Rightarrow> spoke_selects_hub sha sel peer self_id
                  | (False, False) \<Rightarrow> False) peer_ids))"

definition hubs_edge ::
    "(byte list \<Rightarrow> byte list) \<Rightarrow> hubs_selector \<Rightarrow> string \<Rightarrow> string \<Rightarrow> string list \<Rightarrow> bool" where
  "hubs_edge sha sel a b all =
     (if pubkey_part a = pubkey_part b then False
      else case (hubs_is_hub sel a, hubs_is_hub sel b) of
             (True, True) \<Rightarrow> True
           | (False, True) \<Rightarrow> spoke_selects_hub sha sel a b
           | (True, False) \<Rightarrow> spoke_selects_hub sha sel b a
           | (False, False) \<Rightarrow> False)"

definition hubs_forwards :: "hubs_selector \<Rightarrow> string \<Rightarrow> string list \<Rightarrow> bool" where
  "hubs_forwards sel self_id all = hubs_is_hub sel self_id"

section \<open>The rendezvous ranking\<close>

definition hub_key_lt :: "(byte list \<Rightarrow> byte list) \<Rightarrow> string \<Rightarrow> string \<Rightarrow> string \<Rightarrow> bool" where
  "hub_key_lt sha spoke a b \<longleftrightarrow>
     rendezvous_score sha spoke b < rendezvous_score sha spoke a \<or>
     rendezvous_score sha spoke a = rendezvous_score sha spoke b \<and> a < b"

interpretation hub_rank: key_ranking "hub_key_lt sha spoke" for sha spoke
  by unfold_locales (auto simp: hub_key_lt_def)

lemma hubs_is_hub_iff: "hubs_is_hub sel d \<longleftrightarrow> pubkey_part d \<in> pubkey_part ` set (hs_hubs sel)"
  by (simp add: hubs_is_hub_def list_ex_key_iff)

lemma ranked_hubs_scan_top:
  assumes "finite S" "top_spec (hub_key_lt sha spoke) limit S (map rh_key ranked)"
    and "\<And>h. h \<in> set ranked \<Longrightarrow> rh_score h = rendezvous_score sha spoke (rh_key h)"
  shows "top_spec (hub_key_lt sha spoke) limit (S \<union> pubkey_part ` set hubs)
           (map rh_key (ranked_hubs_scan sha spoke limit hubs ranked))"
  using assms
proof (induction hubs arbitrary: S ranked)
  case (Cons configured rest)
  let ?hub = "pubkey_part configured"
  let ?c = "\<lparr>rh_score = rendezvous_score sha spoke ?hub, rh_key = ?hub\<rparr>"
  show ?case
  proof (cases "?hub \<in> rh_key ` set ranked")
    case True
    then have "?hub \<in> S" using Cons.prems(2) by (auto simp: top_spec_def)
    then show ?thesis
      using Cons.IH [OF Cons.prems] True by (simp add: list_ex_key_iff insert_absorb Let_def)
  next
    case False
    let ?r = "retain_ranked ranked_hub_lt limit ?c ranked"
    have "ranked_hub_lt x ?c = hub_key_lt sha spoke (rh_key x) ?hub"
      "ranked_hub_lt ?c x = hub_key_lt sha spoke ?hub (rh_key x)" if "x \<in> set ranked" for x
      using Cons.prems(3) [OF that] by (auto simp: ranked_hub_lt_def hub_key_lt_def)
    then have "top_spec (hub_key_lt sha spoke) limit (insert ?hub S) (map rh_key ?r)"
      using hub_rank.retain_top_by(1) [OF Cons.prems(1,2), of ?c ranked_hub_lt] False by simp
    moreover have "rh_score h = rendezvous_score sha spoke (rh_key h)" if "h \<in> set ?r" for h
      using that Cons.prems(3) set_retain_ranked [of ranked_hub_lt limit ?c ranked] by auto
    ultimately show ?thesis
      using Cons.IH [of "insert ?hub S" ?r] Cons.prems(1) False
      by (simp add: list_ex_key_iff Let_def)
  qed
qed simp

lemma ranked_hubs_prefix_top:
  "top_spec (hub_key_lt sha (pubkey_part spoke)) limit (pubkey_part ` set (hs_hubs sel))
     (map rh_key (ranked_hubs_prefix sha sel spoke limit))"
  using ranked_hubs_scan_top [of "{}" sha "pubkey_part spoke" limit "[]" "hs_hubs sel"]
  by (simp add: ranked_hubs_prefix_def top_spec_def)

lemma hubs_for_top:
  "top_spec (hub_key_lt sha (pubkey_part spoke)) (unat (max 1 (hs_spoke_redundancy sel)))
     (pubkey_part ` set (hs_hubs sel)) (hubs_for sha sel spoke)"
  by (simp add: hubs_for_def ranked_hubs_prefix_top)

lemma spoke_selects_hub_iff:
  "spoke_selects_hub sha sel spoke hub \<longleftrightarrow> pubkey_part hub \<in> set (hubs_for sha sel spoke)"
  by (simp add: spoke_selects_hub_def hubs_for_def list_ex_key_iff)

section \<open>Next hops\<close>

definition route_key_lt ::
    "(byte list \<Rightarrow> byte list) \<Rightarrow> bool \<Rightarrow> string \<Rightarrow> string \<Rightarrow> string \<Rightarrow> bool" where
  "route_key_lt sha dest_is_hub dest_key a b \<longleftrightarrow>
     route_candidate_lt
       \<lparr>rc_direct = dest_is_hub \<and> a = dest_key,
        rc_score = rendezvous_score sha dest_key (pubkey_part a), rc_key = a, rc_peer = a\<rparr>
       \<lparr>rc_direct = dest_is_hub \<and> b = dest_key,
        rc_score = rendezvous_score sha dest_key (pubkey_part b), rc_key = b, rc_peer = b\<rparr>"

interpretation route_rank: key_ranking "route_key_lt sha dest_is_hub dest_key"
  for sha dest_is_hub dest_key
  by unfold_locales (auto simp: route_key_lt_def route_candidate_lt_def)

definition hop_eligible :: "hubs_selector \<Rightarrow> string \<Rightarrow> string \<Rightarrow> bool" where
  "hop_eligible sel source_key key \<longleftrightarrow> key \<noteq> source_key \<and> hubs_is_hub sel key"

definition hop_consistent ::
    "(byte list \<Rightarrow> byte list) \<Rightarrow> bool \<Rightarrow> string \<Rightarrow> string list \<Rightarrow> ranked_candidate \<Rightarrow> bool" where
  "hop_consistent sha dest_is_hub dest_key seen c \<longleftrightarrow>
     rc_direct c = (dest_is_hub \<and> rc_key c = dest_key) \<and>
     rc_score c = rendezvous_score sha dest_key (pubkey_part (rc_key c)) \<and>
     rc_peer c = spelling (rc_key c) seen"

lemma configured_hub_score_eq:
  "configured_hub_score sha sel dest_key key =
   (if hubs_is_hub sel key then Some (rendezvous_score sha dest_key (pubkey_part key)) else None)"
  by (simp add: configured_hub_score_def hubs_is_hub_def Let_def)

lemma hop_consistent_lt:
  assumes "hop_consistent sha h d seen x" "hop_consistent sha h d seen' c"
  shows "route_candidate_lt x c = route_key_lt sha h d (rc_key x) (rc_key c)"
  using assms by (simp add: hop_consistent_def route_key_lt_def route_candidate_lt_def)

lemma hop_consistent_snoc:
  assumes "hop_consistent sha h d seen c" "pubkey_part peer \<noteq> rc_key c"
  shows "hop_consistent sha h d (seen @ [peer]) c"
  using assms by (simp add: hop_consistent_def spelling_snoc)

lemma eligible_snoc:
  "{k \<in> pubkey_part ` set (seen @ [peer]). P k} =
   (if P (pubkey_part peer) then insert (pubkey_part peer) {k \<in> pubkey_part ` set seen. P k}
    else {k \<in> pubkey_part ` set seen. P k})"
  by auto

definition hop_turn ::
    "(byte list \<Rightarrow> byte list) \<Rightarrow> hubs_selector \<Rightarrow> string \<Rightarrow> string \<Rightarrow> bool \<Rightarrow> nat \<Rightarrow> string \<Rightarrow>
     ranked_candidate list \<Rightarrow> ranked_candidate list" where
  "hop_turn sha sel source_key dest_key h target peer cands =
     (let key = pubkey_part peer in
      if \<not> hop_eligible sel source_key key then cands
      else if key \<in> rc_key ` set cands
      then update_first (\<lambda>item. rc_key item = key)
             (\<lambda>item. if peer < rc_peer item then item\<lparr>rc_peer := peer\<rparr> else item) cands
      else retain_ranked route_candidate_lt target
             \<lparr>rc_direct = h \<and> key = dest_key,
              rc_score = rendezvous_score sha dest_key (pubkey_part key), rc_key = key,
              rc_peer = peer\<rparr> cands)"

lemma hubs_hop_scan_turn:
  "hubs_hop_scan sha sel source_key dest_key h target (peer # rest) cands =
   hubs_hop_scan sha sel source_key dest_key h target rest
     (hop_turn sha sel source_key dest_key h target peer cands)"
  by (simp add: hop_turn_def hop_eligible_def configured_hub_score_eq list_ex_key_iff Let_def)

lemma hop_turn_top:
  fixes sha sel source_key dest_key h target
  defines "E seen \<equiv> {k \<in> pubkey_part ` set seen. hop_eligible sel source_key k}"
  assumes top: "top_spec (route_key_lt sha h dest_key) target (E seen) (map rc_key cands)"
    and con: "\<forall>c \<in> set cands. hop_consistent sha h dest_key seen c"
  shows "top_spec (route_key_lt sha h dest_key) target (E (seen @ [peer]))
      (map rc_key (hop_turn sha sel source_key dest_key h target peer cands)) \<and>
    (\<forall>c \<in> set (hop_turn sha sel source_key dest_key h target peer cands).
      hop_consistent sha h dest_key (seen @ [peer]) c)"
proof -
  let ?key = "pubkey_part peer"
  let ?new = "\<lparr>rc_direct = h \<and> ?key = dest_key,
    rc_score = rendezvous_score sha dest_key (pubkey_part ?key), rc_key = ?key, rc_peer = peer\<rparr>"
  let ?turn = "hop_turn sha sel source_key dest_key h target peer cands"
  have sub: "rc_key c \<in> E seen" if "c \<in> set cands" for c
    using top that by (auto simp: top_spec_def)
  have dist: "distinct (map rc_key cands)"
    using top unfolding top_spec_def by (intro route_rank.sorted_distinct) blast
  have fin: "finite (E seen)" by (simp add: E_def)
  have keep: "hop_consistent sha h dest_key (seen @ [peer]) c"
    if "c \<in> set cands" "rc_key c \<noteq> ?key" for c
    using hop_consistent_snoc con that by metis
  consider "\<not> hop_eligible sel source_key ?key"
    | "hop_eligible sel source_key ?key" "?key \<in> rc_key ` set cands"
    | "hop_eligible sel source_key ?key" "?key \<notin> rc_key ` set cands"
    by blast
  then show ?thesis
  proof cases
    case 1
    then have "?turn = cands" "E (seen @ [peer]) = E seen"
      by (simp_all add: hop_turn_def E_def eligible_snoc del: set_append)
    moreover have "rc_key c \<noteq> ?key" if "c \<in> set cands" for c
      using sub [OF that] 1 by (auto simp: E_def)
    ultimately show ?thesis using top keep by simp
  next
    case 2
    let ?f = "\<lambda>item. if peer < rc_peer item then item\<lparr>rc_peer := peer\<rparr> else item"
    have turn: "?turn = map (\<lambda>x. if rc_key x = ?key then ?f x else x) cands"
      using 2 update_first_map [OF dist] by (simp add: hop_turn_def Let_def)
    have keys: "map rc_key ?turn = map rc_key cands" by (simp add: turn)
    have "?key \<in> E seen" using 2 sub by auto
    then have E: "E (seen @ [peer]) = E seen"
      using 2 by (simp add: E_def eligible_snoc insert_absorb del: set_append)
    have "hop_consistent sha h dest_key (seen @ [peer]) (?f c)"
      if "c \<in> set cands" "rc_key c = ?key" for c
      using con sub [OF that(1)] that
      by (auto simp: hop_consistent_def spelling_snoc E_def min_def not_less)
    then have "\<forall>c \<in> set ?turn. hop_consistent sha h dest_key (seen @ [peer]) c"
      using keep unfolding turn by force
    then show ?thesis using top E by (simp only: keys)
  next
    case 3
    have keep': "hop_consistent sha h dest_key (seen @ [peer]) c" if "c \<in> set cands" for c
      using keep that 3 by (metis image_eqI)
    have turn: "?turn = retain_ranked route_candidate_lt target ?new cands"
      using 3 by (simp add: hop_turn_def Let_def)
    have E: "E (seen @ [peer]) = insert ?key (E seen)"
      using 3 by (simp add: E_def eligible_snoc del: set_append)
    have lt: "route_candidate_lt x ?new = route_key_lt sha h dest_key (rc_key x) (rc_key ?new)"
      "route_candidate_lt ?new x = route_key_lt sha h dest_key (rc_key ?new) (rc_key x)"
      if "x \<in> set cands" for x
      using con that
      by (auto simp: hop_consistent_def route_key_lt_def route_candidate_lt_def)
    note retain = route_rank.retain_top_by [OF fin top, of ?new route_candidate_lt]
    have "hop_consistent sha h dest_key (seen @ [peer]) c" if "c \<in> set ?turn" for c
    proof (cases "?key \<in> E seen")
      case True
      then have "?turn = cands" using retain(2) 3 lt turn by simp
      then show ?thesis using that keep' by simp
    next
      case False
      then have "?key \<notin> pubkey_part ` set seen" using 3 by (simp add: E_def)
      then have "hop_consistent sha h dest_key (seen @ [peer]) ?new"
        by (simp add: hop_consistent_def spelling_snoc)
      then show ?thesis
        using that turn set_retain_ranked [of route_candidate_lt target ?new cands] keep' by auto
    qed
    then show ?thesis using retain(1) 3 lt by (simp add: E turn)
  qed
qed

lemma hubs_hop_scan_top:
  fixes sha sel source_key dest_key h target
  defines "E seen \<equiv> {k \<in> pubkey_part ` set seen. hop_eligible sel source_key k}"
  assumes "top_spec (route_key_lt sha h dest_key) target (E seen) (map rc_key cands)"
    and "\<forall>c \<in> set cands. hop_consistent sha h dest_key seen c"
  shows "top_spec (route_key_lt sha h dest_key) target (E (seen @ rest))
      (map rc_key (hubs_hop_scan sha sel source_key dest_key h target rest cands)) \<and>
    (\<forall>c \<in> set (hubs_hop_scan sha sel source_key dest_key h target rest cands).
      hop_consistent sha h dest_key (seen @ rest) c)"
  using assms(2,3)
proof (induction rest arbitrary: seen cands)
  case (Cons peer rest)
  from hop_turn_top [OF Cons.prems [unfolded E_def], of peer] show ?case
    using Cons.IH [of "seen @ [peer]"
        "hop_turn sha sel source_key dest_key h target peer cands"]
    unfolding hubs_hop_scan_turn E_def by simp
qed simp

lemma hubs_next_hops_reference:
  "hubs_next_hops sha sel self_id dest connected limit =
   reference_hops (route_key_lt sha (hubs_is_hub sel (pubkey_part dest)) (pubkey_part dest))
     (hop_eligible sel (pubkey_part self_id)) (min limit (redundancy_limit sel)) connected"
proof (cases "min limit (redundancy_limit sel) = 0")
  case True
  then show ?thesis by (simp add: hubs_next_hops_def reference_hops_def Let_def)
next
  case False
  let ?h = "hubs_is_hub sel (pubkey_part dest)" and ?target = "min limit (redundancy_limit sel)"
  let ?scan = "hubs_hop_scan sha sel (pubkey_part self_id) (pubkey_part dest) ?h ?target connected []"
  have "top_spec (route_key_lt sha ?h (pubkey_part dest)) ?target
      {k \<in> pubkey_part ` set connected. hop_eligible sel (pubkey_part self_id) k} (map rc_key ?scan) \<and>
    (\<forall>c \<in> set ?scan. hop_consistent sha ?h (pubkey_part dest) connected c)"
    using hubs_hop_scan_top [of sha ?h "pubkey_part dest" ?target "[]" sel "pubkey_part self_id" "[]"
        connected] by (simp add: top_spec_def)
  then have "map rc_peer ?scan = reference_hops (route_key_lt sha ?h (pubkey_part dest))
      (hop_eligible sel (pubkey_part self_id)) ?target connected"
    by (intro route_rank.reference_hops_eqI [of _ _ _ _ _ _ rc_key]) (auto simp: hop_consistent_def)
  then show ?thesis using False by (simp only: hubs_next_hops_def Let_def if_False)
qed

section \<open>Properties\<close>

text \<open>
  Frames flow exactly where connections exist: the peers a member of a hub tier prefers are
  exactly the known peers it shares an edge with.
\<close>

theorem hubs_preferred_iff_edge:
  "hubs_select_preferred sha sel self_id peers =
   {p \<in> set peers. hubs_edge sha sel self_id p all}"
  by (auto simp: hubs_select_preferred_def hubs_edge_def Let_def spoke_selects_hub_iff
      list_ex_key_iff list_ex_iff split: bool.splits)

text \<open>
  A spoke's degree in the hub tier is exact: a member that is no hub has edges to exactly the
  configured redundancy (at least one) of distinct hub keys, or to all of them when fewer are
  configured, and to no other spoke.
\<close>

theorem spoke_degree:
  assumes "\<not> hubs_is_hub sel spoke"
  shows "card (pubkey_part ` {h. hubs_edge sha sel spoke h all}) =
         min (max 1 (unat (hs_spoke_redundancy sel))) (card (pubkey_part ` set (hs_hubs sel))) \<and>
       {h. hubs_edge sha sel spoke h all} \<subseteq> {h. hubs_is_hub sel h}"
proof -
  let ?keys = "pubkey_part ` set (hs_hubs sel)"
  have top: "top_spec (hub_key_lt sha (pubkey_part spoke)) (unat (max 1 (hs_spoke_redundancy sel)))
      ?keys (hubs_for sha sel spoke)"
    by (rule hubs_for_top)
  have sub: "set (hubs_for sha sel spoke) \<subseteq> ?keys" using top by (simp add: top_spec_def)
  have "pubkey_part ` {h. hubs_edge sha sel spoke h all} = set (hubs_for sha sel spoke)"
  proof
    show "pubkey_part ` {h. hubs_edge sha sel spoke h all} \<subseteq> set (hubs_for sha sel spoke)"
      using assms by (auto simp: hubs_edge_def spoke_selects_hub_iff split: bool.splits if_splits)
    show "set (hubs_for sha sel spoke) \<subseteq> pubkey_part ` {h. hubs_edge sha sel spoke h all}"
    proof
      fix k assume k: "k \<in> set (hubs_for sha sel spoke)"
      then obtain h where h: "h \<in> set (hs_hubs sel)" "k = pubkey_part h" using sub by auto
      then have "hubs_is_hub sel h" by (simp add: hubs_is_hub_iff)
      moreover from this have "pubkey_part h \<noteq> pubkey_part spoke"
        using assms by (auto simp: hubs_is_hub_iff)
      ultimately have "hubs_edge sha sel spoke h all"
        using assms k h by (simp add: hubs_edge_def spoke_selects_hub_iff)
      then show "k \<in> pubkey_part ` {h. hubs_edge sha sel spoke h all}" using h by blast
    qed
  qed
  moreover have "card (set (hubs_for sha sel spoke)) = length (hubs_for sha sel spoke)"
    using top unfolding top_spec_def by (intro distinct_card hub_rank.sorted_distinct) blast
  moreover have "unat (max 1 (hs_spoke_redundancy sel)) = max 1 (unat (hs_spoke_redundancy sel))"
    by (auto simp: max_def word_le_nat_alt)
  moreover have "{h. hubs_edge sha sel spoke h all} \<subseteq> {h. hubs_is_hub sel h}"
    using assms by (auto simp: hubs_edge_def split: if_splits bool.splits)
  ultimately show ?thesis using top by (simp add: top_spec_def)
qed

definition sample_hubs :: hubs_selector where
  "sample_hubs = \<lparr>hs_hubs = [''b'', ''c'', ''b''], hs_spoke_redundancy = 1\<rparr>"

theorem spoke_degree_witness:
  "card (pubkey_part ` {h. hubs_edge (\<lambda>bs. bs) sample_hubs ''s'' h []}) = 1"
proof -
  have keys: "pubkey_part ` set (hs_hubs sample_hubs) = {''b'', ''c''}"
    by (auto simp: sample_hubs_def canonical_key_def)
  have "\<not> hubs_is_hub sample_hubs ''s''"
    unfolding hubs_is_hub_iff keys by (simp add: canonical_key_def)
  from spoke_degree [OF this, of "\<lambda>bs. bs" "[]"] keys show ?thesis
    by (simp add: sample_hubs_def)
qed

text \<open>
  C15: Rendezvous assignment moves only the spokes that ranked a hub. When the configured hubs of two
  configurations differ only in one key, a spoke that did not rank this key keeps exactly the same
  hubs in the same order; in particular the order of the configuration and repeated entries do not
  matter.
\<close>

theorem rendezvous_stability:
  assumes keys: "pubkey_part ` set (hs_hubs sel') = pubkey_part ` set (hs_hubs sel) - {gone}"
    and same: "hs_spoke_redundancy sel' = hs_spoke_redundancy sel"
    and unranked: "gone \<notin> set (hubs_for sha sel spoke)"
  shows "hubs_for sha sel' spoke = hubs_for sha sel spoke"
proof -
  have "top_spec (hub_key_lt sha (pubkey_part spoke)) (unat (max 1 (hs_spoke_redundancy sel)))
      (pubkey_part ` set (hs_hubs sel')) (hubs_for sha sel spoke)"
    using hub_rank.top_remove_unranked [OF _ hubs_for_top unranked] keys by simp
  then show ?thesis
    using hub_rank.top_unique [OF _ hubs_for_top] same by (metis List.finite_set finite_imageI)
qed

lemma sample_scan:
  "hubs_for (\<lambda>bs. bs) sample_hubs ''s'' = [''c'']"
  by (simp add: hubs_for_def ranked_hubs_prefix_def sample_hubs_def canonical_key_def Let_def
      retain_ranked_def ranked_hub_lt_def rendezvous_score_def string_bytes_def
      u64_from_le_bytes_def of_char_def)

theorem rendezvous_stability_witness:
  "hubs_for (\<lambda>bs. bs) \<lparr>hs_hubs = [''c''], hs_spoke_redundancy = 1\<rparr> ''s'' = [''c'']"
proof -
  have "hubs_for (\<lambda>bs. bs) \<lparr>hs_hubs = [''c''], hs_spoke_redundancy = 1\<rparr> ''s'' =
      hubs_for (\<lambda>bs. bs) sample_hubs ''s''"
    by (rule rendezvous_stability [where gone = "''b''"])
       (auto simp: sample_scan, auto simp: sample_hubs_def canonical_key_def)
  then show ?thesis by (simp add: sample_scan)
qed

text \<open>
  C16: The bounded scan for next hops equals its reference. Over any list of connected peers, with
  any order and any repetition, the hops are the best configured hubs by route rank (a destination
  that is itself a hub first, then rendezvous score for the destination, then key), at most the
  smaller of the caller's limit and the redundancy, each given by its smallest connected spelling,
  and never the member itself.
\<close>

theorem hubs_next_hops_is_reference:
  "hubs_next_hops sha sel self_id dest connected limit =
   reference_hops (route_key_lt sha (hubs_is_hub sel (pubkey_part dest)) (pubkey_part dest))
     (\<lambda>key. key \<noteq> pubkey_part self_id \<and> hubs_is_hub sel key)
     (min limit (redundancy_limit sel)) connected"
  using hubs_next_hops_reference [of sha sel self_id dest connected limit]
  by (simp add: hop_eligible_def [abs_def])

end
