(* ===== verification/Topology_Tree.thy ===== *)
theory Topology_Tree
  imports Topology_Hubs
begin

text \<open>
  The shallow routing tree (\<open>topology/tree.rs\<close>) and its validation (\<open>config.rs\<close>): one root, a
  finite tier of hubs, and leaves that attach to a primary hub and a bounded number of backups by
  rendezvous rank. The lemmas show that membership by counting (\<open>candidate_contains\<close>) agrees with
  the ranked candidates, that preferred peers are the peers with an edge, that every edge joins
  neighbouring tiers and any two members are at most four edges apart, and that the parent cursor
  \<open>next_parent_candidate\<close> goes round the ranking.
\<close>

record tree_selector =
  ts_root :: string
  ts_hubs :: "string list"
  ts_backup_candidates :: u32

definition tree_is_root :: "tree_selector \<Rightarrow> string \<Rightarrow> bool" where
  "tree_is_root sel device = (pubkey_part device = pubkey_part (ts_root sel))"

definition tree_is_hub :: "tree_selector \<Rightarrow> string \<Rightarrow> bool" where
  "tree_is_hub sel device =
     (let key = pubkey_part device in
      \<not> tree_is_root sel key \<and> list_ex (\<lambda>hub. pubkey_part hub = key) (ts_hubs sel))"

definition candidate_limit :: "tree_selector \<Rightarrow> nat" where
  "candidate_limit sel = min (unat (ts_backup_candidates sel) + 1) (length (ts_hubs sel))"

definition tree_rendezvous_score :: "(byte list \<Rightarrow> byte list) \<Rightarrow> string \<Rightarrow> string \<Rightarrow> u64" where
  "tree_rendezvous_score sha leaf hub =
     u64_from_le_bytes (take 8 (sha (string_bytes leaf @ string_bytes '':'' @ string_bytes hub)))"

definition tree_ranked_lt :: "ranked_hub \<Rightarrow> ranked_hub \<Rightarrow> bool" where
  "tree_ranked_lt left right \<longleftrightarrow>
     rh_score right < rh_score left \<or>
     rh_score left = rh_score right \<and> rh_key left < rh_key right"

definition tree_retain_ranked :: "nat \<Rightarrow> ranked_hub \<Rightarrow> ranked_hub list \<Rightarrow> ranked_hub list" where
  "tree_retain_ranked limit candidate ranked =
     (if list_ex (\<lambda>entry. rh_key entry = rh_key candidate) ranked then ranked
      else retain_ranked tree_ranked_lt limit candidate ranked)"

fun ranked_candidates_scan ::
    "(byte list \<Rightarrow> byte list) \<Rightarrow> (string \<Rightarrow> bool) \<Rightarrow> string \<Rightarrow> nat \<Rightarrow> string list \<Rightarrow> ranked_hub list \<Rightarrow>
     ranked_hub list" where
  "ranked_candidates_scan sha skip leaf limit [] ranked = ranked"
| "ranked_candidates_scan sha skip leaf limit (configured # rest) ranked =
     (let key = pubkey_part configured in
      if skip key then ranked_candidates_scan sha skip leaf limit rest ranked
      else ranked_candidates_scan sha skip leaf limit rest
             (tree_retain_ranked limit
                \<lparr>rh_score = tree_rendezvous_score sha leaf key, rh_key = key\<rparr> ranked))"

definition ranked_candidates ::
    "(byte list \<Rightarrow> byte list) \<Rightarrow> tree_selector \<Rightarrow> string \<Rightarrow> nat \<Rightarrow> ranked_hub list" where
  "ranked_candidates sha sel leaf limit =
     ranked_candidates_scan sha (tree_is_root sel) (pubkey_part leaf) limit (ts_hubs sel) []"

definition connected_spelling :: "string \<Rightarrow> string list \<Rightarrow> string option" where
  "connected_spelling key connected =
     (if list_ex (\<lambda>peer. pubkey_part peer = key) connected then Some (spelling key connected)
      else None)"

definition ranked_connected_candidates ::
    "(byte list \<Rightarrow> byte list) \<Rightarrow> tree_selector \<Rightarrow> string \<Rightarrow> string list \<Rightarrow> nat \<Rightarrow> ranked_hub list" where
  "ranked_connected_candidates sha sel leaf connected limit =
     ranked_candidates_scan sha
       (\<lambda>key. tree_is_root sel key \<or> connected_spelling key connected = None)
       (pubkey_part leaf) limit (ts_hubs sel) []"

fun append_connected :: "string list \<Rightarrow> string list \<Rightarrow> nat \<Rightarrow> string list \<Rightarrow> string list" where
  "append_connected [] connected limit result = result"
| "append_connected (key0 # keys) connected limit result =
     (if length result = limit then result
      else
        let key = pubkey_part key0 in
        if list_ex (\<lambda>peer. pubkey_part peer = key) result
        then append_connected keys connected limit result
        else case connected_spelling key connected of
               Some peer \<Rightarrow> append_connected keys connected limit (result @ [peer])
             | None \<Rightarrow> append_connected keys connected limit result)"

definition append_ranked_connected :: "ranked_hub list \<Rightarrow> string list \<Rightarrow> nat \<Rightarrow> string list" where
  "append_ranked_connected candidates connected limit =
     List.map_filter (\<lambda>candidate. connected_spelling (rh_key candidate) connected)
       (take limit candidates)"

fun connected_hubs_loop ::
    "string \<Rightarrow> string list \<Rightarrow> nat \<Rightarrow> ranked_hub list \<Rightarrow> string list \<Rightarrow> string list" where
  "connected_hubs_loop self_key connected limit [] result = result"
| "connected_hubs_loop self_key connected limit (candidate # rest) result =
     (if rh_key candidate = pubkey_part self_key
      then connected_hubs_loop self_key connected limit rest result
      else case connected_spelling (rh_key candidate) connected of
             None \<Rightarrow> connected_hubs_loop self_key connected limit rest result
           | Some peer \<Rightarrow>
               if length (result @ [peer]) = limit then result @ [peer]
               else connected_hubs_loop self_key connected limit rest (result @ [peer]))"

definition root_or_connected_hubs ::
    "(byte list \<Rightarrow> byte list) \<Rightarrow> tree_selector \<Rightarrow> string \<Rightarrow> string list \<Rightarrow> nat \<Rightarrow> string list" where
  "root_or_connected_hubs sha sel self_key connected limit =
     (case connected_spelling (pubkey_part (ts_root sel)) connected of
        Some root \<Rightarrow> [root]
      | None \<Rightarrow>
          connected_hubs_loop self_key connected limit
            (ranked_connected_candidates sha sel self_key connected
               (min (candidate_limit sel) (limit + 1))) [])"

fun candidate_contains_loop ::
    "(byte list \<Rightarrow> byte list) \<Rightarrow> tree_selector \<Rightarrow> string \<Rightarrow> string \<Rightarrow> nat \<Rightarrow> u64 \<Rightarrow> string list \<Rightarrow> nat \<Rightarrow>
     bool \<Rightarrow> bool" where
  "candidate_contains_loop sha sel leaf hub limit target_score [] rank found = found"
| "candidate_contains_loop sha sel leaf hub limit target_score (configured # rest) rank found =
     (let candidate = pubkey_part configured in
      if tree_is_root sel candidate
      then candidate_contains_loop sha sel leaf hub limit target_score rest rank found
      else if candidate = hub
      then candidate_contains_loop sha sel leaf hub limit target_score rest rank True
      else
        let score = tree_rendezvous_score sha (pubkey_part leaf) candidate in
        if score > target_score \<or> score = target_score \<and> candidate < hub
        then if rank + 1 \<ge> limit then False
             else candidate_contains_loop sha sel leaf hub limit target_score rest (rank + 1) found
        else candidate_contains_loop sha sel leaf hub limit target_score rest rank found)"

definition candidate_contains ::
    "(byte list \<Rightarrow> byte list) \<Rightarrow> tree_selector \<Rightarrow> string \<Rightarrow> string \<Rightarrow> bool" where
  "candidate_contains sha sel leaf hub0 =
     (let hub = pubkey_part hub0; limit = candidate_limit sel in
      if limit = 0 then False
      else candidate_contains_loop sha sel leaf hub limit
             (tree_rendezvous_score sha (pubkey_part leaf) hub) (ts_hubs sel) 0 False)"

definition rank_tuple_lt :: "u64 \<Rightarrow> string \<Rightarrow> u64 \<Rightarrow> string \<Rightarrow> bool" where
  "rank_tuple_lt left_score left_key right_score right_key \<longleftrightarrow>
     right_score < left_score \<or> left_score = right_score \<and> left_key < right_key"

fun next_parent_loop ::
    "(byte list \<Rightarrow> byte list) \<Rightarrow> string \<Rightarrow> string \<Rightarrow> (string \<times> u64) option \<Rightarrow> string list \<Rightarrow>
     (string \<times> string \<times> u64) option \<Rightarrow> (string \<times> string \<times> u64) option \<Rightarrow>
     (string \<times> string \<times> u64) option \<times> (string \<times> string \<times> u64) option" where
  "next_parent_loop sha root leaf cursor [] best best_after = (best, best_after)"
| "next_parent_loop sha root leaf cursor (configured # rest) best best_after =
     (let key = pubkey_part configured in
      if key = root \<or> key = leaf then next_parent_loop sha root leaf cursor rest best best_after
      else
        let score = tree_rendezvous_score sha leaf key;
            candidate = (configured, key, score);
            improves = (\<lambda>slot. case slot of None \<Rightarrow> True
                         | Some current \<Rightarrow>
                             rank_tuple_lt score key (snd (snd current)) (fst (snd current)));
            best' = (if improves best then Some candidate else best);
            best_after' = (case cursor of
                             Some (cursor_key, cursor_score) \<Rightarrow>
                               if rank_tuple_lt cursor_score cursor_key score key \<and> improves best_after
                               then Some candidate else best_after
                           | None \<Rightarrow> best_after)
        in next_parent_loop sha root leaf cursor rest best' best_after')"

definition next_parent_candidate ::
    "(byte list \<Rightarrow> byte list) \<Rightarrow> string \<Rightarrow> string list \<Rightarrow> string \<Rightarrow> string option \<Rightarrow> string option" where
  "next_parent_candidate sha root0 hubs leaf0 after =
     (let root = pubkey_part root0; leaf = pubkey_part leaf0;
          cursor = map_option (\<lambda>a. (pubkey_part a, tree_rendezvous_score sha leaf (pubkey_part a))) after;
          (best, best_after) = next_parent_loop sha root leaf cursor hubs None None
      in map_option fst (case best_after of Some c \<Rightarrow> Some c | None \<Rightarrow> best))"

definition tree_select_preferred ::
    "(byte list \<Rightarrow> byte list) \<Rightarrow> tree_selector \<Rightarrow> string \<Rightarrow> string list \<Rightarrow> string set" where
  "tree_select_preferred sha sel self_id peer_ids =
     (let self_key = pubkey_part self_id in
      if tree_is_root sel self_key
      then set (filter (\<lambda>peer. pubkey_part peer \<noteq> self_key \<and> tree_is_hub sel peer) peer_ids)
      else if tree_is_hub sel self_key
      then set (filter (\<lambda>peer.
             let key = pubkey_part peer in
             key \<noteq> self_key \<and>
             (tree_is_root sel key \<or>
              \<not> tree_is_hub sel key \<and> candidate_contains sha sel key self_key)) peer_ids)
      else
        let candidates = ranked_candidates sha sel self_key (candidate_limit sel) in
        set (filter (\<lambda>peer.
               let key = pubkey_part peer in
               key \<noteq> self_key \<and> list_ex (\<lambda>candidate. rh_key candidate = key) candidates) peer_ids))"

definition tree_edge ::
    "(byte list \<Rightarrow> byte list) \<Rightarrow> tree_selector \<Rightarrow> string \<Rightarrow> string \<Rightarrow> string list \<Rightarrow> bool" where
  "tree_edge sha sel a b all =
     (let a_key = pubkey_part a; b_key = pubkey_part b in
      if a_key = b_key then False
      else
        let a_root = tree_is_root sel a_key; b_root = tree_is_root sel b_key;
            a_hub = tree_is_hub sel a_key; b_hub = tree_is_hub sel b_key in
        if a_root \<and> \<not> b_root \<and> \<not> a_hub \<and> b_hub \<or> \<not> a_root \<and> b_root \<and> a_hub \<and> \<not> b_hub then True
        else if \<not> a_root \<and> \<not> b_root \<and> a_hub \<and> \<not> b_hub then candidate_contains sha sel b_key a_key
        else if \<not> a_root \<and> \<not> b_root \<and> \<not> a_hub \<and> b_hub then candidate_contains sha sel a_key b_key
        else False)"

definition tree_forwards :: "tree_selector \<Rightarrow> string \<Rightarrow> string list \<Rightarrow> bool" where
  "tree_forwards sel self_id all = (tree_is_root sel self_id \<or> tree_is_hub sel self_id)"

definition tree_next_hops ::
    "(byte list \<Rightarrow> byte list) \<Rightarrow> tree_selector \<Rightarrow> string \<Rightarrow> string \<Rightarrow> string list \<Rightarrow> nat \<Rightarrow> string list" where
  "tree_next_hops sha sel self_id dest connected limit =
     (if limit = 0 then []
      else
        let self_key = pubkey_part self_id; dest_key = pubkey_part dest in
        if self_key = dest_key then []
        else
          let self_root = tree_is_root sel self_key; self_hub = tree_is_hub sel self_key;
              dest_root = tree_is_root sel dest_key; dest_hub = tree_is_hub sel dest_key in
          if self_root
          then if dest_root then []
               else if dest_hub then append_connected [dest_key] connected limit []
               else append_ranked_connected
                      (ranked_connected_candidates sha sel dest_key connected
                         (min (candidate_limit sel) limit)) connected limit
          else if self_hub
          then if dest_root then root_or_connected_hubs sha sel self_key connected limit
               else case (if \<not> dest_hub \<and> candidate_contains sha sel dest_key self_key
                          then connected_spelling dest_key connected else None) of
                      Some peer \<Rightarrow> [peer]
                    | None \<Rightarrow> root_or_connected_hubs sha sel self_key connected limit
          else case (if dest_hub \<and> candidate_contains sha sel self_key dest_key
                     then connected_spelling dest_key connected else None) of
                 Some peer \<Rightarrow> [peer]
               | None \<Rightarrow>
                   append_ranked_connected
                     (ranked_connected_candidates sha sel self_key connected
                        (min (candidate_limit sel) limit)) connected limit)"

definition tree_preferred_next_hop :: "tree_selector \<Rightarrow> string \<Rightarrow> string \<Rightarrow> string list \<Rightarrow> string \<Rightarrow> bool" where
  "tree_preferred_next_hop sel self_id dest connected preferred_parent =
     (let self_key = pubkey_part self_id; parent_key = pubkey_part preferred_parent in
      if self_key = parent_key \<or> tree_is_root sel self_key then False
      else if tree_is_hub sel self_key then tree_is_root sel parent_key
      else tree_is_hub sel parent_key)"

section \<open>Ranked candidates\<close>

lemma tree_score_eq: "tree_rendezvous_score = rendezvous_score"
  by (intro ext) (simp add: tree_rendezvous_score_def rendezvous_score_def)

lemma tree_ranked_lt_eq: "tree_ranked_lt = ranked_hub_lt"
  by (intro ext) (simp add: tree_ranked_lt_def ranked_hub_lt_def)

lemma ranked_candidates_scan_eq:
  "ranked_candidates_scan sha skip leaf limit hubs ranked =
   ranked_hubs_scan sha leaf limit (filter (\<lambda>h. \<not> skip (pubkey_part h)) hubs) ranked"
  by (induction hubs arbitrary: ranked)
     (simp_all add: Let_def tree_retain_ranked_def tree_score_eq tree_ranked_lt_eq)

lemma ranked_candidates_scan_top:
  "top_spec (hub_key_lt sha leaf) limit {k \<in> pubkey_part ` set hubs. \<not> skip k}
     (map rh_key (ranked_candidates_scan sha skip leaf limit hubs []))"
proof -
  have "pubkey_part ` set (filter (\<lambda>h. \<not> skip (pubkey_part h)) hubs) =
      {k \<in> pubkey_part ` set hubs. \<not> skip k}"
    by auto
  then show ?thesis
    using ranked_hubs_scan_top [of "{}" sha leaf limit "[]" "filter (\<lambda>h. \<not> skip (pubkey_part h)) hubs"]
    by (simp add: ranked_candidates_scan_eq top_spec_def)
qed

definition parent_keys :: "tree_selector \<Rightarrow> string set" where
  "parent_keys sel = {k \<in> pubkey_part ` set (ts_hubs sel). \<not> tree_is_root sel k}"

lemma finite_parent_keys [simp]: "finite (parent_keys sel)"
  by (simp add: parent_keys_def)

lemma ranked_candidates_top:
  "top_spec (hub_key_lt sha (pubkey_part leaf)) limit (parent_keys sel)
     (map rh_key (ranked_candidates sha sel leaf limit))"
  by (simp add: ranked_candidates_def ranked_candidates_scan_top parent_keys_def)

definition beats :: "(byte list \<Rightarrow> byte list) \<Rightarrow> tree_selector \<Rightarrow> string \<Rightarrow> string \<Rightarrow> string \<Rightarrow> bool" where
  "beats sha sel leaf hub k \<longleftrightarrow> \<not> tree_is_root sel k \<and> hub_key_lt sha (pubkey_part leaf) k hub"

lemma candidate_contains_loop_iff:
  "rank < limit \<Longrightarrow>
   candidate_contains_loop sha sel leaf hub limit
     (tree_rendezvous_score sha (pubkey_part leaf) hub) hubs rank found \<longleftrightarrow>
   (found \<or> (\<exists>h \<in> set hubs. pubkey_part h = hub \<and> \<not> tree_is_root sel hub)) \<and>
   rank + length (filter (beats sha sel leaf hub) (map pubkey_part hubs)) < limit"
proof (induction hubs arbitrary: rank found)
  case (Cons h hubs)
  have "\<not> hub_key_lt sha (pubkey_part leaf) hub hub" by (rule hub_rank.irrefl)
  then show ?case
    using Cons
    by (auto simp: Let_def beats_def hub_key_lt_def tree_score_eq not_le)
qed simp

definition unique_hubs :: "tree_selector \<Rightarrow> bool" where
  "unique_hubs sel \<longleftrightarrow> distinct (map pubkey_part (ts_hubs sel))"

lemma candidate_contains_count:
  assumes "unique_hubs sel"
  shows "candidate_contains sha sel leaf hub \<longleftrightarrow>
    pubkey_part hub \<in> parent_keys sel \<and>
    card {k \<in> parent_keys sel. hub_key_lt sha (pubkey_part leaf) k (pubkey_part hub)} <
      candidate_limit sel"
proof -
  let ?hub = "pubkey_part hub"
  let ?lt = "hub_key_lt sha (pubkey_part leaf)"
  let ?beaten = "filter (beats sha sel leaf ?hub) (map pubkey_part (ts_hubs sel))"
  have "distinct ?beaten" using assms by (simp add: unique_hubs_def)
  moreover have "set ?beaten = {k \<in> parent_keys sel. ?lt k ?hub}"
    by (auto simp: beats_def parent_keys_def)
  ultimately have len: "length ?beaten = card {k \<in> parent_keys sel. ?lt k ?hub}"
    by (metis distinct_card)
  have "?hub \<in> parent_keys sel \<longleftrightarrow>
      (\<exists>h \<in> set (ts_hubs sel). pubkey_part h = ?hub \<and> \<not> tree_is_root sel ?hub)"
    by (auto simp: parent_keys_def image_iff) metis
  then show ?thesis
    using candidate_contains_loop_iff [of 0 "candidate_limit sel" sha sel leaf ?hub "ts_hubs sel" False]
      len by (auto simp: candidate_contains_def Let_def)
qed

lemma candidate_contains_ranked:
  assumes "unique_hubs sel"
  shows "candidate_contains sha sel leaf hub \<longleftrightarrow>
    pubkey_part hub \<in> rh_key ` set (ranked_candidates sha sel leaf (candidate_limit sel))"
  by (simp add: candidate_contains_count [OF assms]
      hub_rank.top_mem_iff [OF finite_parent_keys ranked_candidates_top] flip: set_map)

lemma tree_is_hub_iff: "tree_is_hub sel d \<longleftrightarrow> pubkey_part d \<in> parent_keys sel"
  by (auto simp: tree_is_hub_def parent_keys_def Let_def list_ex_key_iff)

definition stable_id :: "string \<Rightarrow> bool" where
  "stable_id d \<longleftrightarrow> pubkey_part (pubkey_part d) = pubkey_part d"

lemma root_not_hub: "tree_is_root sel (pubkey_part d) \<Longrightarrow> \<not> tree_is_hub sel d"
  by (simp add: tree_is_hub_iff parent_keys_def)

lemma stable_simps:
  assumes "stable_id x"
  shows "tree_is_root sel (pubkey_part x) = tree_is_root sel x"
    and "tree_is_hub sel (pubkey_part x) = tree_is_hub sel x"
    and "candidate_contains sha sel (pubkey_part x) y = candidate_contains sha sel x y"
    and "candidate_contains sha sel y (pubkey_part x) = candidate_contains sha sel y x"
    and "ranked_candidates sha sel (pubkey_part x) limit = ranked_candidates sha sel x limit"
proof -
  have "candidate_contains_loop sha sel (pubkey_part x) h l t hs r f =
      candidate_contains_loop sha sel x h l t hs r f" for h l t hs r f
    using assms by (induction hs arbitrary: r f) (simp_all add: stable_id_def Let_def)
  then show "candidate_contains sha sel (pubkey_part x) y = candidate_contains sha sel x y"
    using assms by (simp add: candidate_contains_def stable_id_def)
qed (use assms in \<open>simp_all add: stable_id_def tree_is_root_def tree_is_hub_iff candidate_contains_def
      ranked_candidates_def\<close>)

lemma tree_edge_stable:
  assumes "stable_id a" "stable_id b"
  shows "tree_edge sha sel a b all \<longleftrightarrow>
    tree_is_root sel a \<and> tree_is_hub sel b \<or> tree_is_hub sel a \<and> tree_is_root sel b \<or>
    tree_is_hub sel a \<and> \<not> tree_is_root sel b \<and> \<not> tree_is_hub sel b \<and> candidate_contains sha sel b a \<or>
    \<not> tree_is_root sel a \<and> \<not> tree_is_hub sel a \<and> tree_is_hub sel b \<and> candidate_contains sha sel a b"
proof -
  have excl: "\<not> (tree_is_root sel x \<and> tree_is_hub sel x)" if "stable_id x" for x
    using root_not_hub [of sel x] stable_simps(1) [OF that] by blast
  show ?thesis
  proof (cases "pubkey_part a = pubkey_part b")
    case True
    then have "tree_is_root sel a = tree_is_root sel b" "tree_is_hub sel a = tree_is_hub sel b"
      by (simp_all add: tree_is_root_def tree_is_hub_iff)
    then show ?thesis using True excl assms by (auto simp: tree_edge_def)
  next
    case False
    then show ?thesis
      using excl [OF assms(1)] excl [OF assms(2)]
      by (auto simp: tree_edge_def Let_def stable_simps [OF assms(1)] stable_simps [OF assms(2)])
  qed
qed

section \<open>The parent cursor\<close>

definition slot_ok ::
    "(byte list \<Rightarrow> byte list) \<Rightarrow> string \<Rightarrow> string list \<Rightarrow> string set \<Rightarrow>
     (string \<times> string \<times> u64) option \<Rightarrow> bool" where
  "slot_ok sha leaf seen S slot \<longleftrightarrow>
     (case slot of
        None \<Rightarrow> S = {}
      | Some (c, k, score) \<Rightarrow>
          c \<in> set seen \<and> pubkey_part c = k \<and> score = tree_rendezvous_score sha leaf k \<and>
          k \<in> S \<and> (\<forall>y \<in> S. y \<noteq> k \<longrightarrow> hub_key_lt sha leaf k y))"

lemma rank_tuple_lt_score:
  "rank_tuple_lt (tree_rendezvous_score sha leaf a) a (tree_rendezvous_score sha leaf b) b =
   hub_key_lt sha leaf a b"
  by (simp add: rank_tuple_lt_def hub_key_lt_def tree_score_eq)

lemma slot_ok_offer:
  assumes "slot_ok sha leaf seen S slot" "pubkey_part c = k"
  shows "slot_ok sha leaf (seen @ [c]) (insert k S)
    (if (case slot of None \<Rightarrow> True | Some current \<Rightarrow>
           rank_tuple_lt (tree_rendezvous_score sha leaf k) k (snd (snd current)) (fst (snd current)))
     then Some (c, k, tree_rendezvous_score sha leaf k) else slot)"
proof (cases slot)
  case None
  then show ?thesis using assms by (simp add: slot_ok_def)
next
  case (Some current)
  obtain c0 k0 s0 where cur: "current = (c0, k0, s0)" by (cases current) auto
  then have s0: "s0 = tree_rendezvous_score sha leaf k0" and "hub_rank.least_of sha leaf S k0"
    and c0: "c0 \<in> set seen" "pubkey_part c0 = k0"
    using assms Some by (auto simp: slot_ok_def hub_rank.least_of_def)
  from hub_rank.least_of_insert [OF this(2), of k] show ?thesis
    using Some cur s0 c0 assms(2)
    by (auto simp: slot_ok_def hub_rank.least_of_def rank_tuple_lt_score)
qed

lemma slot_ok_skip: "slot_ok sha leaf seen S slot \<Longrightarrow> slot_ok sha leaf (seen @ [c]) S slot"
  by (auto simp: slot_ok_def split: option.splits)

definition cursor_keys :: "string \<Rightarrow> string \<Rightarrow> string list \<Rightarrow> string set" where
  "cursor_keys root leaf hubs = {k \<in> pubkey_part ` set hubs. k \<noteq> root \<and> k \<noteq> leaf}"

definition keys_after ::
    "(byte list \<Rightarrow> byte list) \<Rightarrow> string \<Rightarrow> string option \<Rightarrow> string set \<Rightarrow> string set" where
  "keys_after sha leaf cursor S =
     (case cursor of None \<Rightarrow> {} | Some k0 \<Rightarrow> {k \<in> S. hub_key_lt sha leaf k0 k})"

lemma next_parent_loop_slots:
  assumes "slot_ok sha leaf seen (cursor_keys root leaf seen) best"
    and "slot_ok sha leaf seen (keys_after sha leaf cursor (cursor_keys root leaf seen)) best_after"
    and "next_parent_loop sha root leaf
      (map_option (\<lambda>k. (k, tree_rendezvous_score sha leaf k)) cursor) rest best best_after = (b, ba)"
  shows "slot_ok sha leaf (seen @ rest) (cursor_keys root leaf (seen @ rest)) b \<and>
    slot_ok sha leaf (seen @ rest) (keys_after sha leaf cursor (cursor_keys root leaf (seen @ rest))) ba"
  using assms
proof (induction rest arbitrary: seen best best_after)
  case (Cons h rest)
  let ?k = "pubkey_part h"
  let ?cur = "map_option (\<lambda>k. (k, tree_rendezvous_score sha leaf k)) cursor"
  show ?case
  proof (cases "?k = root \<or> ?k = leaf")
    case True
    then have "cursor_keys root leaf (seen @ [h]) = cursor_keys root leaf seen"
      by (auto simp: cursor_keys_def)
    then show ?thesis
      using Cons.IH [of "seen @ [h]" best best_after] Cons.prems True by (simp add: slot_ok_skip)
  next
    case False
    then have keys: "cursor_keys root leaf (seen @ [h]) = insert ?k (cursor_keys root leaf seen)"
      by (auto simp: cursor_keys_def)
    let ?improves = "\<lambda>slot. case slot of None \<Rightarrow> True | Some current \<Rightarrow>
      rank_tuple_lt (tree_rendezvous_score sha leaf ?k) ?k (snd (snd current)) (fst (snd current))"
    let ?new = "Some (h, ?k, tree_rendezvous_score sha leaf ?k)"
    let ?best = "if ?improves best then ?new else best"
    let ?ba = "case ?cur of Some (ck, cs) \<Rightarrow>
        if rank_tuple_lt cs ck (tree_rendezvous_score sha leaf ?k) ?k \<and> ?improves best_after
        then ?new else best_after | None \<Rightarrow> best_after"
    have "slot_ok sha leaf (seen @ [h]) (cursor_keys root leaf (seen @ [h])) ?best"
      unfolding keys by (rule slot_ok_offer [OF Cons.prems(1) refl])
    moreover have "slot_ok sha leaf (seen @ [h])
        (keys_after sha leaf cursor (cursor_keys root leaf (seen @ [h]))) ?ba"
    proof (cases cursor)
      case None
      then show ?thesis using Cons.prems(2) by (simp add: keys_after_def slot_ok_skip)
    next
      case (Some k0)
      show ?thesis
      proof (cases "hub_key_lt sha leaf k0 ?k")
        case True
        then have "keys_after sha leaf cursor (cursor_keys root leaf (seen @ [h])) =
            insert ?k (keys_after sha leaf cursor (cursor_keys root leaf seen))"
          unfolding keys using Some by (auto simp: keys_after_def)
        then show ?thesis
          using slot_ok_offer [OF Cons.prems(2) refl, of h] Some True
          by (simp add: rank_tuple_lt_score)
      next
        case False
        then have "keys_after sha leaf cursor (cursor_keys root leaf (seen @ [h])) =
            keys_after sha leaf cursor (cursor_keys root leaf seen)"
          unfolding keys using Some by (auto simp: keys_after_def)
        then show ?thesis
          using slot_ok_skip [OF Cons.prems(2)] Some False by (simp add: rank_tuple_lt_score)
      qed
    qed
    moreover have "next_parent_loop sha root leaf ?cur rest ?best ?ba = (b, ba)"
      using Cons.prems(3) False by (simp add: Let_def)
    ultimately show ?thesis using Cons.IH [of "seen @ [h]" ?best ?ba] by simp
  qed
qed simp

lemma slot_ok_None: "slot_ok sha leaf seen S slot \<Longrightarrow> slot = None \<longleftrightarrow> S = {}"
  by (auto simp: slot_ok_def split: option.splits)

lemma slot_ok_Some:
  "slot_ok sha leaf seen S (Some c) \<Longrightarrow>
   fst c \<in> set seen \<and> hub_rank.least_of sha leaf S (pubkey_part (fst c))"
  by (cases c) (auto simp: slot_ok_def hub_rank.least_of_def)

lemma next_parent_spec:
  fixes sha root hubs leaf aft
  defines "K \<equiv> cursor_keys (pubkey_part root) (pubkey_part leaf) hubs"
    and "A \<equiv> keys_after sha (pubkey_part leaf) (map_option pubkey_part aft)
           (cursor_keys (pubkey_part root) (pubkey_part leaf) hubs)"
  shows "next_parent_candidate sha root hubs leaf aft = None \<longleftrightarrow> K = {}"
    and "next_parent_candidate sha root hubs leaf aft = Some c \<Longrightarrow>
      c \<in> set hubs \<and> hub_rank.least_of sha (pubkey_part leaf) (if A = {} then K else A) (pubkey_part c)"
proof -
  let ?leaf = "pubkey_part leaf" and ?root = "pubkey_part root"
  obtain b ba where run: "next_parent_loop sha ?root ?leaf
      (map_option (\<lambda>k. (k, tree_rendezvous_score sha ?leaf k)) (map_option pubkey_part aft)) hubs
      None None = (b, ba)"
    by fastforce
  have slots: "slot_ok sha ?leaf hubs K b" "slot_ok sha ?leaf hubs A ba"
    using next_parent_loop_slots [of sha ?leaf "[]" ?root None "map_option pubkey_part aft" None hubs b ba] run
    by (simp_all add: K_def A_def slot_ok_def cursor_keys_def keys_after_def split: option.split)
  have eq: "next_parent_candidate sha root hubs leaf aft =
      map_option fst (case ba of Some c \<Rightarrow> Some c | None \<Rightarrow> b)"
    using run by (simp add: next_parent_candidate_def option.map_comp comp_def)
  have sub: "A \<subseteq> K" by (auto simp: A_def K_def keys_after_def split: option.splits)
  note empties = slot_ok_None [OF slots(1)] slot_ok_None [OF slots(2)]
  show "next_parent_candidate sha root hubs leaf aft = None \<longleftrightarrow> K = {}"
    using empties sub by (auto simp: eq split: option.splits)
  show "c \<in> set hubs \<and> hub_rank.least_of sha ?leaf (if A = {} then K else A) (pubkey_part c)"
    if "next_parent_candidate sha root hubs leaf aft = Some c"
  proof (cases ba)
    case None
    then have "map_option fst b = Some c" using that eq by simp
    then obtain d where "b = Some d" "c = fst d" by (cases b) simp_all
    then show ?thesis using slot_ok_Some slots(1) None empties by simp
  next
    case (Some d)
    then have "c = fst d" using that eq by simp
    then show ?thesis using slot_ok_Some slots(2) Some empties by simp
  qed
qed

section \<open>Route lists\<close>

definition hops_ok :: "string list \<Rightarrow> nat \<Rightarrow> string list \<Rightarrow> bool" where
  "hops_ok connected limit hops \<longleftrightarrow>
     length hops \<le> limit \<and> set hops \<subseteq> set connected \<and> distinct (map pubkey_part hops)"

lemma connected_spelling_Some:
  assumes "connected_spelling key connected = Some peer"
  shows "peer \<in> set connected" "pubkey_part peer = key"
  using assms spelling_in [of key connected]
  by (auto simp: connected_spelling_def list_ex_key_iff split: if_splits)

lemma hops_ok_single: "\<lbrakk>connected_spelling key connected = Some peer; 0 < limit\<rbrakk> \<Longrightarrow> hops_ok connected limit [peer]"
  using connected_spelling_Some by (simp add: hops_ok_def)

lemma map_filter_spelling:
  assumes "distinct (map rh_key cands)"
  shows "set (List.map_filter (\<lambda>c. connected_spelling (rh_key c) connected) cands) \<subseteq> set connected"
    and "distinct (map pubkey_part (List.map_filter (\<lambda>c. connected_spelling (rh_key c) connected) cands))"
    and "length (List.map_filter (\<lambda>c. connected_spelling (rh_key c) connected) cands) \<le> length cands"
    and "pubkey_part ` set (List.map_filter (\<lambda>c. connected_spelling (rh_key c) connected) cands) \<subseteq>
      rh_key ` set cands"
  using assms
  by (induction cands)
     (auto simp: List.map_filter_simps dest: connected_spelling_Some split: option.splits,
      metis connected_spelling_Some(2) image_eqI subset_iff)

lemma append_ranked_ok:
  "distinct (map rh_key cands) \<Longrightarrow> hops_ok connected limit (append_ranked_connected cands connected limit)"
  using map_filter_spelling [of "take limit cands" connected]
  by (auto simp: hops_ok_def append_ranked_connected_def distinct_take simp flip: take_map)

lemma connected_hubs_ok:
  assumes "distinct (map rh_key cands)" "hops_ok connected limit result" "length result < limit"
    and "rh_key ` set cands \<inter> pubkey_part ` set result = {}"
  shows "hops_ok connected limit (connected_hubs_loop self_key connected limit cands result)"
  using assms
proof (induction cands arbitrary: result)
  case (Cons c cands)
  show ?case
  proof (cases "rh_key c = pubkey_part self_key \<or> connected_spelling (rh_key c) connected = None")
    case True
    then show ?thesis using Cons by auto
  next
    case False
    then obtain peer where peer: "connected_spelling (rh_key c) connected = Some peer" by blast
    note p = connected_spelling_Some [OF peer]
    have "hops_ok connected limit (result @ [peer])"
      using Cons.prems p by (auto simp: hops_ok_def)
    moreover have "rh_key ` set cands \<inter> pubkey_part ` set (result @ [peer]) = {}"
      using Cons.prems(1,4) p(2) by auto
    ultimately show ?thesis using Cons.IH [of "result @ [peer]"] Cons.prems False peer by auto
  qed
qed simp

lemma ranked_connected_distinct:
  "distinct (map rh_key (ranked_connected_candidates sha sel leaf connected limit))"
  using ranked_candidates_scan_top hub_rank.sorted_distinct
  unfolding ranked_connected_candidates_def top_spec_def by blast

lemma root_or_hubs_ok:
  "0 < limit \<Longrightarrow> hops_ok connected limit (root_or_connected_hubs sha sel self_key connected limit)"
  unfolding root_or_connected_hubs_def
  using connected_hubs_ok [OF ranked_connected_distinct, of connected limit "[]"]
  by (auto simp: hops_ok_def hops_ok_single split: option.split dest: connected_spelling_Some)

lemma append_connected_single:
  "0 < limit \<Longrightarrow> hops_ok connected limit (append_connected [key] connected limit [])"
  by (auto simp: hops_ok_def Let_def split: option.split dest: connected_spelling_Some)

lemma hops_ok_direct:
  "\<lbrakk>0 < limit; hops_ok connected limit hops\<rbrakk> \<Longrightarrow>
   hops_ok connected limit
     (case (if direct then connected_spelling key connected else None) of Some peer \<Rightarrow> [peer] | None \<Rightarrow> hops)"
  by (auto simp: hops_ok_single split: option.split)

lemma tree_next_hops_ok: "hops_ok connected limit (tree_next_hops sha sel self_id dest connected limit)"
proof (cases "limit = 0 \<or> pubkey_part self_id = pubkey_part dest")
  case True
  then show ?thesis by (auto simp: tree_next_hops_def hops_ok_def)
next
  case False
  then have "0 < limit" by simp
  note facts = append_ranked_ok [OF ranked_connected_distinct] root_or_hubs_ok [OF this]
    append_connected_single [OF this] hops_ok_direct [OF this]
  have "hops_ok connected limit []" by (simp add: hops_ok_def)
  then show ?thesis
    using False unfolding tree_next_hops_def Let_def
    by (simp del: append_connected.simps add: facts)
qed

section \<open>Properties\<close>

text \<open>
  C14: Counting agrees with ranking. For a configuration without repeated hubs, the early-exit count
  that decides whether a hub is a parent candidate of a leaf holds exactly when the hub is among
  the ranked candidates of the leaf, the best primary and backups by rendezvous rank.
\<close>

theorem candidate_contains_is_ranked:
  assumes "unique_hubs sel"
  shows "candidate_contains sha sel leaf hub \<longleftrightarrow>
    list_ex (\<lambda>c. rh_key c = pubkey_part hub) (ranked_candidates sha sel leaf (candidate_limit sel))"
  using candidate_contains_ranked [OF assms] by (simp add: list_ex_key_iff)

definition sample_tree :: tree_selector where
  "sample_tree = \<lparr>ts_root = ''r'', ts_hubs = [''b'', ''c''], ts_backup_candidates = 0\<rparr>"

lemma sample_tree_unique: "unique_hubs sample_tree"
  by (simp add: unique_hubs_def sample_tree_def canonical_key_def)

theorem candidate_contains_is_ranked_witness:
  "candidate_contains (\<lambda>bs. bs) sample_tree ''s'' ''c'' \<longleftrightarrow>
   list_ex (\<lambda>c. rh_key c = ''c'') (ranked_candidates (\<lambda>bs. bs) sample_tree ''s'' 1)"
  using candidate_contains_is_ranked [OF sample_tree_unique, of "\<lambda>bs. bs" "''s''" "''c''"]
  by (simp add: candidate_limit_def sample_tree_def canonical_key_def)

text \<open>
  In the routing tree a member prefers exactly the peers it shares an edge with, for a
  configuration without repeated hubs and identifiers whose key part is stable (as canonical
  identifiers and their display forms are).
\<close>

theorem tree_preferred_iff_edge:
  assumes "unique_hubs sel" "stable_id self_id" "\<forall>p \<in> set peers. stable_id p"
  shows "tree_select_preferred sha sel self_id peers =
    {p \<in> set peers. tree_edge sha sel self_id p all}"
proof -
  have "p \<in> tree_select_preferred sha sel self_id peers \<longleftrightarrow> tree_edge sha sel self_id p all"
    if p: "p \<in> set peers" for p
  proof -
    have st: "stable_id p" using assms(3) p by blast
    have flip: "list_ex (\<lambda>c. rh_key c = pubkey_part p) (ranked_candidates sha sel self_id
        (candidate_limit sel)) \<longleftrightarrow> candidate_contains sha sel self_id p"
      using candidate_contains_ranked [OF assms(1)] by (simp add: list_ex_key_iff)
    have hub: "candidate_contains sha sel self_id p \<Longrightarrow> tree_is_hub sel p"
      using candidate_contains_count [OF assms(1)] by (simp add: tree_is_hub_iff)
    have same: "tree_is_root sel self_id = tree_is_root sel p"
      "tree_is_hub sel self_id = tree_is_hub sel p" if "pubkey_part p = pubkey_part self_id"
      using that by (simp_all add: tree_is_root_def tree_is_hub_iff)
    have excl: "\<not> (tree_is_root sel p \<and> tree_is_hub sel p)"
      "\<not> (tree_is_root sel self_id \<and> tree_is_hub sel self_id)"
      using root_not_hub stable_simps(1) assms(2) st by blast+
    show ?thesis
      unfolding tree_edge_stable [OF assms(2) st]
      using p flip hub same excl
      by (auto simp: tree_select_preferred_def Let_def stable_simps [OF assms(2)] stable_simps [OF st])
  qed
  moreover have "tree_select_preferred sha sel self_id peers \<subseteq> set peers"
    by (auto simp: tree_select_preferred_def Let_def)
  ultimately show ?thesis by blast
qed

lemma stable_canonical: "canonical_key d \<Longrightarrow> stable_id d"
  by (simp add: stable_id_def)

theorem tree_preferred_iff_edge_witness:
  "tree_select_preferred (\<lambda>bs. bs) sample_tree ''r'' [''b'', ''s''] = {''b''}"
proof -
  have st: "stable_id ''r''" "\<forall>p \<in> set [''b'', ''s'']. stable_id p"
    by (simp_all add: stable_canonical canonical_key_def)
  have eq: "tree_select_preferred (\<lambda>bs. bs) sample_tree ''r'' [''b'', ''s''] =
      {p \<in> set [''b'', ''s'']. tree_edge (\<lambda>bs. bs) sample_tree ''r'' p []}"
    by (rule tree_preferred_iff_edge [OF sample_tree_unique st])
  show ?thesis
    unfolding eq
    by (auto simp: tree_edge_def tree_is_root_def tree_is_hub_def sample_tree_def Let_def
        canonical_key_def)
qed

fun tree_walk :: "(byte list \<Rightarrow> byte list) \<Rightarrow> tree_selector \<Rightarrow> string list \<Rightarrow> bool" where
  "tree_walk sha sel (x # y # rest) = (tree_edge sha sel x y [] \<and> tree_walk sha sel (y # rest))"
| "tree_walk sha sel _ = True"

definition tree_flood_ttl :: nat where
  "tree_flood_ttl = 4"

lemma tree_edge_sym: "tree_edge sha sel a b all = tree_edge sha sel b a all"
  by (auto simp: tree_edge_def Let_def)

lemma tree_walk_snoc:
  "tree_walk sha sel (xs @ [y, z]) \<longleftrightarrow> tree_walk sha sel (xs @ [y]) \<and> tree_edge sha sel y z []"
proof (induction xs)
  case (Cons x xs)
  then show ?case by (cases xs) auto
qed simp

lemma tree_walk_rev: "tree_walk sha sel (rev xs) = tree_walk sha sel xs"
proof (induction xs)
  case (Cons x xs)
  show ?case
  proof (cases xs)
    case (Cons y ys)
    then have "tree_walk sha sel (rev (x # xs)) = tree_walk sha sel (rev ys @ [y, x])" by simp
    also have "\<dots> \<longleftrightarrow> tree_walk sha sel (rev xs) \<and> tree_edge sha sel y x []"
      using Cons by (simp add: tree_walk_snoc)
    finally show ?thesis using Cons.IH Cons tree_edge_sym by (metis (no_types) tree_walk.simps(1) \<open>tree_walk sha sel (rev xs) = tree_walk sha sel xs\<close>)
  qed simp
qed simp

lemma leaf_has_parent:
  assumes "unique_hubs sel" "parent_keys sel \<noteq> {}" "\<forall>h \<in> set (ts_hubs sel). stable_id h"
    and "stable_id x" "\<not> tree_is_root sel x" "\<not> tree_is_hub sel x"
  obtains h where "h \<in> set (ts_hubs sel)" "tree_is_hub sel h" "tree_edge sha sel x h []"
proof -
  let ?cands = "ranked_candidates sha sel x (candidate_limit sel)"
  have top: "top_spec (hub_key_lt sha (pubkey_part x)) (candidate_limit sel) (parent_keys sel)
      (map rh_key ?cands)"
    by (rule ranked_candidates_top)
  have "0 < card (parent_keys sel)" using assms(2) by (simp add: card_gt_0_iff)
  moreover have "ts_hubs sel \<noteq> []" using assms(2) by (auto simp: parent_keys_def)
  ultimately have "length ?cands \<noteq> 0" using top by (auto simp: top_spec_def candidate_limit_def)
  then obtain k where k: "k \<in> rh_key ` set ?cands" by (cases ?cands) auto
  then have kp: "k \<in> parent_keys sel" using top by (auto simp: top_spec_def)
  then obtain h where h: "h \<in> set (ts_hubs sel)" "k = pubkey_part h" by (auto simp: parent_keys_def)
  then have "tree_is_hub sel h" using kp by (simp add: tree_is_hub_iff)
  moreover have "candidate_contains sha sel x h"
    using candidate_contains_ranked [OF assms(1)] k h by simp
  ultimately show ?thesis
    using that h assms tree_edge_stable [OF assms(4), of h sha sel "[]"] by blast
qed

lemma hub_within_one:
  assumes "unique_hubs sel" "parent_keys sel \<noteq> {}" "\<forall>h \<in> set (ts_hubs sel). stable_id h"
    and x: "stable_id x"
  shows "\<exists>w. w \<noteq> [] \<and> hd w = x \<and> tree_is_hub sel (last w) \<and> stable_id (last w) \<and>
    tree_walk sha sel w \<and> length w \<le> 2"
proof (cases "tree_is_hub sel x")
  case True
  then show ?thesis using x by (intro exI [of _ "[x]"]) simp
next
  case nh: False
  obtain h where h: "h \<in> set (ts_hubs sel)" "tree_is_hub sel h" "tree_edge sha sel x h []"
  proof (cases "tree_is_root sel x")
    case True
    obtain h where "h \<in> set (ts_hubs sel)" "tree_is_hub sel h"
      using assms(2) by (auto simp: parent_keys_def tree_is_hub_iff)
    then show ?thesis using that True tree_edge_stable [OF x, of h] assms(3) by blast
  next
    case False
    show ?thesis using leaf_has_parent [OF assms(1-3) x False nh] that by blast
  qed
  then show ?thesis using assms(3) by (intro exI [of _ "[x, h]"]) simp
qed

lemma tree_walk_join:
  "\<lbrakk>tree_walk sha sel (xs @ [m]); tree_walk sha sel (m # ys)\<rbrakk> \<Longrightarrow> tree_walk sha sel (xs @ [m] @ ys)"
proof (induction xs)
  case (Cons x xs)
  then show ?case by (cases xs) auto
qed simp

text \<open>
  C12: Any two members of the routing tree are joined by a walk of at most four edges, the hop
  budget of the mode, for a configuration with a usable hub, without repeated hubs and with stable
  identifiers.
\<close>

theorem tree_diameter:
  assumes "unique_hubs sel" "parent_keys sel \<noteq> {}" "\<forall>h \<in> set (ts_hubs sel). stable_id h"
    and "stable_id (ts_root sel)" "stable_id a" "stable_id b"
  shows "\<exists>walk. walk \<noteq> [] \<and> hd walk = a \<and> last walk = b \<and> tree_walk sha sel walk \<and>
    length walk \<le> tree_flood_ttl + 1"
proof -
  define R where "R = ts_root sel"
  have R: "tree_is_root sel R" "stable_id R" using assms(4) by (simp_all add: R_def tree_is_root_def)
  note up = hub_within_one [OF assms(1-3), of _ sha]
  obtain u where u: "u \<noteq> []" "hd u = a" "tree_is_hub sel (last u)" "stable_id (last u)"
    "tree_walk sha sel u" "length u \<le> 2" using up [OF assms(5)] by blast
  obtain v where v: "v \<noteq> []" "hd v = b" "tree_is_hub sel (last v)" "stable_id (last v)"
    "tree_walk sha sel v" "length v \<le> 2" using up [OF assms(6)] by blast
  have up_edge: "tree_edge sha sel (last u) R []"
    using tree_edge_stable [OF u(4) R(2)] u(3) R(1) by blast
  have down_edge: "tree_edge sha sel R (last v) []"
    using tree_edge_stable [OF R(2) v(4)] v(3) R(1) by blast
  have first: "tree_walk sha sel (u @ [R])"
    using tree_walk_snoc [of sha sel "butlast u" "last u" R] u up_edge
    by (metis append_Cons append_Nil append_assoc append_butlast_last_id)
  have second: "tree_walk sha sel (R # rev v)"
  proof -
    have "hd (rev v) = last v" using v(1) by (simp add: hd_rev)
    then obtain t where t: "rev v = last v # t" using v(1) by (metis Nil_is_rev_conv list.collapse)
    have "tree_walk sha sel (rev v)" using v(5) by (simp add: tree_walk_rev)
    then show ?thesis unfolding t using down_edge by simp
  qed
  let ?w = "u @ [R] @ rev v"
  have "tree_walk sha sel ?w" using tree_walk_join [OF first second] .
  moreover have "hd ?w = a" "last ?w = b" using u(1,2) v(1,2) by (simp_all add: last_rev)
  moreover have "length ?w \<le> tree_flood_ttl + 1" using u(6) v(6) by (simp add: tree_flood_ttl_def)
  ultimately show ?thesis using u(1) by (intro exI [of _ ?w]) auto
qed

theorem tree_diameter_witness:
  "\<exists>walk. walk \<noteq> [] \<and> hd walk = ''s'' \<and> last walk = ''t'' \<and>
     tree_walk (\<lambda>bs. bs) sample_tree walk \<and> length walk \<le> 5"
proof -
  have "parent_keys sample_tree \<noteq> {}"
    by (auto simp: parent_keys_def sample_tree_def tree_is_root_def canonical_key_def)
  moreover have "\<forall>h \<in> set (ts_hubs sample_tree). stable_id h" "stable_id (ts_root sample_tree)"
    "stable_id ''s''" "stable_id ''t''"
    by (auto simp: sample_tree_def canonical_key_def intro!: stable_canonical)
  ultimately show ?thesis
    using tree_diameter [OF sample_tree_unique, of "''s''" "''t''" "\<lambda>bs. bs"]
    by (simp add: tree_flood_ttl_def)
qed

text \<open>
  C13: The parent cursor goes round the ranking. Let the eligible hub keys (neither the root nor the
  leaf itself) be sorted by rendezvous rank for the leaf. Without a cursor the next candidate is
  the best; with the cursor at one of them it is the one that follows, and after the last it is
  the best again; the returned identifier is a configured one. There is no candidate exactly when
  no hub is eligible.
\<close>

theorem next_parent_round_robin:
  fixes sha root hubs leaf
  defines "ranking \<equiv> rank_sort (hub_key_lt sha (pubkey_part leaf))
    (remdups (filter (\<lambda>k. k \<noteq> pubkey_part root \<and> k \<noteq> pubkey_part leaf) (map pubkey_part hubs)))"
  shows "(next_parent_candidate sha root hubs leaf after = None \<longleftrightarrow> ranking = []) \<and>
    (\<forall>c. next_parent_candidate sha root hubs leaf after = Some c \<longrightarrow> c \<in> set hubs) \<and>
    (\<forall>c. next_parent_candidate sha root hubs leaf None = Some c \<longrightarrow> pubkey_part c = ranking ! 0) \<and>
    (\<forall>c cur i. next_parent_candidate sha root hubs leaf (Some cur) = Some c \<and> i < length ranking \<and>
       pubkey_part cur = ranking ! i \<longrightarrow>
       pubkey_part c = ranking ! (Suc i mod length ranking))"
proof -
  let ?leaf = "pubkey_part leaf" and ?root = "pubkey_part root"
  let ?lt = "hub_key_lt sha ?leaf"
  let ?K = "cursor_keys ?root ?leaf hubs"
  have K: "set ranking = ?K" by (auto simp: ranking_def cursor_keys_def)
  have sorted: "sorted_wrt ?lt ranking"
    unfolding ranking_def by (rule hub_rank.sorted_rank_sort) simp
  note spec = next_parent_spec [of sha root hubs leaf]
  have empty: "ranking = [] \<longleftrightarrow> ?K = {}" using K by (metis set_empty)
  have ne: "ranking \<noteq> []" if "next_parent_candidate sha root hubs leaf aft = Some c" for aft c
    using spec(1) [of aft] empty that by simp
  have first: "pubkey_part c = ranking ! 0"
    if "next_parent_candidate sha root hubs leaf None = Some c" for c
    using spec(2) [OF that] hub_rank.sorted_least [OF sorted ne [OF that]] K hub_rank.least_of_unique
    by (simp add: keys_after_def) blast
  have "pubkey_part c = ranking ! (Suc i mod length ranking)"
    if run: "next_parent_candidate sha root hubs leaf (Some cur) = Some c"
      and i: "i < length ranking" "pubkey_part cur = ranking ! i" for c cur i
  proof -
    have A: "keys_after sha ?leaf (Some (pubkey_part cur)) ?K = {y \<in> set ranking. ?lt (ranking ! i) y}"
      using K i by (simp add: keys_after_def)
    show ?thesis
    proof (cases "Suc i = length ranking")
      case True
      then have "hub_rank.least_of sha ?leaf (set ranking) (pubkey_part c)"
        using spec(2) [OF run] hub_rank.sorted_next(2) [OF sorted i(1) True] K
        by (simp only: option.map A simp_thms if_True)
      then show ?thesis
        using hub_rank.sorted_least [OF sorted ne [OF run]] hub_rank.least_of_unique True by fastforce
    next
      case False
      then have less: "Suc i < length ranking" using i by simp
      note nxt = hub_rank.sorted_next(1) [OF sorted i(1) less]
      then have "{y \<in> set ranking. ?lt (ranking ! i) y} \<noteq> {}"
        unfolding hub_rank.least_of_def by blast
      then have "hub_rank.least_of sha ?leaf {y \<in> set ranking. ?lt (ranking ! i) y} (pubkey_part c)"
        using spec(2) [OF run] by (simp only: option.map A if_False)
      then have "pubkey_part c = ranking ! Suc i" using nxt hub_rank.least_of_unique by blast
      then show ?thesis using less by simp
    qed
  qed
  then show ?thesis using spec(1) [of after] spec(2) [of after] empty first by blast
qed

lemma sample_ranking:
  "rank_sort (hub_key_lt (\<lambda>bs. bs) (pubkey_part ''s''))
     (remdups (filter (\<lambda>k. k \<noteq> pubkey_part ''r'' \<and> k \<noteq> pubkey_part ''s'')
        (map pubkey_part [''b'', ''c'']))) = [''c'', ''b'']"
  by (simp add: canonical_key_def rank_sort_def rank_insert_def hub_key_lt_def rendezvous_score_def
      string_bytes_def u64_from_le_bytes_def of_char_def)

theorem next_parent_round_robin_witness:
  "\<exists>c. next_parent_candidate (\<lambda>bs. bs) ''r'' [''b'', ''c''] ''s'' (Some ''b'') = Some c \<and>
     pubkey_part c = ''c''"
proof -
  note round = next_parent_round_robin [of "\<lambda>bs. bs" "''r''" "[''b'', ''c'']" "''s''" "Some ''b''",
      unfolded sample_ranking]
  then obtain c where c: "next_parent_candidate (\<lambda>bs. bs) ''r'' [''b'', ''c''] ''s'' (Some ''b'') = Some c"
    by (cases "next_parent_candidate (\<lambda>bs. bs) ''r'' [''b'', ''c''] ''s'' (Some ''b'')") auto
  have "1 < length [''c'', ''b'']" "pubkey_part ''b'' = [''c'', ''b''] ! 1"
    by (simp_all add: canonical_key_def)
  with round c have "pubkey_part c = [''c'', ''b''] ! (Suc 1 mod length [''c'', ''b''])" by blast
  with c show ?thesis by simp
qed

end
