(* ===== verification/Topology_Ring.thy ===== *)
theory Topology_Ring
  imports Ranked_Selection
begin

text \<open>
  The ring selector (\<open>topology/ring.rs\<close>): members sorted as a ring, the two neighbours on either
  side plus the closest others up to the configured number, edges as the union of both ends'
  preferences, and greedy next hops by common key prefix. A \<open>HashSet\<close> is a list without
  repetition. The lemmas show how many peers are preferred, that neighbours on the ring always share
  an edge, that edges depend on the membership only and not on its order, and that the bounded scan
  for next hops equals its reference selection.
\<close>

record ring_selector =
  rg_n_preferred :: u32

function ring_fill :: "string list \<Rightarrow> nat \<Rightarrow> string \<Rightarrow> nat \<Rightarrow> nat \<Rightarrow> string list \<Rightarrow> string list" where
  "ring_fill ring my_idx self_key n dist preferred =
     (if length preferred < n \<and> dist < length ring then
        let cw = ring ! ((my_idx + dist) mod length ring);
            preferred1 = (if cw \<noteq> self_key \<and> cw \<notin> set preferred then preferred @ [cw] else preferred) in
        if cw \<noteq> self_key \<and> cw \<notin> set preferred \<and> length preferred1 \<ge> n then preferred1
        else
          let ccw = ring ! ((my_idx + length ring - dist) mod length ring);
              preferred2 =
                (if ccw \<noteq> self_key \<and> ccw \<notin> set preferred1 then preferred1 @ [ccw] else preferred1)
          in ring_fill ring my_idx self_key n (dist + 1) preferred2
      else preferred)"
  by pat_completeness auto
termination
  by (relation "measure (\<lambda>(ring, _, _, _, dist, _). length ring - dist)") auto

definition ring_position :: "string list \<Rightarrow> string \<Rightarrow> nat" where
  "ring_position ring self_key = length (takeWhile (\<lambda>s. s \<noteq> self_key) ring)"

definition select_ring_neighbors :: "string \<Rightarrow> string list \<Rightarrow> u32 \<Rightarrow> string list" where
  "select_ring_neighbors self_key peers n_preferred =
     (let n = unat n_preferred in
      if peers = [] then []
      else if length peers \<le> n then remdups peers
      else
        let ring = bset_insert self_key (bset_of_list peers);
            my_idx = ring_position ring self_key;
            ring_len = length ring;
            preferred =
              (if ring_len > 1
               then List.insert (ring ! ((my_idx + ring_len - 1) mod ring_len))
                      [ring ! ((my_idx + 1) mod ring_len)]
               else [])
        in ring_fill ring my_idx self_key n 2 preferred)"

definition ring_others :: "string \<Rightarrow> string \<Rightarrow> string list \<Rightarrow> string \<Rightarrow> string list" where
  "ring_others a b all me =
     foldl (\<lambda>v extra. if extra \<noteq> me \<and> extra \<notin> set v then v @ [extra] else v)
       (filter (\<lambda>x. x \<noteq> me) all) [a, b]"

definition ring_edge :: "ring_selector \<Rightarrow> string \<Rightarrow> string \<Rightarrow> string list \<Rightarrow> bool" where
  "ring_edge sel a b all \<longleftrightarrow>
     b \<in> set (select_ring_neighbors a (ring_others a b all a) (rg_n_preferred sel)) \<or>
     a \<in> set (select_ring_neighbors b (ring_others a b all b) (rg_n_preferred sel))"

definition ring_select_preferred :: "ring_selector \<Rightarrow> string \<Rightarrow> string list \<Rightarrow> string set" where
  "ring_select_preferred sel self_id peer_ids =
     set (select_ring_neighbors self_id peer_ids (rg_n_preferred sel))"

definition ring_distance :: "string \<Rightarrow> string \<Rightarrow> nat" where
  "ring_distance a b =
     (let common = length (takeWhile (\<lambda>(x, y). x = y) (zip a b));
          max_len = max (max (length a) (length b)) 1
      in max_len - min common max_len)"

record ranked_hop =
  hop_distance :: nat
  hop_key :: string
  hop_peer :: string

definition compare_ranked_hops_lt :: "ranked_hop \<Rightarrow> ranked_hop \<Rightarrow> bool" where
  "compare_ranked_hops_lt left right \<longleftrightarrow>
     hop_distance left < hop_distance right \<or>
     hop_distance left = hop_distance right \<and>
       (hop_key left < hop_key right \<or>
        hop_key left = hop_key right \<and> hop_peer left < hop_peer right)"

fun worst_hop :: "ranked_hop list \<Rightarrow> nat \<Rightarrow> nat list \<Rightarrow> nat" where
  "worst_hop candidates worst [] = worst"
| "worst_hop candidates worst (index # rest) =
     worst_hop candidates
       (if compare_ranked_hops_lt (candidates ! worst) (candidates ! index) then index else worst) rest"

fun ring_hop_scan :: "string \<Rightarrow> string \<Rightarrow> nat \<Rightarrow> string list \<Rightarrow> ranked_hop list \<Rightarrow> ranked_hop list" where
  "ring_hop_scan self_key dest_key wanted [] candidates = candidates"
| "ring_hop_scan self_key dest_key wanted (peer # rest) candidates =
     (let key = pubkey_part peer in
      if key = self_key then ring_hop_scan self_key dest_key wanted rest candidates
      else
        let candidate =
              \<lparr>hop_distance = ring_distance key dest_key, hop_key = key, hop_peer = peer\<rparr> in
        if list_ex (\<lambda>existing. hop_key existing = key) candidates
        then ring_hop_scan self_key dest_key wanted rest
               (update_first (\<lambda>existing. hop_key existing = key)
                  (\<lambda>existing. if peer < hop_peer existing then existing\<lparr>hop_peer := peer\<rparr> else existing)
                  candidates)
        else if length candidates < wanted
        then ring_hop_scan self_key dest_key wanted rest (candidates @ [candidate])
        else
          let worst = worst_hop candidates 0 [1..<length candidates] in
          ring_hop_scan self_key dest_key wanted rest
            (if compare_ranked_hops_lt candidate (candidates ! worst)
             then candidates[worst := candidate] else candidates))"

definition ring_next_hops ::
    "ring_selector \<Rightarrow> string \<Rightarrow> string \<Rightarrow> string list \<Rightarrow> nat \<Rightarrow> string list" where
  "ring_next_hops sel self_id dest connected limit =
     (let wanted = min limit (unat (rg_n_preferred sel)) in
      if wanted = 0 then []
      else map hop_peer
             (rank_sort compare_ranked_hops_lt
                (ring_hop_scan (pubkey_part self_id) (pubkey_part dest) wanted connected [])))"

declare ring_fill.simps [simp del]

section \<open>Preferred peers\<close>

lemma ring_fill_turn:
  assumes "length p < n" "dist < length ring" "distinct p"
  obtains p' where "distinct p'" "set p \<subseteq> set p'" "set p' \<subseteq> set p \<union> (set ring - {self_key})"
    "length p' \<le> n"
    "ring_fill ring i self_key n dist p = p' \<and> length p' = n \<or>
     ring_fill ring i self_key n dist p = ring_fill ring i self_key n (dist + 1) p' \<and>
       ring ! ((i + dist) mod length ring) \<in> insert self_key (set p')"
proof -
  let ?cw = "ring ! ((i + dist) mod length ring)"
  let ?ccw = "ring ! ((i + length ring - dist) mod length ring)"
  define p1 where "p1 = (if ?cw \<noteq> self_key \<and> ?cw \<notin> set p then p @ [?cw] else p)"
  define p2 where "p2 = (if ?ccw \<noteq> self_key \<and> ?ccw \<notin> set p1 then p1 @ [?ccw] else p1)"
  have "x mod length ring < length ring" for x using assms(2) by (intro mod_less_divisor) linarith
  then have mem: "?cw \<in> set ring" "?ccw \<in> set ring" by simp_all
  have p1: "distinct p1" "set p \<subseteq> set p1" "set p1 \<subseteq> set p \<union> (set ring - {self_key})"
    "length p1 \<le> n" "?cw \<in> insert self_key (set p1)"
    using assms mem by (auto simp: p1_def)
  show ?thesis
  proof (cases "?cw \<noteq> self_key \<and> ?cw \<notin> set p \<and> length p1 \<ge> n")
    case True
    then have p1e: "p1 = p @ [?cw]" and len: "n \<le> Suc (length p)" and new: "?cw \<noteq> self_key" "?cw \<notin> set p"
      by (auto simp: p1_def)
    have "ring_fill ring i self_key n dist p = p1"
      using assms len new by (subst ring_fill.simps) (simp add: Let_def p1e)
    then show ?thesis using that [of p1] p1 True by simp
  next
    case False
    have "ring_fill ring i self_key n dist p = ring_fill ring i self_key n (dist + 1) p2"
      by (subst ring_fill.simps)
         (simp only: assms simp_thms if_True False Let_def p1_def [symmetric] p2_def [symmetric] if_False)
    moreover have "length p1 < n" using False assms p1(4) by (auto simp: p1_def split: if_splits)
    then have "distinct p2" "set p \<subseteq> set p2" "set p2 \<subseteq> set p \<union> (set ring - {self_key})"
      "length p2 \<le> n" "?cw \<in> insert self_key (set p2)"
      using p1 mem by (auto simp: p2_def)
    ultimately show ?thesis using that [of p2] by blast
  qed
qed

lemma ring_fill_keeps:
  assumes "distinct p"
  shows "distinct (ring_fill ring i self_key n dist p) \<and>
    set p \<subseteq> set (ring_fill ring i self_key n dist p) \<and>
    length (ring_fill ring i self_key n dist p) \<le> max n (length p) \<and>
    set (ring_fill ring i self_key n dist p) \<subseteq> set p \<union> (set ring - {self_key})"
  using assms
proof (induction "length ring - dist" arbitrary: dist p rule: less_induct)
  case less
  show ?case
  proof (cases "length p < n \<and> dist < length ring")
    case False
    then have "ring_fill ring i self_key n dist p = p" by (subst ring_fill.simps) auto
    then show ?thesis using less.prems by simp
  next
    case True
    obtain p' where p': "distinct p'" "set p \<subseteq> set p'" "set p' \<subseteq> set p \<union> (set ring - {self_key})"
      "length p' \<le> n"
      and step: "ring_fill ring i self_key n dist p = p' \<and> length p' = n \<or>
        ring_fill ring i self_key n dist p = ring_fill ring i self_key n (dist + 1) p' \<and>
          ring ! ((i + dist) mod length ring) \<in> insert self_key (set p')"
      using ring_fill_turn [of p n dist ring self_key i] True less.prems by metis
    have IH: "distinct (ring_fill ring i self_key n (dist + 1) p') \<and>
        set p' \<subseteq> set (ring_fill ring i self_key n (dist + 1) p') \<and>
        length (ring_fill ring i self_key n (dist + 1) p') \<le> max n (length p') \<and>
        set (ring_fill ring i self_key n (dist + 1) p') \<subseteq> set p' \<union> (set ring - {self_key})"
      using True p'(1) by (intro less.hyps) auto
    from step consider "ring_fill ring i self_key n dist p = p'"
      | "ring_fill ring i self_key n dist p = ring_fill ring i self_key n (dist + 1) p'"
      by blast
    then show ?thesis
    proof cases
      case 1
      then show ?thesis using p' by simp
    next
      case 2
      have "set (ring_fill ring i self_key n (dist + 1) p') \<subseteq> set p \<union> (set ring - {self_key})"
        using IH p'(3) by auto
      moreover have "set p \<subseteq> set (ring_fill ring i self_key n (dist + 1) p')" using IH p'(2) by auto
      moreover have "length (ring_fill ring i self_key n (dist + 1) p') \<le> max n (length p)"
        using IH p'(4) by linarith
      ultimately show ?thesis using IH by (simp only: 2 simp_thms)
    qed
  qed
qed

lemma ring_fill_covers:
  assumes "distinct p"
    and "\<And>d. \<lbrakk>1 \<le> d; d < dist\<rbrakk> \<Longrightarrow> ring ! ((i + d) mod length ring) \<in> insert self_key (set p)"
  shows "n \<le> length (ring_fill ring i self_key n dist p) \<or>
    (\<forall>d. 1 \<le> d \<and> d < length ring \<longrightarrow>
       ring ! ((i + d) mod length ring) \<in> insert self_key (set (ring_fill ring i self_key n dist p)))"
  using assms
proof (induction "length ring - dist" arbitrary: dist p rule: less_induct)
  case less
  show ?case
  proof (cases "length p < n \<and> dist < length ring")
    case False
    then have "ring_fill ring i self_key n dist p = p" by (subst ring_fill.simps) auto
    then show ?thesis using less.prems(2) False by (metis less_le_trans not_less)
  next
    case True
    obtain p' where p': "distinct p'" "set p \<subseteq> set p'"
      and step: "ring_fill ring i self_key n dist p = p' \<and> length p' = n \<or>
        ring_fill ring i self_key n dist p = ring_fill ring i self_key n (dist + 1) p' \<and>
          ring ! ((i + dist) mod length ring) \<in> insert self_key (set p')"
      using ring_fill_turn [of p n dist ring self_key i] True less.prems(1) by metis
    show ?thesis
    proof (cases "ring_fill ring i self_key n dist p = p' \<and> length p' = n")
      case False
      then have "ring ! ((i + d) mod length ring) \<in> insert self_key (set p')"
        if "1 \<le> d" "d < dist + 1" for d
        using that less.prems(2) [of d] p'(2) step by (cases "d = dist") auto
      moreover have "length ring - (dist + 1) < length ring - dist" using True by linarith
      ultimately have "n \<le> length (ring_fill ring i self_key n (dist + 1) p') \<or>
        (\<forall>d. 1 \<le> d \<and> d < length ring \<longrightarrow> ring ! ((i + d) mod length ring) \<in>
           insert self_key (set (ring_fill ring i self_key n (dist + 1) p')))"
        using less.hyps p'(1) by blast
      then show ?thesis using False step by metis
    qed simp
  qed
qed

lemma ring_position_nth:
  assumes "self_key \<in> set ring"
  shows "ring_position ring self_key < length ring" "ring ! ring_position ring self_key = self_key"
proof -
  show less: "ring_position ring self_key < length ring"
  proof (rule ccontr)
    assume "\<not> ring_position ring self_key < length ring"
    then have "length (takeWhile (\<lambda>s. s \<noteq> self_key) ring) = length ring"
      using length_takeWhile_le [of "\<lambda>s. s \<noteq> self_key" ring] by (simp add: ring_position_def)
    then have "takeWhile (\<lambda>s. s \<noteq> self_key) ring = ring" by (metis takeWhile_eq_take take_all order_refl)
    then show False using assms by (metis set_takeWhileD)
  qed
  then show "ring ! ring_position ring self_key = self_key"
    unfolding ring_position_def using nth_length_takeWhile [of "\<lambda>s. s \<noteq> self_key" ring] by simp
qed

lemma ring_position_eq:
  assumes "distinct ring" "j < length ring"
  shows "ring_position ring (ring ! j) = j"
  using assms ring_position_nth [of "ring ! j" ring] by (simp add: nth_eq_iff_index_eq)

lemma ring_offset:
  assumes "i < (m :: nat)" "j < m" "j \<noteq> i"
  obtains d where "1 \<le> d" "d < m" "(i + d) mod m = j"
proof (cases "i < j")
  case True
  then show ?thesis using that [of "j - i"] assms by simp
next
  case False
  then have "i + (m - i + j) = m + j" "m - i + j < m" using assms by simp_all
  then show ?thesis using that [of "m - i + j"] assms by simp
qed

definition ring_of :: "string \<Rightarrow> string list \<Rightarrow> string list" where
  "ring_of self_key peers = bset_insert self_key (bset_of_list peers)"

lemma ring_of_facts:
  "bset_wf (ring_of self_key peers)" "set (ring_of self_key peers) = insert self_key (set peers)"
  "distinct (ring_of self_key peers)"
  by (simp_all add: ring_of_def bset_wf_distinct)

lemma length_ring_of:
  assumes "distinct peers" "self_key \<notin> set peers"
  shows "length (ring_of self_key peers) = Suc (length peers)"
  using distinct_card [OF ring_of_facts(3), of self_key peers] distinct_card [OF assms(1)] assms(2)
  by (simp add: ring_of_facts(2))

definition neighbours :: "string list \<Rightarrow> nat \<Rightarrow> string list" where
  "neighbours ring i =
     List.insert (ring ! ((i + length ring - 1) mod length ring)) [ring ! ((i + 1) mod length ring)]"

lemma neighbours_facts:
  assumes "distinct ring" "i < length ring" "1 < length ring"
  shows "distinct (neighbours ring i)" "set (neighbours ring i) \<subseteq> set ring - {ring ! i}"
    "length (neighbours ring i) = min 2 (length ring - 1)"
proof -
  let ?m = "length ring"
  have succ: "(i + 1) mod ?m < ?m" and pred: "(i + ?m - 1) mod ?m < ?m"
    using assms by (intro mod_less_divisor; linarith)+
  have succ_ne: "(i + 1) mod ?m \<noteq> i"
    using assms by (cases "i + 1 = ?m") auto
  have pred_eq: "(i + ?m - 1) mod ?m = (if i = 0 then ?m - 1 else i - 1)"
  proof (cases "i = 0")
    case False
    then have "i + ?m - 1 = (i - 1) + ?m" by simp
    then show ?thesis using assms False by (simp del: add_diff_assoc2)
  qed (use assms in simp)
  have pred_ne: "(i + ?m - 1) mod ?m \<noteq> i" using pred_eq assms by auto
  have both: "(i + 1) mod ?m = (i + ?m - 1) mod ?m \<longleftrightarrow> ?m = 2"
    unfolding pred_eq using assms by (cases "i + 1 = ?m") auto
  show "distinct (neighbours ring i)" by (simp add: neighbours_def)
  show "set (neighbours ring i) \<subseteq> set ring - {ring ! i}"
    using succ pred succ_ne pred_ne assms(1,2)
    by (auto simp: neighbours_def nth_eq_iff_index_eq)
  show "length (neighbours ring i) = min 2 (length ring - 1)"
    using both succ pred assms(1,3)
    by (auto simp: neighbours_def List.insert_def nth_eq_iff_index_eq)
qed

lemma select_ring_eq:
  assumes "peers \<noteq> []" "unat n < length peers"
  shows "select_ring_neighbors self_key peers n =
    (let ring = ring_of self_key peers; i = ring_position ring self_key in
     ring_fill ring i self_key (unat n) 2 (if 1 < length ring then neighbours ring i else []))"
  using assms by (simp add: select_ring_neighbors_def ring_of_def neighbours_def Let_def)

lemma select_ring_facts:
  fixes n
  assumes "peers \<noteq> []" "distinct peers" "self_key \<notin> set peers"
  defines "P \<equiv> select_ring_neighbors self_key peers n"
  shows "distinct P" "set P \<subseteq> set peers"
    "length P = (if length peers \<le> unat n then length peers else max (unat n) (min 2 (length peers)))"
    "set (neighbours (ring_of self_key peers) (ring_position (ring_of self_key peers) self_key)) \<subseteq> set P"
proof -
  let ?ring = "ring_of self_key peers"
  let ?i = "ring_position ?ring self_key"
  let ?nb = "neighbours ?ring ?i"
  have i: "?i < length ?ring" "?ring ! ?i = self_key"
    using ring_position_nth [of self_key ?ring] by (simp_all add: ring_of_facts)
  have len: "length ?ring = Suc (length peers)" by (rule length_ring_of [OF assms(2,3)])
  then have two: "1 < length ?ring" using assms(1) by simp
  have others: "set ?ring - {self_key} = set peers" using assms(3) by (auto simp: ring_of_facts(2))
  note nb = neighbours_facts [OF ring_of_facts(3) i(1) two]
  have nb_sub: "set ?nb \<subseteq> set peers" using nb(2) i(2) others by simp
  have "distinct P \<and> set P \<subseteq> set peers \<and> set ?nb \<subseteq> set P \<and>
      length P = (if length peers \<le> unat n then length peers else max (unat n) (min 2 (length peers)))"
  proof (cases "length peers \<le> unat n")
    case True
    then have "P = remdups peers" using assms(1) by (simp add: P_def select_ring_neighbors_def)
    then show ?thesis using True nb_sub assms(2) by (simp add: distinct_remdups_id)
  next
    case False
    then have P: "P = ring_fill ?ring ?i self_key (unat n) 2 ?nb"
      using select_ring_eq [OF assms(1), of n self_key] two by (simp add: P_def Let_def)
    note keeps = ring_fill_keeps [OF nb(1), of ?ring ?i self_key "unat n" 2]
    have sub: "set P \<subseteq> set peers" using keeps nb_sub others unfolding P by auto
    have lower: "length ?nb \<le> length P"
      using keeps nb(1) unfolding P by (metis card_mono distinct_card List.finite_set)
    have "?ring ! ((?i + d) mod length ?ring) \<in> insert self_key (set ?nb)" if "1 \<le> d" "d < 2" for d
    proof -
      have "d = 1" using that by simp
      then show ?thesis by (simp add: neighbours_def)
    qed
    from ring_fill_covers [OF nb(1) this, where n = "unat n"]
    have "unat n \<le> length P"
    proof
      assume cover: "\<forall>d. 1 \<le> d \<and> d < length ?ring \<longrightarrow> ?ring ! ((?i + d) mod length ?ring) \<in>
        insert self_key (set (ring_fill ?ring ?i self_key (unat n) 2 ?nb))"
      have "set peers \<subseteq> set P"
      proof
        fix x assume x: "x \<in> set peers"
        then obtain j where j: "j < length ?ring" "?ring ! j = x"
          using ring_of_facts(2) by (metis in_set_conv_nth insertI2)
        moreover from j have "j \<noteq> ?i" using i x assms(3) by auto
        ultimately obtain d where "1 \<le> d" "d < length ?ring" "(?i + d) mod length ?ring = j"
          using ring_offset [OF i(1), of j] by blast
        then show "x \<in> set P" using cover j x assms(3) unfolding P by auto
      qed
      then have "length peers \<le> length P"
        using keeps assms(2) unfolding P by (metis card_mono distinct_card List.finite_set)
      then show ?thesis using False by simp
    next
      assume "unat n \<le> length (ring_fill ?ring ?i self_key (unat n) 2 ?nb)"
      then show ?thesis unfolding P .
    qed
    then show ?thesis using False keeps sub lower nb(3) len unfolding P by auto
  qed
  then show "distinct P" "set P \<subseteq> set peers" "set ?nb \<subseteq> set P"
    "length P = (if length peers \<le> unat n then length peers else max (unat n) (min 2 (length peers)))"
    by auto
qed

lemma select_ring_all:
  "zs = [] \<or> length zs \<le> unat n \<Longrightarrow> set (select_ring_neighbors self_key zs n) = set zs"
  by (elim disjE) (simp_all add: select_ring_neighbors_def Let_def)

lemma select_ring_cong:
  assumes "distinct xs" "distinct ys" "set xs = set ys"
  shows "set (select_ring_neighbors self_key xs n) = set (select_ring_neighbors self_key ys n)"
proof -
  have len: "length xs = length ys" using assms by (metis distinct_card)
  have ring: "ring_of self_key xs = ring_of self_key ys"
    using assms(3) by (intro bset_eqI) (simp_all add: ring_of_facts)
  show ?thesis
  proof (cases "xs = [] \<or> length xs \<le> unat n")
    case True
    then have "ys = [] \<or> length ys \<le> unat n" using len by auto
    then show ?thesis using True select_ring_all assms(3) by metis
  next
    case False
    then have "xs \<noteq> []" "unat n < length xs" "ys \<noteq> []" "unat n < length ys" using len by auto
    then show ?thesis by (simp add: select_ring_eq ring)
  qed
qed

section \<open>Edges\<close>

lemma ring_others_facts:
  assumes "me = a \<or> me = b"
  shows "ring_others a b all me = ring_others b a all me"
    "set (ring_others a b all me) = insert a (insert b (set all)) - {me}"
    "distinct all \<Longrightarrow> distinct (ring_others a b all me)"
  using assms by (auto simp: ring_others_def)

lemma ring_edge_sym: "ring_edge sel a b all = ring_edge sel b a all"
  unfolding ring_edge_def using ring_others_facts(1) [of a a b all] ring_others_facts(1) [of b a b all]
  by auto

lemma ring_edge_cong:
  assumes "distinct xs" "distinct ys" "set xs = set ys"
  shows "ring_edge sel a b xs = ring_edge sel a b ys"
  unfolding ring_edge_def
  using select_ring_cong [of "ring_others a b xs a" "ring_others a b ys a" a "rg_n_preferred sel"]
    select_ring_cong [of "ring_others a b xs b" "ring_others a b ys b" b "rg_n_preferred sel"] assms
    ring_others_facts(2,3) [of a a b] ring_others_facts(2,3) [of b a b]
  by simp

lemma ring_select_sub: "ring_select_preferred sel self_id peers \<subseteq> set peers \<union> {self_id}"
proof (cases "peers = [] \<or> length peers \<le> unat (rg_n_preferred sel)")
  case True
  then show ?thesis using select_ring_all by (auto simp: ring_select_preferred_def)
next
  case False
  let ?ring = "ring_of self_id peers" and ?i = "ring_position (ring_of self_id peers) self_id"
  have i: "?i < length ?ring" using ring_position_nth [of self_id ?ring] by (simp add: ring_of_facts)
  let ?p = "if 1 < length ?ring then neighbours ?ring ?i else []"
  have "distinct ?p" "set ?p \<subseteq> set ?ring"
    using neighbours_facts(1,2) [OF ring_of_facts(3) i] by auto
  then show ?thesis
    using ring_fill_keeps [of ?p ?ring ?i self_id "unat (rg_n_preferred sel)" 2] False ring_of_facts(2)
    by (auto simp: ring_select_preferred_def select_ring_eq Let_def)
qed

section \<open>Next hops\<close>

definition ring_key_lt :: "string \<Rightarrow> string \<Rightarrow> string \<Rightarrow> bool" where
  "ring_key_lt dest_key a b \<longleftrightarrow>
     ring_distance a dest_key < ring_distance b dest_key \<or>
     ring_distance a dest_key = ring_distance b dest_key \<and> a < b"

interpretation ring_rank: key_ranking "ring_key_lt dest_key" for dest_key
  by unfold_locales (auto simp: ring_key_lt_def)

definition ring_hop_ok :: "string \<Rightarrow> string list \<Rightarrow> ranked_hop \<Rightarrow> bool" where
  "ring_hop_ok dest_key seen c \<longleftrightarrow>
     hop_distance c = ring_distance (hop_key c) dest_key \<and> hop_peer c = spelling (hop_key c) seen"

lemma ring_hop_lt:
  assumes "hop_distance x = ring_distance (hop_key x) dest_key"
    "hop_distance y = ring_distance (hop_key y) dest_key" "hop_key x \<noteq> hop_key y"
  shows "compare_ranked_hops_lt x y = ring_key_lt dest_key (hop_key x) (hop_key y)"
  using assms by (auto simp: compare_ranked_hops_lt_def ring_key_lt_def)

lemma compare_ranked_hops_order:
  shows "\<lbrakk>compare_ranked_hops_lt x y; compare_ranked_hops_lt y z\<rbrakk> \<Longrightarrow> compare_ranked_hops_lt x z"
    and "\<lbrakk>compare_ranked_hops_lt x y; \<not> compare_ranked_hops_lt z y\<rbrakk> \<Longrightarrow> compare_ranked_hops_lt x z"
    and "\<not> compare_ranked_hops_lt x x"
  by (auto simp: compare_ranked_hops_lt_def)

lemma worst_hop_facts:
  "worst_hop cands w idx \<in> insert w (set idx) \<and>
   (\<forall>k \<in> insert w (set idx). \<not> compare_ranked_hops_lt (cands ! worst_hop cands w idx) (cands ! k))"
proof (induction idx arbitrary: w)
  case (Cons j idx)
  let ?w = "if compare_ranked_hops_lt (cands ! w) (cands ! j) then j else w"
  let ?m = "worst_hop cands ?w idx"
  have IH: "?m \<in> insert ?w (set idx)"
    "\<And>k. k \<in> insert ?w (set idx) \<Longrightarrow> \<not> compare_ranked_hops_lt (cands ! ?m) (cands ! k)"
    using Cons.IH [of ?w] by blast+
  have "\<not> compare_ranked_hops_lt (cands ! ?m) (cands ! ?w)" using IH(2) by blast
  then have "\<not> compare_ranked_hops_lt (cands ! ?m) (cands ! w) \<and>
      \<not> compare_ranked_hops_lt (cands ! ?m) (cands ! j)"
    using compare_ranked_hops_order(1) [of "cands ! ?m" "cands ! w" "cands ! j"]
      compare_ranked_hops_order(2) [of "cands ! ?m" "cands ! j" "cands ! w"]
    by (cases "compare_ranked_hops_lt (cands ! w) (cands ! j)") auto
  moreover have "\<not> compare_ranked_hops_lt (cands ! ?m) (cands ! k)" if "k \<in> set idx" for k
    using IH(2) that by blast
  ultimately have "\<forall>k \<in> insert w (set (j # idx)). \<not> compare_ranked_hops_lt (cands ! ?m) (cands ! k)"
    by simp
  moreover have "?m \<in> insert w (set (j # idx))" using IH(1) by (metis insert_iff list.set_intros(1,2))
  ultimately show ?case by simp
qed (simp add: compare_ranked_hops_order)

definition ring_hop_inv :: "string \<Rightarrow> string \<Rightarrow> nat \<Rightarrow> string list \<Rightarrow> ranked_hop list \<Rightarrow> bool" where
  "ring_hop_inv self_key dest_key wanted seen cands \<longleftrightarrow>
     distinct (map hop_key cands) \<and>
     top_spec (ring_key_lt dest_key) wanted {key \<in> pubkey_part ` set seen. key \<noteq> self_key}
       (rank_sort (ring_key_lt dest_key) (map hop_key cands)) \<and>
     (\<forall>c \<in> set cands. ring_hop_ok dest_key seen c)"

lemma ring_hop_keys:
  assumes "ring_hop_inv self_key dest_key wanted seen cands"
  shows "hop_key ` set cands \<subseteq> {key \<in> pubkey_part ` set seen. key \<noteq> self_key}"
  using assms by (simp add: ring_hop_inv_def top_spec_def)

lemma ring_hop_ok_snoc:
  assumes "ring_hop_ok dest_key seen c" "hop_key c \<noteq> pubkey_part peer"
  shows "ring_hop_ok dest_key (seen @ [peer]) c"
  using assms by (simp add: ring_hop_ok_def spelling_snoc)

lemma ring_hop_ok_others:
  assumes "ring_hop_inv self_key dest_key wanted seen cands" "pubkey_part peer \<notin> hop_key ` set cands"
    "c \<in> set cands"
  shows "ring_hop_ok dest_key (seen @ [peer]) c"
proof -
  have "hop_key c \<noteq> pubkey_part peer" using assms(2,3) by force
  then show ?thesis using ring_hop_ok_snoc assms(1,3) by (simp add: ring_hop_inv_def)
qed

lemma ring_hop_ok_fresh:
  assumes "pubkey_part peer \<notin> pubkey_part ` set seen"
  shows "ring_hop_ok dest_key (seen @ [peer])
    \<lparr>hop_distance = ring_distance (pubkey_part peer) dest_key, hop_key = pubkey_part peer, hop_peer = peer\<rparr>"
  using assms by (simp add: ring_hop_ok_def spelling_snoc)

lemma ring_seen_snoc:
  "{key \<in> pubkey_part ` set (seen @ [peer]). key \<noteq> self_key} =
   (if pubkey_part peer = self_key then {key \<in> pubkey_part ` set seen. key \<noteq> self_key}
    else insert (pubkey_part peer) {key \<in> pubkey_part ` set seen. key \<noteq> self_key})"
  by auto

lemma ring_turn_self:
  assumes "ring_hop_inv self_key dest_key wanted seen cands" "pubkey_part peer = self_key"
  shows "ring_hop_inv self_key dest_key wanted (seen @ [peer]) cands"
proof -
  have "hop_key c \<noteq> pubkey_part peer" if "c \<in> set cands" for c
    using ring_hop_keys [OF assms(1)] that assms(2) by auto
  then show ?thesis
    using assms ring_hop_ok_snoc unfolding ring_hop_inv_def ring_seen_snoc by auto
qed

lemma ring_turn_update:
  assumes inv: "ring_hop_inv self_key dest_key wanted seen cands"
    and "pubkey_part peer = key" "key \<noteq> self_key" "key \<in> hop_key ` set cands"
  shows "ring_hop_inv self_key dest_key wanted (seen @ [peer])
    (update_first (\<lambda>existing. hop_key existing = key)
       (\<lambda>existing. if peer < hop_peer existing then existing\<lparr>hop_peer := peer\<rparr> else existing) cands)"
proof -
  let ?f = "\<lambda>c. if hop_key c = key then (if peer < hop_peer c then c\<lparr>hop_peer := peer\<rparr> else c) else c"
  have upd: "update_first (\<lambda>existing. hop_key existing = key)
      (\<lambda>existing. if peer < hop_peer existing then existing\<lparr>hop_peer := peer\<rparr> else existing) cands =
    map ?f cands"
    using inv by (intro update_first_map) (simp add: ring_hop_inv_def)
  have keys: "map hop_key (map ?f cands) = map hop_key cands" by simp
  have seen: "key \<in> pubkey_part ` set seen" using ring_hop_keys [OF inv] assms(4) by blast
  have "ring_hop_ok dest_key (seen @ [peer]) (?f c)" if "c \<in> set cands" for c
  proof -
    have "ring_hop_ok dest_key seen c" using inv that by (simp add: ring_hop_inv_def)
    then show ?thesis using seen assms(2) by (auto simp: ring_hop_ok_def spelling_snoc min_def)
  qed
  moreover have "{k \<in> pubkey_part ` set (seen @ [peer]). k \<noteq> self_key} =
      {k \<in> pubkey_part ` set seen. k \<noteq> self_key}"
    using seen assms(2) by auto
  ultimately show ?thesis
    using inv unfolding upd ring_hop_inv_def keys by (simp only: set_map ball_simps) blast
qed

lemma ring_turn_append:
  assumes inv: "ring_hop_inv self_key dest_key wanted seen cands"
    and "pubkey_part peer = key" "key \<noteq> self_key" "key \<notin> hop_key ` set cands" "length cands < wanted"
  shows "ring_hop_inv self_key dest_key wanted (seen @ [peer])
    (cands @ [\<lparr>hop_distance = ring_distance key dest_key, hop_key = key, hop_peer = peer\<rparr>])"
proof -
  let ?E = "{k \<in> pubkey_part ` set seen. k \<noteq> self_key}"
  note top = ring_rank.top_append [of ?E "map hop_key cands" dest_key wanted key]
  have pre: "finite ?E" "distinct (map hop_key cands)"
    "top_spec (ring_key_lt dest_key) wanted ?E (rank_sort (ring_key_lt dest_key) (map hop_key cands))"
    "length (map hop_key cands) < wanted" "key \<notin> set (map hop_key cands)"
    using inv assms(4,5) by (simp_all add: ring_hop_inv_def)
  have "key \<notin> pubkey_part ` set seen" using top(2) [OF pre] assms(3) by blast
  then have "ring_hop_ok dest_key (seen @ [peer])
      \<lparr>hop_distance = ring_distance key dest_key, hop_key = key, hop_peer = peer\<rparr>"
    using ring_hop_ok_fresh assms(2) by blast
  moreover have "ring_hop_ok dest_key (seen @ [peer]) c" if "c \<in> set cands" for c
    using ring_hop_ok_others [OF inv] assms(2,4) that by simp
  ultimately show ?thesis
    using top(1) [OF pre] pre assms(2,3) unfolding ring_hop_inv_def ring_seen_snoc by auto
qed

lemma ring_worst:
  assumes inv: "ring_hop_inv self_key dest_key wanted seen cands" and "cands \<noteq> []"
    and w: "w = worst_hop cands 0 [1..<length cands]"
  shows "w < length cands"
    and "\<lbrakk>k < length cands; k \<noteq> w\<rbrakk> \<Longrightarrow> ring_key_lt dest_key (hop_key (cands ! k)) (hop_key (cands ! w))"
proof -
  have idx: "insert 0 (set [1..<length cands]) = {..<length cands}" using assms(2) by auto
  have facts: "w \<in> {..<length cands}"
    "\<forall>k \<in> {..<length cands}. \<not> compare_ranked_hops_lt (cands ! w) (cands ! k)"
    using worst_hop_facts [of cands 0 "[1..<length cands]"] unfolding idx w by blast+
  then show "w < length cands" by simp
  assume k: "k < length cands" "k \<noteq> w"
  have ok: "hop_distance (cands ! j) = ring_distance (hop_key (cands ! j)) dest_key"
    if "j < length cands" for j
    using inv that by (simp add: ring_hop_inv_def ring_hop_ok_def)
  have "distinct (map hop_key cands)" using inv by (simp add: ring_hop_inv_def)
  then have ne: "hop_key (cands ! w) \<noteq> hop_key (cands ! k)"
    using k facts(1) nth_eq_iff_index_eq [of "map hop_key cands" w k] by simp
  have "\<not> ring_key_lt dest_key (hop_key (cands ! w)) (hop_key (cands ! k))"
    using ring_hop_lt [of "cands ! w" dest_key "cands ! k"] ok k(1) facts ne by simp
  then show "ring_key_lt dest_key (hop_key (cands ! k)) (hop_key (cands ! w))"
    using ring_rank.total [OF ne] by blast
qed

lemma ring_turn_full:
  assumes inv: "ring_hop_inv self_key dest_key wanted seen cands"
    and "pubkey_part peer = key" "key \<noteq> self_key" "key \<notin> hop_key ` set cands"
    and len: "length cands = wanted" "wanted \<noteq> 0"
    and w: "w = worst_hop cands 0 [1..<length cands]"
    and c: "c = \<lparr>hop_distance = ring_distance key dest_key, hop_key = key, hop_peer = peer\<rparr>"
  shows "ring_hop_inv self_key dest_key wanted (seen @ [peer])
    (if compare_ranked_hops_lt c (cands ! w) then cands[w := c] else cands)"
proof -
  let ?E = "{k \<in> pubkey_part ` set seen. k \<noteq> self_key}"
  let ?keys = "map hop_key cands"
  have "cands \<noteq> []" using len by auto
  note worst = ring_worst [OF inv this w]
  have pre: "finite ?E" "distinct ?keys"
    "top_spec (ring_key_lt dest_key) (length ?keys) ?E (rank_sort (ring_key_lt dest_key) ?keys)"
    "w < length ?keys" "key \<notin> set ?keys"
    "\<And>k. \<lbrakk>k < length ?keys; k \<noteq> w\<rbrakk> \<Longrightarrow> ring_key_lt dest_key (?keys ! k) (?keys ! w)"
    using inv assms(4) len(1) worst by (simp_all add: ring_hop_inv_def)
  note top = ring_rank.top_replace [OF pre(1-4) pre(6) pre(5)]
  have "hop_key (cands ! w) \<in> hop_key ` set cands" using worst(1) by simp
  then have "key \<noteq> hop_key (cands ! w)" using assms(4) by metis
  then have lt: "compare_ranked_hops_lt c (cands ! w) = ring_key_lt dest_key key (?keys ! w)"
    using ring_hop_lt [of c dest_key "cands ! w"] inv worst(1)
    by (simp add: c ring_hop_inv_def ring_hop_ok_def)
  have others: "ring_hop_ok dest_key (seen @ [peer]) x" if "x \<in> set cands" for x
    using ring_hop_ok_others [OF inv] assms(2,4) that by simp
  have E: "{k \<in> pubkey_part ` set (seen @ [peer]). k \<noteq> self_key} = insert key ?E"
    using assms(2,3) by auto
  show ?thesis
  proof (cases "compare_ranked_hops_lt c (cands ! w)")
    case True
    then have new: "top_spec (ring_key_lt dest_key) (length ?keys) (insert key ?E)
        (rank_sort (ring_key_lt dest_key) (?keys[w := key]))" "key \<notin> ?E"
      using top(1) lt by blast+
    have "ring_hop_ok dest_key (seen @ [peer]) c"
      unfolding c using ring_hop_ok_fresh assms(2,3) new(2) by blast
    then have "\<forall>x \<in> set (cands[w := c]). ring_hop_ok dest_key (seen @ [peer]) x"
      using others set_update_subset_insert [of cands w c] by blast
    moreover have "map hop_key (cands[w := c]) = ?keys[w := key]" by (simp add: map_update c)
    moreover have "distinct (?keys[w := key])" using pre(2,5) by (simp add: distinct_list_update)
    ultimately show ?thesis using True new(1) len(1) unfolding ring_hop_inv_def E by simp
  next
    case False
    then show ?thesis using top(2) lt others pre(2) len(1) unfolding ring_hop_inv_def E by simp
  qed
qed

lemma ring_hop_scan_inv:
  assumes "wanted \<noteq> 0" "ring_hop_inv self_key dest_key wanted seen cands"
  shows "ring_hop_inv self_key dest_key wanted (seen @ rest)
    (ring_hop_scan self_key dest_key wanted rest cands)"
  using assms(2)
proof (induction rest arbitrary: seen cands)
  case (Cons peer rest)
  let ?key = "pubkey_part peer"
  have len: "length cands \<le> wanted"
    using Cons.prems by (simp add: ring_hop_inv_def top_spec_def)
  have ex: "list_ex (\<lambda>existing. hop_key existing = ?key) cands \<longleftrightarrow> ?key \<in> hop_key ` set cands"
    by (force simp: list_ex_iff)
  have "\<exists>cands'. ring_hop_inv self_key dest_key wanted (seen @ [peer]) cands' \<and>
      ring_hop_scan self_key dest_key wanted (peer # rest) cands =
      ring_hop_scan self_key dest_key wanted rest cands'"
  proof -
    consider "?key = self_key" | "?key \<noteq> self_key" "?key \<in> hop_key ` set cands"
      | "?key \<noteq> self_key" "?key \<notin> hop_key ` set cands" "length cands < wanted"
      | "?key \<noteq> self_key" "?key \<notin> hop_key ` set cands" "length cands = wanted"
      using len by fastforce
    then show ?thesis
    proof cases
      case 1
      then show ?thesis using ring_turn_self [OF Cons.prems] by auto
    next
      case 2
      then show ?thesis
        using ring_turn_update [OF Cons.prems refl] ex by (simp add: Let_def) blast
    next
      case 3
      then show ?thesis
        using ring_turn_append [OF Cons.prems refl] ex by (simp add: Let_def) blast
    next
      case 4
      let ?c = "\<lparr>hop_distance = ring_distance ?key dest_key, hop_key = ?key, hop_peer = peer\<rparr>"
      let ?w = "worst_hop cands 0 [1..<length cands]"
      have "ring_hop_scan self_key dest_key wanted (peer # rest) cands =
          ring_hop_scan self_key dest_key wanted rest
            (if compare_ranked_hops_lt ?c (cands ! ?w) then cands[?w := ?c] else cands)"
        using 4 ex by (simp add: Let_def)
      then show ?thesis
        using ring_turn_full [OF Cons.prems refl 4(1-3) assms(1) refl refl] by blast
    qed
  qed
  then show ?case using Cons.IH by fastforce
qed simp

interpretation hop_rank: strict_ranking compare_ranked_hops_lt
proof unfold_locales
  fix x y :: ranked_hop
  assume "x \<noteq> y"
  then show "compare_ranked_hops_lt x y \<or> compare_ranked_hops_lt y x"
    unfolding compare_ranked_hops_lt_def
    by (metis (full_types) linorder_neq_iff old.unit.exhaust ranked_hop.equality)
qed (auto simp: compare_ranked_hops_lt_def)

lemma ring_hop_sort:
  assumes "ring_hop_inv self_key dest_key wanted seen cands"
  shows "map hop_key (rank_sort compare_ranked_hops_lt cands) =
    rank_sort (ring_key_lt dest_key) (map hop_key cands)"
proof -
  let ?s = "rank_sort compare_ranked_hops_lt cands"
  have dist: "distinct (map hop_key cands)" using assms by (simp add: ring_hop_inv_def)
  have ok: "hop_distance c = ring_distance (hop_key c) dest_key" if "c \<in> set cands" for c
    using assms that by (simp add: ring_hop_inv_def ring_hop_ok_def)
  have inj: "inj_on hop_key (set cands)" using dist by (simp add: distinct_map)
  have "sorted_wrt compare_ranked_hops_lt ?s"
    using dist by (intro hop_rank.sorted_rank_sort) (simp add: distinct_map)
  then have "sorted_wrt (\<lambda>x y. ring_key_lt dest_key (hop_key x) (hop_key y)) ?s"
  proof (rule sorted_wrt_mono_rel [rotated])
    fix x y assume "x \<in> set ?s" "y \<in> set ?s" and lt: "compare_ranked_hops_lt x y"
    then have xy: "x \<in> set cands" "y \<in> set cands" by simp_all
    have "x \<noteq> y" using lt hop_rank.irrefl by blast
    then have "hop_key x \<noteq> hop_key y" using inj xy by (meson inj_onD)
    then show "ring_key_lt dest_key (hop_key x) (hop_key y)"
      using ring_hop_lt [of x dest_key y] ok xy lt by simp
  qed
  then have "sorted_wrt (ring_key_lt dest_key) (map hop_key ?s)" by (simp add: sorted_wrt_map)
  then show ?thesis
    by (rule ring_rank.sorted_unique [OF _ ring_rank.sorted_rank_sort [OF dist]]) simp
qed

lemma ring_next_hops_reference:
  "ring_next_hops sel self_id dest connected limit =
   reference_hops (ring_key_lt (pubkey_part dest)) (\<lambda>key. key \<noteq> pubkey_part self_id)
     (min limit (unat (rg_n_preferred sel))) connected"
proof (cases "min limit (unat (rg_n_preferred sel)) = 0")
  case True
  then show ?thesis by (simp add: ring_next_hops_def reference_hops_def)
next
  case False
  let ?wanted = "min limit (unat (rg_n_preferred sel))"
  let ?cands = "ring_hop_scan (pubkey_part self_id) (pubkey_part dest) ?wanted connected []"
  have "ring_hop_inv (pubkey_part self_id) (pubkey_part dest) ?wanted [] []"
    by (simp add: ring_hop_inv_def top_spec_def rank_sort_def)
  from ring_hop_scan_inv [OF False this]
  have inv: "ring_hop_inv (pubkey_part self_id) (pubkey_part dest) ?wanted connected ?cands" by simp
  have "map hop_peer (rank_sort compare_ranked_hops_lt ?cands) =
      reference_hops (ring_key_lt (pubkey_part dest)) (\<lambda>key. key \<noteq> pubkey_part self_id) ?wanted connected"
  proof (rule ring_rank.reference_hops_eqI)
    show "top_spec (ring_key_lt (pubkey_part dest)) ?wanted
        {key \<in> pubkey_part ` set connected. key \<noteq> pubkey_part self_id}
        (map hop_key (rank_sort compare_ranked_hops_lt ?cands))"
      using inv ring_hop_sort [OF inv] by (simp add: ring_hop_inv_def)
    show "hop_peer c = spelling (hop_key c) connected"
      if "c \<in> set (rank_sort compare_ranked_hops_lt ?cands)" for c
      using inv that by (simp add: ring_hop_inv_def ring_hop_ok_def)
  qed
  then show ?thesis using False by (simp only: ring_next_hops_def Let_def if_False)
qed

section \<open>Properties\<close>

text \<open>
  C17: next hops on the ring. The scan keeps a buffer of at most \<open>wanted\<close> hops and replaces its worst
  one; its result is the reference selection: the distinct keys among the connected peers other than
  this device, ranked by closeness to the destination and then by key, the first
  \<open>min limit n_preferred\<close> of them, each under the smallest spelling of its id that is connected.
\<close>

theorem ring_next_hops_is_reference:
  "ring_next_hops sel self_id dest connected limit =
   reference_hops (ring_key_lt (pubkey_part dest)) (\<lambda>key. key \<noteq> pubkey_part self_id)
     (min limit (unat (rg_n_preferred sel))) connected"
  by (rule ring_next_hops_reference)

text \<open>
  C24: the size of a ring preference. With distinct peers, not containing the device itself, a device
  prefers all of its peers when they are at most \<open>n_preferred\<close>, and otherwise exactly \<open>n_preferred\<close> of
  them but never fewer than its two ring neighbours; the preferred ids are peers, without repetition.
\<close>

theorem ring_preference_size:
  assumes "peers \<noteq> []" "distinct peers" "self_id \<notin> set peers"
  shows "ring_select_preferred sel self_id peers \<subseteq> set peers \<and>
    card (ring_select_preferred sel self_id peers) =
      (if length peers \<le> unat (rg_n_preferred sel) then length peers
       else max (unat (rg_n_preferred sel)) (min 2 (length peers)))"
  using select_ring_facts [OF assms, of "rg_n_preferred sel"]
  unfolding ring_select_preferred_def by (metis distinct_card)

theorem ring_preference_size_witness:
  "card (ring_select_preferred \<lparr>rg_n_preferred = 3\<rparr> ''m'' [''a'', ''c'', ''p'', ''x'', ''z'']) = 3"
  using ring_preference_size [of "[''a'', ''c'', ''p'', ''x'', ''z'']" "''m''" "\<lparr>rg_n_preferred = 3\<rparr>"]
  by simp

text \<open>
  C18: the ring never opens. Two members that are next to each other in the sorted order of all the
  members (the last one is next to the first) share an edge, whatever \<open>n_preferred\<close> is; so the edges
  contain a cycle through every member and the mesh is connected.
\<close>

theorem ring_successor_edge:
  assumes "distinct all" "ring = bset_of_list all" "2 \<le> length ring" "i < length ring"
  shows "ring_edge sel (ring ! i) (ring ! (Suc i mod length ring)) all"
proof -
  let ?a = "ring ! i" and ?b = "ring ! (Suc i mod length ring)"
  let ?others = "ring_others ?a ?b all ?a"
  have set: "set ring = set all" and dist: "distinct ring"
    using assms(2) by (simp_all add: bset_wf_distinct)
  have mem: "?a \<in> set all" "?b \<in> set all"
    using assms(4) set by (metis nth_mem, metis mod_less_divisor nth_mem gr_implies_not0 neq0_conv)
  have ring: "ring_of ?a ?others = ring"
    using mem set assms(2) by (intro bset_eqI) (auto simp: ring_of_facts ring_others_facts)
  have pos: "ring_position ring ?a = i"
    using ring_position_nth [of ?a ring] dist assms(4) by (simp add: nth_eq_iff_index_eq)
  have "Suc i mod length ring \<noteq> i" "Suc i mod length ring < length ring"
    using assms(3,4) by (cases "Suc i = length ring"; auto)+
  then have "?a \<noteq> ?b" using dist assms(4) by (metis nth_eq_iff_index_eq)
  then have others: "?others \<noteq> []" "?a \<notin> set ?others" "distinct ?others"
    using ring_others_facts(2,3) [of ?a ?a ?b all] assms(1) by force+
  have "set (neighbours ring i) \<subseteq> set (select_ring_neighbors ?a ?others (rg_n_preferred sel))"
    using select_ring_facts(4) [OF others(1,3,2), of "rg_n_preferred sel"] unfolding ring pos .
  moreover have "?b \<in> set (neighbours ring i)" by (simp add: neighbours_def)
  ultimately show ?thesis by (auto simp: ring_edge_def)
qed

theorem ring_successor_edge_witness:
  "ring_edge \<lparr>rg_n_preferred = 0\<rparr> ''z'' ''a'' [''m'', ''z'', ''a'']"
proof -
  have "bset_of_list [''m'', ''z'', ''a''] = [''a'', ''m'', ''z'']" by code_simp
  then show ?thesis
    using ring_successor_edge [of "[''m'', ''z'', ''a'']" "[''a'', ''m'', ''z'']" 2 "\<lparr>rg_n_preferred = 0\<rparr>"]
    by simp
qed

end
