(* ===== verification/Topology_Shape.thy ===== *)
theory Topology_Shape
  imports Topology_Tree Topology_Ring
begin

text \<open>
  The \<open>Topology\<close> trait (\<open>topology/mod.rs\<close>) as a record of operations, the star and full mesh
  selectors (\<open>topology/star.rs\<close>, \<open>topology/fullmesh.rs\<close>), the configuration's \<open>TopologyMode\<close> and
  \<open>from_mode\<close>, which builds the trait object. The locale \<open>topology_contract\<close> holds what the trait's
  documentation asks of every selector; it is interpreted on \<open>from_mode\<close> for every mode and every
  hash function. The hash function is the parameter \<open>sha\<close> of the definitions.
\<close>

section \<open>The trait\<close>

record topology_ops =
  t_select_preferred :: "string \<Rightarrow> string list \<Rightarrow> string set"
  t_edge :: "string \<Rightarrow> string \<Rightarrow> string list \<Rightarrow> bool"
  t_prunes :: bool
  t_forwards :: "string \<Rightarrow> string list \<Rightarrow> bool"
  t_next_hops :: "string \<Rightarrow> string \<Rightarrow> string list \<Rightarrow> nat \<Rightarrow> string list"
  t_preferred_next_hop :: "string \<Rightarrow> string \<Rightarrow> string list \<Rightarrow> string \<Rightarrow> bool"
  t_flood_ttl :: u8

definition default_topology :: "(string \<Rightarrow> string list \<Rightarrow> string set) \<Rightarrow> topology_ops" where
  "default_topology select =
     \<lparr>t_select_preferred = select, t_edge = (\<lambda>a b all. True), t_prunes = False,
      t_forwards = (\<lambda>self_id all. False), t_next_hops = (\<lambda>self_id dest connected limit. []),
      t_preferred_next_hop = (\<lambda>self_id dest connected preferred_parent. False), t_flood_ttl = 4\<rparr>"

section \<open>Star\<close>

record star_selector =
  ss_hub :: string

definition star_select_preferred :: "star_selector \<Rightarrow> string \<Rightarrow> string list \<Rightarrow> string set" where
  "star_select_preferred sel self_id peer_ids =
     (let hub_pubkey = pubkey_part (ss_hub sel); self_pubkey = pubkey_part self_id in
      if self_pubkey = hub_pubkey then set peer_ids
      else set (filter (\<lambda>p. pubkey_part p = hub_pubkey) peer_ids))"

definition star_edge :: "star_selector \<Rightarrow> string \<Rightarrow> string \<Rightarrow> string list \<Rightarrow> bool" where
  "star_edge sel a b all =
     (let hub = pubkey_part (ss_hub sel) in pubkey_part a = hub \<or> pubkey_part b = hub)"

definition star_forwards :: "star_selector \<Rightarrow> string \<Rightarrow> string list \<Rightarrow> bool" where
  "star_forwards sel self_id all = (pubkey_part self_id = pubkey_part (ss_hub sel))"

fun smallest_scan :: "(string \<Rightarrow> bool) \<Rightarrow> string list \<Rightarrow> string option \<Rightarrow> string option" where
  "smallest_scan skip [] selected = selected"
| "smallest_scan skip (peer # rest) selected =
     (if skip (pubkey_part peer) then smallest_scan skip rest selected
      else smallest_scan skip rest
             (case selected of
                None \<Rightarrow> Some peer
              | Some current \<Rightarrow> if peer < current then Some peer else selected))"

definition star_next_hops :: "star_selector \<Rightarrow> string \<Rightarrow> string \<Rightarrow> string list \<Rightarrow> nat \<Rightarrow> string list" where
  "star_next_hops sel self_id dest connected limit =
     (if limit = 0 then []
      else
        let self_pubkey = pubkey_part self_id; hub_pubkey = pubkey_part (ss_hub sel) in
        if self_pubkey = hub_pubkey then []
        else case smallest_scan (\<lambda>key. key \<noteq> hub_pubkey \<or> key = self_pubkey) connected None of
               None \<Rightarrow> [] | Some peer \<Rightarrow> [peer])"

section \<open>Full mesh\<close>

definition fullmesh_select_preferred :: "string \<Rightarrow> string list \<Rightarrow> string set" where
  "fullmesh_select_preferred self_id peer_ids = set peer_ids"

definition fullmesh_next_hops :: "string \<Rightarrow> string \<Rightarrow> string list \<Rightarrow> nat \<Rightarrow> string list" where
  "fullmesh_next_hops self_id dest connected limit =
     (if limit = 0 then []
      else
        let self_key = pubkey_part self_id; dest_key = pubkey_part dest in
        if self_key = dest_key then []
        else case smallest_scan (\<lambda>key. key = self_key \<or> key \<noteq> dest_key) connected None of
               None \<Rightarrow> [] | Some peer \<Rightarrow> take limit [peer])"

section \<open>Trait objects\<close>

datatype topology_mode =
  Ring "u32 option"
| Star string
| Hubs "string list" "u32 option"
| HubTree string "string list" u32
| FullMesh

definition ring_topology :: "ring_selector \<Rightarrow> topology_ops" where
  "ring_topology sel =
     (default_topology (ring_select_preferred sel))
       \<lparr>t_edge := ring_edge sel, t_prunes := True, t_forwards := (\<lambda>self_id all. True),
        t_next_hops := ring_next_hops sel, t_flood_ttl := 32\<rparr>"

definition star_topology :: "star_selector \<Rightarrow> topology_ops" where
  "star_topology sel =
     (default_topology (star_select_preferred sel))
       \<lparr>t_edge := star_edge sel, t_prunes := True, t_forwards := star_forwards sel,
        t_next_hops := star_next_hops sel, t_flood_ttl := 3\<rparr>"

definition hubs_topology :: "(byte list \<Rightarrow> byte list) \<Rightarrow> hubs_selector \<Rightarrow> topology_ops" where
  "hubs_topology sha sel =
     (default_topology (hubs_select_preferred sha sel))
       \<lparr>t_edge := hubs_edge sha sel, t_prunes := True, t_forwards := hubs_forwards sel,
        t_next_hops := hubs_next_hops sha sel, t_flood_ttl := 4\<rparr>"

definition tree_topology :: "(byte list \<Rightarrow> byte list) \<Rightarrow> tree_selector \<Rightarrow> topology_ops" where
  "tree_topology sha sel =
     (default_topology (tree_select_preferred sha sel))
       \<lparr>t_edge := tree_edge sha sel, t_prunes := True, t_forwards := tree_forwards sel,
        t_next_hops := tree_next_hops sha sel,
        t_preferred_next_hop := tree_preferred_next_hop sel, t_flood_ttl := 4\<rparr>"

definition fullmesh_topology :: topology_ops where
  "fullmesh_topology =
     (default_topology fullmesh_select_preferred)\<lparr>t_next_hops := fullmesh_next_hops\<rparr>"

definition from_mode :: "(byte list \<Rightarrow> byte list) \<Rightarrow> topology_mode \<Rightarrow> topology_ops" where
  "from_mode sha mode =
     (case mode of
        Ring n_preferred \<Rightarrow>
          ring_topology \<lparr>rg_n_preferred = (case n_preferred of None \<Rightarrow> 3 | Some n \<Rightarrow> n)\<rparr>
      | Star hub \<Rightarrow> star_topology \<lparr>ss_hub = hub\<rparr>
      | Hubs hubs spoke_redundancy \<Rightarrow>
          hubs_topology sha
            \<lparr>hs_hubs = hubs,
             hs_spoke_redundancy = max (case spoke_redundancy of None \<Rightarrow> 2 | Some r \<Rightarrow> r) 1\<rparr>
      | HubTree root hubs backup_candidates \<Rightarrow>
          tree_topology sha
            \<lparr>ts_root = root, ts_hubs = hubs, ts_backup_candidates = backup_candidates\<rparr>
      | FullMesh \<Rightarrow> fullmesh_topology)"

definition effective_n_preferred :: "topology_mode \<Rightarrow> u32" where
  "effective_n_preferred mode =
     (case mode of Ring n_preferred \<Rightarrow> (case n_preferred of None \<Rightarrow> 3 | Some n \<Rightarrow> n) | _ \<Rightarrow> 0)"

section \<open>The contract of a selector\<close>

lemma smallest_scan_from:
  "smallest_scan skip rest selected = Some peer \<Longrightarrow> selected = Some peer \<or> peer \<in> set rest"
proof (induction rest arbitrary: selected)
  case (Cons p rest)
  show ?case
  proof (cases "skip (pubkey_part p)")
    case False
    then show ?thesis
      using Cons.prems Cons.IH [of "Some p"] Cons.IH [of selected]
      by (cases selected) (auto split: if_split_asm)
  qed (use Cons.prems Cons.IH [of selected] in auto)
qed simp

lemma smallest_scan_in: "smallest_scan skip connected None = Some peer \<Longrightarrow> peer \<in> set connected"
  using smallest_scan_from [of skip connected None peer] by simp

lemma reference_hops_ok:
  assumes "key_ranking lt" "wanted \<le> limit"
  shows "hops_ok connected limit (reference_hops lt eligible wanted connected)"
  using reference_hops_bound [of lt eligible wanted connected] assms(2)
    reference_hops_connected [of lt eligible wanted connected]
    key_ranking.reference_hops_distinct [OF assms(1)]
  by (auto simp: hops_ok_def)

locale topology_contract =
  fixes T :: topology_ops
  assumes edge_symmetric: "t_edge T a b all = t_edge T b a all"
    and edge_members: "\<lbrakk>distinct xs; distinct ys; set xs = set ys\<rbrakk> \<Longrightarrow> t_edge T a b xs = t_edge T a b ys"
    and hops: "hops_ok connected limit (t_next_hops T self_id dest connected limit)"
    and preferred: "t_select_preferred T self_id peers \<subseteq> set peers \<union> {self_id}"
begin

text \<open>Two members with the same view agree on the edge between them.\<close>

lemma views_agree:
  assumes "distinct known_a" "distinct known_b" "set known_a = set known_b"
  shows "t_edge T a b known_a = t_edge T b a known_b"
  using edge_members [OF assms] edge_symmetric by metis

lemma no_hop_without_budget: "t_next_hops T self_id dest connected 0 = []"
  using hops [of connected 0 self_id dest] by (simp add: hops_ok_def)

end

lemma topology_fields [simp]:
  "t_edge (ring_topology r) = ring_edge r" "t_edge (star_topology st) = star_edge st"
  "t_edge (hubs_topology sha hb) = hubs_edge sha hb" "t_edge (tree_topology sha tr) = tree_edge sha tr"
  "t_edge fullmesh_topology = (\<lambda>a b all. True)"
  "t_next_hops (ring_topology r) = ring_next_hops r" "t_next_hops (star_topology st) = star_next_hops st"
  "t_next_hops (hubs_topology sha hb) = hubs_next_hops sha hb"
  "t_next_hops (tree_topology sha tr) = tree_next_hops sha tr"
  "t_next_hops fullmesh_topology = fullmesh_next_hops"
  "t_select_preferred (ring_topology r) = ring_select_preferred r"
  "t_select_preferred (star_topology st) = star_select_preferred st"
  "t_select_preferred (hubs_topology sha hb) = hubs_select_preferred sha hb"
  "t_select_preferred (tree_topology sha tr) = tree_select_preferred sha tr"
  "t_select_preferred fullmesh_topology = fullmesh_select_preferred"
  "t_prunes (ring_topology r)" "t_prunes (star_topology st)" "t_prunes (hubs_topology sha hb)"
  "t_prunes (tree_topology sha tr)" "\<not> t_prunes fullmesh_topology"
  by (simp_all add: ring_topology_def star_topology_def hubs_topology_def tree_topology_def
      fullmesh_topology_def default_topology_def)

lemma hubs_edge_sym: "hubs_edge sha sel a b all = hubs_edge sha sel b a all"
  by (cases "hubs_is_hub sel a"; cases "hubs_is_hub sel b") (auto simp: hubs_edge_def)

lemma preferred_subs:
  "hubs_select_preferred sha hb self_id peers \<subseteq> set peers"
  "tree_select_preferred sha tr self_id peers \<subseteq> set peers"
  "star_select_preferred st self_id peers \<subseteq> set peers"
  by (auto simp: hubs_select_preferred_def tree_select_preferred_def star_select_preferred_def Let_def
      split: if_splits)

lemma star_hops_ok: "hops_ok connected limit (star_next_hops sel self_id dest connected limit)"
  by (auto simp: star_next_hops_def hops_ok_def Let_def dest: smallest_scan_in split: option.split)

lemma fullmesh_hops_ok: "hops_ok connected limit (fullmesh_next_hops self_id dest connected limit)"
  by (auto simp: fullmesh_next_hops_def hops_ok_def Let_def take_Cons' dest: smallest_scan_in
      split: option.split)

interpretation ring_contract: topology_contract "ring_topology r" for r
proof unfold_locales
  show "t_edge (ring_topology r) a b all = t_edge (ring_topology r) b a all" for a b all
    by (simp add: ring_edge_sym [of r a b])
  show "hops_ok connected limit (t_next_hops (ring_topology r) self_id dest connected limit)"
    for connected limit self_id dest
    by (simp add: ring_next_hops_reference reference_hops_ok [OF ring_rank.key_ranking_axioms])
  show "t_edge (ring_topology r) a b xs = t_edge (ring_topology r) a b ys"
    if "distinct xs" "distinct ys" "set xs = set ys" for a b xs ys
    unfolding topology_fields using that by (rule ring_edge_cong)
  show "t_select_preferred (ring_topology r) self_id peers \<subseteq> set peers \<union> {self_id}" for self_id peers
    unfolding topology_fields by (rule ring_select_sub)
qed

interpretation star_contract: topology_contract "star_topology st" for st
proof unfold_locales
  show "t_edge (star_topology st) a b all = t_edge (star_topology st) b a all" for a b all
    by (auto simp: star_edge_def Let_def)
  show "t_select_preferred (star_topology st) self_id peers \<subseteq> set peers \<union> {self_id}" for self_id peers
    using preferred_subs(3) [of st self_id peers] by auto
qed (simp_all add: star_edge_def star_hops_ok)

interpretation hubs_contract: topology_contract "hubs_topology sha hb" for sha hb
proof unfold_locales
  show "t_edge (hubs_topology sha hb) a b all = t_edge (hubs_topology sha hb) b a all" for a b all
    by (simp add: hubs_edge_sym [of sha hb a b])
  show "hops_ok connected limit (t_next_hops (hubs_topology sha hb) self_id dest connected limit)"
    for connected limit self_id dest
    by (simp add: hubs_next_hops_reference reference_hops_ok [OF route_rank.key_ranking_axioms])
  show "t_select_preferred (hubs_topology sha hb) self_id peers \<subseteq> set peers \<union> {self_id}" for self_id peers
    using preferred_subs(1) [of sha hb self_id peers] by auto
qed (simp add: hubs_edge_def)

interpretation tree_contract: topology_contract "tree_topology sha tr" for sha tr
proof unfold_locales
  show "t_edge (tree_topology sha tr) a b all = t_edge (tree_topology sha tr) b a all" for a b all
    by (simp add: tree_edge_sym [of sha tr a b])
  show "t_select_preferred (tree_topology sha tr) self_id peers \<subseteq> set peers \<union> {self_id}" for self_id peers
    using preferred_subs(2) [of sha tr self_id peers] by auto
qed (simp_all add: tree_edge_def tree_next_hops_ok)

interpretation fullmesh_contract: topology_contract fullmesh_topology
  by unfold_locales (auto simp: fullmesh_select_preferred_def fullmesh_hops_ok)

interpretation shape: topology_contract "from_mode sha mode" for sha mode
  by (cases mode)
     (simp_all add: from_mode_def ring_contract.topology_contract_axioms
       star_contract.topology_contract_axioms hubs_contract.topology_contract_axioms
       tree_contract.topology_contract_axioms fullmesh_contract.topology_contract_axioms)

end
