(* ===== verification/Shape_Plan.thy ===== *)
theory Shape_Plan
  imports Topology_Shape
begin

text \<open>
  The connection ladder's use of a topology (\<open>engine/ladder.rs\<close>): the shelve pass
  \<open>reevaluate_topology\<close>, the planning half of \<open>shape_connections\<close> with the rotation of the hub dial
  cursor, and the loop that runs a plan's dials with bounded parallelism. The peer registry is a list
  of peers with distinct ids; reads of the locked fields of one pass see one state. Frames and
  dials are values in the result; sending them, dropping a peer and the transport worker behind
  \<open>ensure_peer_session\<close> are outside the model.
\<close>

section \<open>State\<close>

datatype peer_status =
  Sighted | Handshaking | PendingApproval | Active | Shelved | Reconnecting | Offline | ErrorStatus

record ladder_peer =
  lp_device_id :: string
  lp_has_current_worker :: bool
  lp_demand_owned :: bool
  lp_status :: peer_status
  lp_local_shelved :: bool
  lp_remote_shelved :: bool

record ladder_state =
  ls_me :: string
  ls_self_evicted :: bool
  ls_topology :: topology_mode
  ls_topology_impl :: topology_ops
  ls_silent :: bool
  ls_sticky :: "string list"
  ls_hub_limits :: "(u64 \<times> u64) option"
  ls_hub_dial_cursor :: nat
  ls_peers :: "ladder_peer list"

definition is_sticky :: "ladder_state \<Rightarrow> string \<Rightarrow> bool" where
  "is_sticky st device_id = (device_id \<in> set (ls_sticky st))"

section \<open>The shelve pass\<close>

definition shelve_peer :: "ladder_state \<Rightarrow> string set \<Rightarrow> ladder_peer \<Rightarrow> ladder_peer \<times> (string \<times> bool) list" where
  "shelve_peer st preferred peer =
     (let shape_wants_shelved =
            lp_device_id peer \<notin> preferred \<and> \<not> is_sticky st (lp_device_id peer);
          should_be_shelved = (shape_wants_shelved \<and> \<not> lp_demand_owned peer);
          prev = lp_local_shelved peer;
          status =
            (if should_be_shelved \<and> lp_status peer = Active then Shelved
             else if \<not> should_be_shelved \<and> lp_status peer = Shelved then Active
             else lp_status peer)
      in (peer\<lparr>lp_local_shelved := should_be_shelved, lp_status := status\<rparr>,
          if prev \<noteq> should_be_shelved then [(lp_device_id peer, should_be_shelved)] else []))"

fun shelve_loop ::
    "ladder_state \<Rightarrow> string set \<Rightarrow> ladder_peer list \<Rightarrow> ladder_peer list \<times> (string \<times> bool) list" where
  "shelve_loop st preferred [] = ([], [])"
| "shelve_loop st preferred (peer # rest) =
     (let (peers, frames) = shelve_loop st preferred rest in
      if lp_status peer = Active \<or> lp_status peer = Shelved
      then let (peer', frame) = shelve_peer st preferred peer in (peer' # peers, frame @ frames)
      else (peer # peers, frames))"

definition reevaluate_topology :: "ladder_state \<Rightarrow> ladder_state \<times> (string \<times> bool) list" where
  "reevaluate_topology st =
     (if ls_self_evicted st then (st, [])
      else
        let active_peers =
              map lp_device_id
                (filter (\<lambda>peer. lp_status peer = Active \<or> lp_status peer = Shelved) (ls_peers st)) in
        if active_peers = [] then (st, [])
        else
          let preferred = t_select_preferred (ls_topology_impl st) (ls_me st) active_peers;
              (peers, frames) = shelve_loop st preferred (ls_peers st)
          in (st\<lparr>ls_peers := peers\<rparr>, frames))"

section \<open>The plan\<close>

definition is_hub_tree :: "topology_mode \<Rightarrow> bool" where
  "is_hub_tree mode = (case mode of HubTree _ _ _ \<Rightarrow> True | _ \<Rightarrow> False)"

definition known_members :: "ladder_state \<Rightarrow> string list" where
  "known_members st = map lp_device_id (ls_peers st) @ [ls_me st]"

definition wants_prune :: "ladder_state \<Rightarrow> ladder_peer \<Rightarrow> bool" where
  "wants_prune st peer =
     (let edge = t_edge (ls_topology_impl st) (ls_me st) (lp_device_id peer) (known_members st);
          both_shelved = (lp_local_shelved peer \<and> lp_remote_shelved peer);
          settled = (lp_status peer = Shelved)
      in lp_has_current_worker peer \<and> \<not> is_hub_tree (ls_topology st) \<and> \<not> edge \<and> both_shelved \<and>
         settled \<and> \<not> is_sticky st (lp_device_id peer) \<and> \<not> lp_demand_owned peer)"

definition wants_dial :: "ladder_state \<Rightarrow> ladder_peer \<Rightarrow> bool" where
  "wants_dial st peer =
     (let device_id = lp_device_id peer;
          edge = t_edge (ls_topology_impl st) (ls_me st) device_id (known_members st)
      in \<not> lp_has_current_worker peer \<and> (edge \<or> is_sticky st device_id) \<and>
         (\<not> ls_silent st \<or> is_sticky st device_id) \<and> ls_me st < device_id)"

definition sort_dedup :: "string list \<Rightarrow> string list" where
  "sort_dedup xs = remdups_adj (sort xs)"

definition rotate_dials :: "nat \<Rightarrow> nat \<Rightarrow> string list \<Rightarrow> string list \<times> nat" where
  "rotate_dials max_per_pass cursor to_dial =
     (if to_dial = [] then (to_dial, cursor)
      else
        let start = cursor mod length to_dial;
            advance = min max_per_pass (length to_dial)
        in (take advance (rotate start to_dial), (start + advance) mod length to_dial))"

definition shape_plan :: "ladder_state \<Rightarrow> string list \<times> string list \<times> nat" where
  "shape_plan st =
     (if \<not> t_prunes (ls_topology_impl st) then ([], [], ls_hub_dial_cursor st)
      else
        let to_prune = sort_dedup (map lp_device_id (filter (wants_prune st) (ls_peers st)));
            to_dial = sort_dedup (map lp_device_id (filter (wants_dial st) (ls_peers st)))
        in case ls_hub_limits st of
             None \<Rightarrow> (to_prune, to_dial, ls_hub_dial_cursor st)
           | Some (max_parallel, max_per_pass) \<Rightarrow>
               let (to_dial', cursor) =
                     rotate_dials (unat max_per_pass) (ls_hub_dial_cursor st) to_dial
               in (to_prune, to_dial', cursor))"

section \<open>Running the dials\<close>

record dial_run =
  dr_pending :: "string list"
  dr_in_flight :: "string list"
  dr_started :: "string list"

definition dial_begin :: "nat \<Rightarrow> string list \<Rightarrow> dial_run" where
  "dial_begin parallel to_dial =
     \<lparr>dr_pending = drop parallel to_dial, dr_in_flight = take parallel to_dial,
      dr_started = take parallel to_dial\<rparr>"

definition dial_finished :: "dial_run \<Rightarrow> string \<Rightarrow> dial_run" where
  "dial_finished run done_id =
     (let rest = remove1 done_id (dr_in_flight run) in
      case dr_pending run of
        [] \<Rightarrow> run\<lparr>dr_in_flight := rest\<rparr>
      | next_id # pending \<Rightarrow>
          run\<lparr>dr_pending := pending, dr_in_flight := rest @ [next_id],
              dr_started := dr_started run @ [next_id]\<rparr>)"

inductive dial_reach :: "nat \<Rightarrow> string list \<Rightarrow> dial_run \<Rightarrow> bool" for parallel to_dial where
  start: "dial_reach parallel to_dial (dial_begin parallel to_dial)"
| finish: "\<lbrakk>dial_reach parallel to_dial run; done_id \<in> set (dr_in_flight run)\<rbrakk> \<Longrightarrow>
    dial_reach parallel to_dial (dial_finished run done_id)"

definition dial_shape_edge :: "ladder_state \<Rightarrow> string \<Rightarrow> string option" where
  "dial_shape_edge st device_id =
     (if ls_silent st \<and> \<not> is_sticky st device_id then None else Some device_id)"

section \<open>The shelve pass settles\<close>

definition shelvable :: "ladder_peer \<Rightarrow> bool" where
  "shelvable peer \<longleftrightarrow> lp_status peer = Active \<or> lp_status peer = Shelved"

definition should_shelve :: "ladder_state \<Rightarrow> string set \<Rightarrow> ladder_peer \<Rightarrow> bool" where
  "should_shelve st preferred peer \<longleftrightarrow>
     lp_device_id peer \<notin> preferred \<and> \<not> is_sticky st (lp_device_id peer) \<and> \<not> lp_demand_owned peer"

lemma shelve_peer_shelvable:
  assumes "shelvable peer"
  shows "shelve_peer st preferred peer =
    (if should_shelve st preferred peer
     then (peer\<lparr>lp_local_shelved := True, lp_status := Shelved\<rparr>,
           if lp_local_shelved peer then [] else [(lp_device_id peer, True)])
     else (peer\<lparr>lp_local_shelved := False, lp_status := Active\<rparr>,
           if lp_local_shelved peer then [(lp_device_id peer, False)] else []))"
  using assms
  by (cases "should_shelve st preferred peer"; cases "lp_status peer")
     (auto simp: shelve_peer_def Let_def should_shelve_def shelvable_def)

lemma shelve_loop_cong:
  assumes "is_sticky st = is_sticky st'"
  shows "shelve_loop st preferred peers = shelve_loop st' preferred peers"
proof -
  have "shelve_peer st preferred p = shelve_peer st' preferred p" for p
    using assms by (simp add: shelve_peer_def)
  then show ?thesis by (induction peers) (simp_all cong: if_cong)
qed

lemma shelve_loop_Cons:
  "shelve_loop st preferred (p # ps) =
   (let (peers, frames) = shelve_loop st preferred ps in
    if shelvable p then (fst (shelve_peer st preferred p) # peers, snd (shelve_peer st preferred p) @ frames)
    else (p # peers, frames))"
  by (simp add: shelvable_def split: prod.split)

declare shelve_loop.simps(2) [simp del]

definition shelved_peer :: "ladder_state \<Rightarrow> string set \<Rightarrow> ladder_peer \<Rightarrow> ladder_peer" where
  "shelved_peer st preferred p = (if shelvable p then fst (shelve_peer st preferred p) else p)"

lemma shelved_peer_simps [simp]:
  "lp_device_id (shelved_peer st preferred p) = lp_device_id p"
  "shelvable (shelved_peer st preferred p) = shelvable p"
  "lp_demand_owned (shelved_peer st preferred p) = lp_demand_owned p"
  by (simp_all add: shelved_peer_def shelve_peer_shelvable, simp_all add: shelvable_def)

lemma shelved_peer_outcome:
  assumes "shelvable p"
  shows "lp_local_shelved (shelved_peer st preferred p) = should_shelve st preferred p"
    "lp_status (shelved_peer st preferred p) = (if should_shelve st preferred p then Shelved else Active)"
  using assms by (simp_all add: shelved_peer_def shelve_peer_shelvable)

lemma should_shelve_shelved [simp]:
  "should_shelve st preferred (shelved_peer st preferred p) = should_shelve st preferred p"
  by (simp add: should_shelve_def)

lemma shelve_again:
  assumes "shelvable p"
  shows "shelve_peer st preferred (shelved_peer st preferred p) = (shelved_peer st preferred p, [])"
  using assms shelved_peer_outcome [OF assms, of st preferred]
  by (simp add: shelve_peer_shelvable)

lemma shelve_loop_peers: "fst (shelve_loop st preferred peers) = map (shelved_peer st preferred) peers"
  by (induction peers) (simp_all add: shelve_loop_Cons shelved_peer_def case_prod_beta Let_def)

lemma shelve_loop_again:
  "shelve_loop st preferred (map (shelved_peer st preferred) peers) =
   (map (shelved_peer st preferred) peers, [])"
  by (induction peers) (simp_all add: shelve_loop_Cons shelve_again)

lemma shelvable_shelved: "filter shelvable (map (shelved_peer st preferred) peers) =
    map (shelved_peer st preferred) (filter shelvable peers)"
  by (induction peers) simp_all

lemma reevaluate_active:
  assumes "\<not> ls_self_evicted st" "filter shelvable (ls_peers st) \<noteq> []"
  shows "reevaluate_topology st =
    (let (peers, frames) = shelve_loop st
           (t_select_preferred (ls_topology_impl st) (ls_me st)
              (map lp_device_id (filter shelvable (ls_peers st)))) (ls_peers st)
     in (st\<lparr>ls_peers := peers\<rparr>, frames))"
  using assms by (simp add: reevaluate_topology_def shelvable_def [abs_def] Let_def)

lemma reevaluate_inactive:
  assumes "ls_self_evicted st \<or> filter shelvable (ls_peers st) = []"
  shows "reevaluate_topology st = (st, [])"
  using assms by (auto simp: reevaluate_topology_def shelvable_def [abs_def] Let_def)

lemma reevaluate_idempotent:
  "reevaluate_topology (fst (reevaluate_topology st)) = (fst (reevaluate_topology st), [])"
proof (cases "ls_self_evicted st \<or> filter shelvable (ls_peers st) = []")
  case True
  then show ?thesis by (simp add: reevaluate_inactive)
next
  case False
  let ?ids = "map lp_device_id (filter shelvable (ls_peers st))"
  let ?pref = "t_select_preferred (ls_topology_impl st) (ls_me st) ?ids"
  let ?st = "st\<lparr>ls_peers := map (shelved_peer st ?pref) (ls_peers st)\<rparr>"
  have first: "fst (reevaluate_topology st) = ?st"
    using False by (simp add: reevaluate_active Let_def case_prod_beta shelve_loop_peers)
  have ids: "map lp_device_id (filter shelvable (ls_peers ?st)) = ?ids"
    by (simp add: shelvable_shelved)
  have "shelve_loop ?st ?pref (ls_peers ?st) = (ls_peers ?st, [])"
    using shelve_loop_cong [of ?st st ?pref] shelve_loop_again
    by (simp add: is_sticky_def [abs_def])
  moreover have "filter shelvable (ls_peers ?st) \<noteq> []" using False by (simp add: shelvable_shelved)
  ultimately have "reevaluate_topology ?st = (?st, [])"
    using False ids by (simp add: reevaluate_active)
  then show ?thesis by (simp add: first)
qed

section \<open>Plans\<close>

abbreviation plan_prune :: "ladder_state \<Rightarrow> string list" where
  "plan_prune st \<equiv> fst (shape_plan st)"

abbreviation plan_dial :: "ladder_state \<Rightarrow> string list" where
  "plan_dial st \<equiv> fst (snd (shape_plan st))"

lemma set_sort_dedup [simp]: "set (sort_dedup xs) = set xs"
  by (simp add: sort_dedup_def)

lemma plan_prune_iff:
  "t_prunes (ls_topology_impl st) \<Longrightarrow>
   d \<in> set (plan_prune st) \<longleftrightarrow> (\<exists>p \<in> set (ls_peers st). lp_device_id p = d \<and> wants_prune st p)"
  by (auto simp: shape_plan_def Let_def case_prod_beta split: option.split)

lemma rotate_dials_sub: "set (fst (rotate_dials m c xs)) \<subseteq> set xs"
  by (auto simp: rotate_dials_def Let_def dest: in_set_takeD)

lemma plan_dial_sub:
  "d \<in> set (plan_dial st) \<Longrightarrow> \<exists>p \<in> set (ls_peers st). lp_device_id p = d \<and> wants_dial st p"
  using rotate_dials_sub
  by (fastforce simp: shape_plan_def Let_def case_prod_beta split: option.splits if_splits)

lemma plan_dial_iff:
  "\<lbrakk>t_prunes (ls_topology_impl st); ls_hub_limits st = None\<rbrakk> \<Longrightarrow>
   d \<in> set (plan_dial st) \<longleftrightarrow> (\<exists>p \<in> set (ls_peers st). lp_device_id p = d \<and> wants_dial st p)"
  by (auto simp: shape_plan_def Let_def)

lemma unique_peer:
  assumes "distinct (known_members st)" "p \<in> set (ls_peers st)" "q \<in> set (ls_peers st)"
    "lp_device_id p = lp_device_id q"
  shows "p = q"
  using assms unfolding known_members_def by (auto simp: distinct_map dest: inj_onD)

lemma plan_dial_peer:
  assumes "t_prunes (ls_topology_impl st)" "ls_hub_limits st = None" "distinct (known_members st)"
    "p \<in> set (ls_peers st)" "lp_device_id p = d"
  shows "d \<in> set (plan_dial st) \<longleftrightarrow> wants_dial st p"
proof -
  have "d \<in> set (plan_dial st) \<longleftrightarrow> (\<exists>q \<in> set (ls_peers st). lp_device_id q = d \<and> wants_dial st q)"
    using assms(1,2) by (rule plan_dial_iff)
  moreover have "q = p" if "q \<in> set (ls_peers st)" "lp_device_id q = d" for q
    using unique_peer [OF assms(3) that(1) assms(4)] that(2) assms(5) by simp
  ultimately show ?thesis using assms(4,5) by blast
qed

section \<open>Rotation of the hub dial cursor\<close>

lemma rotate_dials_nth:
  assumes "xs \<noteq> []" "i < min m (length xs)"
  shows "xs ! ((c + i) mod length xs) \<in> set (fst (rotate_dials m c xs))"
proof -
  let ?s = "c mod length xs"
  have "take (min m (length xs)) (rotate ?s xs) ! i = xs ! ((?s + i) mod length xs)"
    using assms by (simp add: nth_rotate)
  moreover have "i < length (take (min m (length xs)) (rotate ?s xs))" using assms by simp
  ultimately have "xs ! ((?s + i) mod length xs) \<in> set (take (min m (length xs)) (rotate ?s xs))"
    by (metis nth_mem)
  then show ?thesis using assms(1) by (simp add: rotate_dials_def Let_def mod_add_left_eq)
qed

lemma rotate_dials_cursor:
  assumes "xs \<noteq> []"
  shows "(((\<lambda>c. snd (rotate_dials m c xs)) ^^ k) c) mod length xs =
    (c + k * min m (length xs)) mod length xs"
proof (induction k)
  case (Suc k)
  let ?c = "((\<lambda>c. snd (rotate_dials m c xs)) ^^ k) c"
  have "snd (rotate_dials m ?c xs) mod length xs = (?c mod length xs + min m (length xs)) mod length xs"
    using assms by (simp add: rotate_dials_def Let_def)
  also have "\<dots> = (c + k * min m (length xs) + min m (length xs)) mod length xs"
    unfolding Suc.IH by (rule mod_add_left_eq)
  finally show ?case by (simp add: algebra_simps)
qed simp

lemma rotation_covers:
  assumes "xs \<noteq> []" "0 < m" "x \<in> set xs"
  shows "\<exists>k \<le> (length xs - 1) div min m (length xs).
    x \<in> set (fst (rotate_dials m (((\<lambda>c. snd (rotate_dials m c xs)) ^^ k) c) xs))"
proof -
  let ?n = "length xs" and ?a = "min m (length xs)"
  have a: "0 < ?a" using assms by simp
  obtain j where j: "j < ?n" "xs ! j = x" using assms(3) by (auto simp: in_set_conv_nth)
  define d where "d = (j + (?n - c mod ?n)) mod ?n"
  have d: "d < ?n" using assms(1) by (simp add: d_def)
  have "(c + d) mod ?n = (c mod ?n + (j + (?n - c mod ?n))) mod ?n"
    unfolding d_def mod_add_left_eq mod_add_right_eq ..
  also have "c mod ?n + (j + (?n - c mod ?n)) = j + ?n"
  proof -
    have "c mod ?n \<le> ?n" by (rule mod_le_divisor) (simp add: assms(1))
    then show ?thesis by (simp only: add.left_commute [of "c mod ?n" j] le_add_diff_inverse)
  qed
  finally have cd: "(c + d) mod ?n = j" using j(1) by simp
  let ?c = "((\<lambda>c. snd (rotate_dials m c xs)) ^^ (d div ?a)) c"
  have "(?c + d mod ?a) mod ?n = (?c mod ?n + d mod ?a) mod ?n" by (rule mod_add_left_eq [symmetric])
  also have "\<dots> = (c + d div ?a * ?a + d mod ?a) mod ?n"
    unfolding rotate_dials_cursor [OF assms(1)] by (rule mod_add_left_eq)
  also have "\<dots> = j" unfolding add.assoc div_mult_mod_eq by (rule cd)
  finally have "(?c + d mod ?a) mod ?n = j" .
  moreover have "d mod ?a < ?a" using a by (rule mod_less_divisor)
  ultimately have "x \<in> set (fst (rotate_dials m ?c xs))"
    using rotate_dials_nth [OF assms(1), of "d mod ?a" m ?c] j(2) by simp
  moreover have "d div ?a \<le> (?n - 1) div ?a" using d by (intro div_le_mono) simp
  ultimately show ?thesis by blast
qed

section \<open>Dials in flight\<close>

lemma dial_reach_inv:
  "dial_reach parallel to_dial run \<Longrightarrow>
   length (dr_in_flight run) \<le> parallel \<and> dr_started run @ dr_pending run = to_dial \<and>
   (dr_pending run = [] \<or> length (dr_in_flight run) = parallel)"
proof (induction rule: dial_reach.induct)
  case start
  show ?case by (auto simp: dial_begin_def)
next
  case (finish run done_id)
  then have "0 < length (dr_in_flight run)" by (cases "dr_in_flight run") auto
  with finish show ?case
    by (cases "dr_pending run") (auto simp: dial_finished_def Let_def length_remove1)
qed

lemma dial_finished_decreases:
  assumes "done_id \<in> set (dr_in_flight run)"
  shows "length (dr_pending (dial_finished run done_id)) + length (dr_in_flight (dial_finished run done_id)) <
    length (dr_pending run) + length (dr_in_flight run)"
proof -
  have "0 < length (dr_in_flight run)" using assms by (cases "dr_in_flight run") auto
  then show ?thesis
    using assms by (cases "dr_pending run") (auto simp: dial_finished_def Let_def length_remove1)
qed

section \<open>Properties\<close>

text \<open>
  C9: two members never glare. Let two members run the selector of one mode with the same set of
  known members, neither connected to the other, neither silent, neither pinning the other and
  neither under a hub dial limit. Then exactly one of them plans to dial the other when the mode
  has an edge between them, and neither does when it has none.
\<close>

theorem dial_without_glare:
  assumes impl: "ls_topology_impl A = from_mode sha mode" "ls_topology_impl B = from_mode sha mode"
    and prunes: "t_prunes (from_mode sha mode)"
    and views: "distinct (known_members A)" "distinct (known_members B)"
      "set (known_members A) = set (known_members B)"
    and peers: "pb \<in> set (ls_peers A)" "lp_device_id pb = ls_me B"
      "pa \<in> set (ls_peers B)" "lp_device_id pa = ls_me A"
    and free: "\<not> lp_has_current_worker pb" "\<not> lp_has_current_worker pa"
    and open_mode: "\<not> ls_silent A" "\<not> ls_silent B" "\<not> is_sticky A (ls_me B)" "\<not> is_sticky B (ls_me A)"
      "ls_hub_limits A = None" "ls_hub_limits B = None"
  shows "(t_edge (from_mode sha mode) (ls_me A) (ls_me B) (known_members A) \<longleftrightarrow>
      (ls_me B \<in> set (plan_dial A)) \<noteq> (ls_me A \<in> set (plan_dial B))) \<and>
    \<not> (ls_me B \<in> set (plan_dial A) \<and> ls_me A \<in> set (plan_dial B))"
proof -
  let ?e = "t_edge (from_mode sha mode) (ls_me A) (ls_me B) (known_members A)"
  have agree: "?e = t_edge (from_mode sha mode) (ls_me B) (ls_me A) (known_members B)"
    by (rule shape.views_agree [OF views])
  have "ls_me A \<notin> lp_device_id ` set (ls_peers A)" using views(1) by (simp add: known_members_def)
  then have ne: "ls_me A \<noteq> ls_me B" using peers(1,2) by (metis imageI)
  have "wants_dial A pb \<longleftrightarrow> ?e \<and> ls_me A < ls_me B"
    using free(1) open_mode unfolding wants_dial_def Let_def impl(1) peers(2) by blast
  then have A: "ls_me B \<in> set (plan_dial A) \<longleftrightarrow> ?e \<and> ls_me A < ls_me B"
    using plan_dial_peer [OF _ open_mode(5) views(1) peers(1,2)] prunes unfolding impl(1) by blast
  have "wants_dial B pa \<longleftrightarrow> ?e \<and> ls_me B < ls_me A"
    using free(2) open_mode unfolding wants_dial_def Let_def impl(2) peers(4) agree by blast
  then have B: "ls_me A \<in> set (plan_dial B) \<longleftrightarrow> ?e \<and> ls_me B < ls_me A"
    using plan_dial_peer [OF _ open_mode(6) views(2) peers(3,4)] prunes unfolding impl(2) by blast
  have "(ls_me B < ls_me A) = (\<not> ls_me A < ls_me B)" using ne by (metis linorder_neqE less_asym)
  then show ?thesis unfolding A B by blast
qed

definition sample_ladder :: "string \<Rightarrow> string \<Rightarrow> ladder_state" where
  "sample_ladder me peer =
     \<lparr>ls_me = me, ls_self_evicted = False, ls_topology = Star ''h'',
      ls_topology_impl = from_mode (\<lambda>bs. bs) (Star ''h''), ls_silent = False, ls_sticky = [],
      ls_hub_limits = None, ls_hub_dial_cursor = 0,
      ls_peers = [\<lparr>lp_device_id = peer, lp_has_current_worker = False, lp_demand_owned = False,
        lp_status = Sighted, lp_local_shelved = False, lp_remote_shelved = False\<rparr>]\<rparr>"

theorem dial_without_glare_witness:
  "(''s'' \<in> set (plan_dial (sample_ladder ''h'' ''s''))) \<noteq> (''h'' \<in> set (plan_dial (sample_ladder ''s'' ''h'')))"
proof -
  let ?peer = "\<lambda>d. \<lparr>lp_device_id = d, lp_has_current_worker = False, lp_demand_owned = False,
        lp_status = Sighted, lp_local_shelved = False, lp_remote_shelved = False\<rparr>"
  have "t_edge (from_mode (\<lambda>bs. bs) (Star ''h'')) ''h'' ''s'' [''s'', ''h'']"
    by (simp add: from_mode_def star_edge_def Let_def)
  then show ?thesis
    using dial_without_glare [of "sample_ladder ''h'' ''s''" "\<lambda>bs. bs" "Star ''h''" "sample_ladder ''s'' ''h''"
        "?peer ''s''" "?peer ''h''"]
    by (simp add: sample_ladder_def known_members_def is_sticky_def from_mode_def insert_commute)
qed

text \<open>
  C10: a pruned link stays down. When the plan prunes a peer (registry ids being distinct), the peer
  is not pinned, not on demand and not an edge of the shape, both sides have shelved it, and the plan
  of the state in which its session is gone does not dial it again.
\<close>

theorem pruned_stays_down:
  assumes "t_prunes (ls_topology_impl st)" "distinct (known_members st)" "d \<in> set (plan_prune st)"
    and "st' = st\<lparr>ls_peers := map (\<lambda>p. if lp_device_id p = d then p\<lparr>lp_has_current_worker := False\<rparr> else p)
                    (ls_peers st)\<rparr>"
  shows "\<not> t_edge (ls_topology_impl st) (ls_me st) d (known_members st) \<and> \<not> is_sticky st d \<and>
    d \<notin> set (plan_dial st) \<and> d \<notin> set (plan_dial st')"
proof -
  obtain p where p: "p \<in> set (ls_peers st)" "lp_device_id p = d" "wants_prune st p"
    using assms(1,3) plan_prune_iff by blast
  then have no: "\<not> t_edge (ls_topology_impl st) (ls_me st) d (known_members st)" "\<not> is_sticky st d"
    by (auto simp: wants_prune_def Let_def)
  have members: "known_members st' = known_members st"
    by (simp add: assms(4) known_members_def comp_def if_distrib)
  have "\<not> wants_dial st q" if "lp_device_id q = d" for q
    using no that by (simp add: wants_dial_def Let_def)
  moreover have "\<not> wants_dial st' q" if "lp_device_id q = d" for q
    using no that members by (simp add: wants_dial_def Let_def assms(4) is_sticky_def)
  ultimately show ?thesis using no plan_dial_sub by blast
qed

definition sample_shelved :: ladder_state where
  "sample_shelved = (sample_ladder ''s'' ''t'')
     \<lparr>ls_peers := [\<lparr>lp_device_id = ''t'', lp_has_current_worker = True, lp_demand_owned = False,
        lp_status = Shelved, lp_local_shelved = True, lp_remote_shelved = True\<rparr>]\<rparr>"

theorem pruned_stays_down_witness:
  "''t'' \<in> set (plan_prune sample_shelved) \<and> ''t'' \<notin> set (plan_dial sample_shelved)"
proof -
  have "''t'' \<in> set (plan_prune sample_shelved)"
    by (subst plan_prune_iff)
       (simp_all add: sample_shelved_def sample_ladder_def wants_prune_def known_members_def is_sticky_def
         from_mode_def star_edge_def is_hub_tree_def canonical_key_def Let_def)
  moreover have "t_prunes (ls_topology_impl sample_shelved)" "distinct (known_members sample_shelved)"
    by (simp_all add: sample_shelved_def sample_ladder_def known_members_def from_mode_def)
  ultimately show ?thesis using pruned_stays_down [OF _ _ _ refl, of sample_shelved "''t''"] by simp
qed

text \<open>
  C11: the shelve pass settles. Running \<open>reevaluate_topology\<close> a second time changes nothing and sends no
  frame, in every mode and from every state.
\<close>

theorem shelve_pass_settles:
  "reevaluate_topology (fst (reevaluate_topology st)) = (fst (reevaluate_topology st), [])"
  by (rule reevaluate_idempotent)

text \<open>
  C12: no wanted edge starves. With a hub dial limit of at least one dial per pass and an unchanged
  list of wanted edges, every edge of the list is dialled within
  \<open>(n - 1) div min limit n\<close> further passes, from any value of the cursor.
\<close>

theorem hub_rotation_fair:
  assumes "to_dial \<noteq> []" "0 < max_per_pass" "x \<in> set to_dial"
  shows "\<exists>k \<le> (length to_dial - 1) div min max_per_pass (length to_dial).
    x \<in> set (fst (rotate_dials max_per_pass
           (((\<lambda>c. snd (rotate_dials max_per_pass c to_dial)) ^^ k) cursor) to_dial))"
  using rotation_covers [OF assms] .

theorem hub_rotation_fair_witness:
  "\<exists>k \<le> 1. ''c'' \<in> set (fst (rotate_dials 2
      (((\<lambda>c. snd (rotate_dials 2 c [''a'', ''b'', ''c''])) ^^ k) 0) [''a'', ''b'', ''c'']))"
  using hub_rotation_fair [of "[''a'', ''b'', ''c'']" 2 "''c''" 0] by simp

text \<open>
  C13: bounded parallel dials. At every moment of running a plan with a positive parallelism at most
  \<open>parallel\<close> dials are in flight, the started and the pending dials are the plan in order, each
  finished dial makes the remaining work smaller, and when nothing is in flight all are started.
\<close>

theorem dial_run_bounded:
  assumes "dial_reach parallel to_dial run" "0 < parallel"
  shows "length (dr_in_flight run) \<le> parallel \<and> dr_started run @ dr_pending run = to_dial \<and>
    (dr_in_flight run = [] \<longrightarrow> dr_started run = to_dial) \<and>
    (\<forall>done_id \<in> set (dr_in_flight run).
       length (dr_pending (dial_finished run done_id)) + length (dr_in_flight (dial_finished run done_id)) <
       length (dr_pending run) + length (dr_in_flight run))"
  using dial_reach_inv [OF assms(1)] assms(2) dial_finished_decreases by fastforce

theorem dial_run_bounded_witness:
  "dr_started (dial_finished (dial_begin 1 [''a'', ''b'']) ''a'') @
   dr_pending (dial_finished (dial_begin 1 [''a'', ''b'']) ''a'') = [''a'', ''b'']"
proof -
  have "dial_reach 1 [''a'', ''b''] (dial_finished (dial_begin 1 [''a'', ''b'']) ''a'')"
    by (intro dial_reach.intros) (simp add: dial_begin_def)
  then show ?thesis using dial_run_bounded by fastforce
qed

end
