(* ===== verification/Funded_Store.thy ===== *)
theory Funded_Store
  imports "HOL-Library.Multiset"
begin

text \<open>
  The contract of the containers whose entries are paid for by leases (\<open>resource/map.rs\<close>,
  \<open>resource/queue.rs\<close>): the operations refine a specification on the contents, and the leases that
  operations give back, together with those still held, are the leases that were supplied. A step
  that panics has no result; the container without panics is the special case.
\<close>

locale fallible_store =
  fixes ok :: "'m \<Rightarrow> bool"
    and contents :: "'m \<Rightarrow> 'b"
    and leases :: "'m \<Rightarrow> 'l multiset"
    and step :: "'o \<Rightarrow> 'm \<Rightarrow> ('m \<times> 'e) option"
    and spec :: "'o \<Rightarrow> 'b \<Rightarrow> 'b \<times> 'r"
    and view :: "'e \<Rightarrow> 'r"
    and freed :: "'e \<Rightarrow> 'l multiset"
    and supplied :: "'o \<Rightarrow> 'l multiset"
  assumes keeps: "\<lbrakk>ok m; step op m = Some (m', r)\<rbrakk> \<Longrightarrow> ok m'"
    and refines: "\<lbrakk>ok m; step op m = Some (m', r)\<rbrakk> \<Longrightarrow> spec op (contents m) = (contents m', view r)"
    and conserves: "\<lbrakk>ok m; step op m = Some (m', r)\<rbrakk> \<Longrightarrow> leases m' + freed r = leases m + supplied op"
begin

fun run :: "'o list \<Rightarrow> 'm \<Rightarrow> ('m \<times> 'e list) option" where
  "run [] m = Some (m, [])"
| "run (op # ops) m =
     (case step op m of
        None \<Rightarrow> None
      | Some (m', r) \<Rightarrow> (case run ops m' of None \<Rightarrow> None | Some (m'', rs) \<Rightarrow> Some (m'', r # rs)))"

fun spec_run :: "'o list \<Rightarrow> 'b \<Rightarrow> 'b \<times> 'r list" where
  "spec_run [] b = (b, [])"
| "spec_run (op # ops) b = (let (b', r) = spec op b; (b'', rs) = spec_run ops b' in (b'', r # rs))"

lemma run_facts:
  assumes "ok m" "run ops m = Some (m', rs)"
  shows "ok m' \<and> spec_run ops (contents m) = (contents m', map view rs) \<and>
    leases m' + sum_list (map freed rs) = leases m + sum_list (map supplied ops)"
  using assms
proof (induction ops arbitrary: m rs)
  case (Cons op ops)
  obtain m1 r rs' where s: "step op m = Some (m1, r)" and r: "run ops m1 = Some (m', rs')" and rs: "rs = r # rs'"
    using Cons.prems(2) by (auto split: option.splits)
  have c: "leases m1 + freed r = leases m + supplied op" using conserves [OF Cons.prems(1) s] .
  have IH: "ok m' \<and> spec_run ops (contents m1) = (contents m', map view rs') \<and>
      leases m' + sum_list (map freed rs') = leases m1 + sum_list (map supplied ops)"
    using Cons.IH [OF keeps [OF Cons.prems(1) s] r] .
  have "leases m' + (freed r + sum_list (map freed rs')) = (leases m1 + freed r) + sum_list (map supplied ops)"
    using IH by (metis add.assoc add.left_commute)
  then show ?case using IH refines [OF Cons.prems(1) s] rs c by (simp add: add.assoc)
qed simp

lemma run_total:
  assumes "ok m" "size (leases m) + size (sum_list (map supplied ops)) \<le> bound"
    and "\<And>op m. \<lbrakk>ok m; size (leases m) + size (supplied op) \<le> bound\<rbrakk> \<Longrightarrow> step op m \<noteq> None"
  shows "run ops m \<noteq> None"
  using assms(1,2)
proof (induction ops arbitrary: m)
  case (Cons op ops)
  then obtain m1 r where s: "step op m = Some (m1, r)" using assms(3) [of m op] by auto
  have "size (leases m1) \<le> size (leases m) + size (supplied op)"
    using arg_cong [OF conserves [OF Cons.prems(1) s], of size] by simp
  then have "run ops m1 \<noteq> None" using Cons.IH [of m1] keeps [OF Cons.prems(1) s] Cons.prems by simp
  then show ?case using s by auto
qed simp

end

locale funded_store =
  fixes ok :: "'m \<Rightarrow> bool"
    and contents :: "'m \<Rightarrow> 'b"
    and leases :: "'m \<Rightarrow> 'l multiset"
    and step :: "'o \<Rightarrow> 'm \<Rightarrow> 'm \<times> 'e"
    and spec :: "'o \<Rightarrow> 'b \<Rightarrow> 'b \<times> 'r"
    and view :: "'e \<Rightarrow> 'r"
    and freed :: "'e \<Rightarrow> 'l multiset"
    and supplied :: "'o \<Rightarrow> 'l multiset"
  assumes keeps_step: "\<lbrakk>ok m; step op m = (m', r)\<rbrakk> \<Longrightarrow> ok m'"
    and refines_step: "\<lbrakk>ok m; step op m = (m', r)\<rbrakk> \<Longrightarrow> spec op (contents m) = (contents m', view r)"
    and conserves_step: "\<lbrakk>ok m; step op m = (m', r)\<rbrakk> \<Longrightarrow> leases m' + freed r = leases m + supplied op"

sublocale funded_store \<subseteq> fallible_store ok contents leases "\<lambda>op m. Some (step op m)" spec view freed supplied
  by unfold_locales (use keeps_step refines_step conserves_step in auto)

context funded_store
begin

fun steps :: "'o list \<Rightarrow> 'm \<Rightarrow> 'm \<times> 'e list" where
  "steps [] m = (m, [])"
| "steps (op # ops) m = (let (m', r) = step op m; (m'', rs) = steps ops m' in (m'', r # rs))"

lemma run_steps: "run ops m = Some (steps ops m)"
  by (induction ops arbitrary: m) (auto split: prod.splits)

lemmas steps_facts = run_facts [unfolded run_steps, simplified]

end

end
