(* ===== verification/Parenting.thy ===== *)
theory Parenting
  imports Leased_Map Resource_Provider "HOL-Library.Product_Lexorder"
begin

text \<open>
  Bounded hub-tree parenting (\<open>engine/parenting.rs\<close>): the table of parent and child relations of one
  device, its policy, and the whole of its operations. The table is the contents of the leased map;
  \<open>Leased_Map\<close> proves that the map behaves as such contents. Two inputs of the environment are
  arguments: the reading of the clock, and the answer of the resource scope to the claim for one
  entry. Counters are of type \<open>usize\<close>, kept as natural numbers with their bound written out.
\<close>

section \<open>Data\<close>

type_synonym device_key = "byte list"
type_synonym parenting_key = "device_key \<times> u16"

datatype parenting_role = Root | Hub u8 | Leaf

record owner_coordinate =
  oc_peer :: device_key
  oc_binding_namespace :: "byte list"
  oc_binding_epoch :: u64

datatype relation_kind = KindPrimary | KindBackup

record attach_request =
  rq_context_id :: "byte list"
  rq_configuration_digest :: "byte list"
  rq_request_sequence :: u64
  rq_child :: device_key
  rq_parent :: device_key
  rq_child_role :: parenting_role
  rq_parent_role :: parenting_role
  rq_kind :: relation_kind

datatype attach_rejection =
  RejUnsupportedRole | RejNotCurrentOwner | RejCapacity | RejStaleRequest | RejContextMismatch
| RejConfigurationMismatch

datatype attach_response =
  Accepted attach_request u64
| Rejected attach_request attach_rejection

datatype parent_adoption = AdoptionAccepted | AdoptionRejected attach_rejection

record attach_ticket =
  tk_key :: parenting_key
  tk_request_sequence :: u64
  tk_relation_generation :: u64
  tk_owner :: owner_coordinate

record parenting_policy =
  pp_local :: device_key
  pp_root :: device_key
  pp_role :: parenting_role
  pp_max_hub_tier :: u8
  pp_max_children :: nat
  pp_max_backups :: nat
  pp_max_pending :: nat
  pp_max_age_ticks :: u64
  pp_context_id :: "byte list"
  pp_configuration_digest :: "byte list"

datatype parenting_refusal =
  InvalidPolicy | InvalidRequest | InvalidOwner | ContextMismatch | ConfigurationMismatch
| UnsupportedRole | Capacity | OwnerMismatch | StaleRequest | PendingMismatch | GenerationOverflow
| TimeOverflow | ArithmeticFailed | InvariantFailed | ProviderRefused unavailable | ClockRegression

datatype relation_state = RelPending | RelPrimary | RelBackup

record parenting_relation =
  rl_owner :: owner_coordinate
  rl_parent :: device_key
  rl_child_role :: parenting_role
  rl_parent_role :: parenting_role
  rl_kind :: relation_kind
  rl_request_sequence :: u64
  rl_relation_generation :: u64
  rl_expires_at :: u64
  rl_state :: relation_state

record relation_snapshot =
  sn_child :: device_key
  sn_parent :: device_key
  sn_owner :: "byte list"
  sn_owner_epoch :: u64
  sn_kind :: relation_kind
  sn_relation_generation :: u64

record parenting_state =
  ps_records :: "(parenting_key, parenting_relation) bmap"
  ps_policy :: parenting_policy
  ps_next_relation_generation :: u64
  ps_primary_children :: nat
  ps_backup_children :: nat
  ps_pending_count :: nat
  ps_record_count :: nat
  ps_last_now :: "u64 option"
  ps_maintenance_cursor :: "parenting_key option"

type_synonym 'a parenting_result = "parenting_state \<times> (parenting_refusal + 'a)"

fun and_then :: "'a parenting_result \<Rightarrow> (parenting_state \<Rightarrow> 'a \<Rightarrow> 'b parenting_result) \<Rightarrow> 'b parenting_result" where
  "and_then (st, Inl e) f = (st, Inl e)"
| "and_then (st, Inr a) f = f st a"

section \<open>Requests and policy\<close>

definition attach_request_new ::
    "byte list \<Rightarrow> byte list \<Rightarrow> u64 \<Rightarrow> device_key \<Rightarrow> device_key \<Rightarrow> parenting_role \<Rightarrow> parenting_role \<Rightarrow>
     relation_kind \<Rightarrow> parenting_refusal + attach_request" where
  "attach_request_new context_id digest sequence child parent child_role parent_role kind =
     (if sequence = 0 \<or> child = parent then Inl InvalidRequest
      else Inr \<lparr>rq_context_id = context_id, rq_configuration_digest = digest,
                rq_request_sequence = sequence, rq_child = child, rq_parent = parent,
                rq_child_role = child_role, rq_parent_role = parent_role, rq_kind = kind\<rparr>)"

definition relation_bound :: "parenting_policy \<Rightarrow> parenting_refusal + nat" where
  "relation_bound p =
     (case usize_add (pp_max_backups p) 1 of
        None \<Rightarrow> Inl ArithmeticFailed
      | Some per_child \<Rightarrow>
          (case Option.bind (usize_mul (pp_max_children p) per_child)
                  (\<lambda>children. Option.bind (usize_add children (pp_max_pending p))
                     (\<lambda>records. usize_add records 1)) of
             None \<Rightarrow> Inl ArithmeticFailed
           | Some bound \<Rightarrow> Inr bound))"

definition policy_checked :: "parenting_policy \<Rightarrow> parenting_refusal + parenting_policy" where
  "policy_checked p =
     (if pp_max_hub_tier p \<noteq> 1 \<or> pp_max_pending p \<noteq> 1 \<or> pp_max_age_ticks p = 0 \<or>
         pp_max_backups p > 65535 - 1 \<or>
         (case pp_role p of Hub tier \<Rightarrow> tier \<noteq> 1 | _ \<Rightarrow> False) \<or>
         (pp_role p \<noteq> Root \<and> pp_local p = pp_root p) \<or>
         (pp_role p = Root \<and> pp_local p \<noteq> pp_root p)
      then Inl InvalidPolicy
      else case relation_bound p of Inl e \<Rightarrow> Inl e | Inr _ \<Rightarrow> Inr p)"

definition slot_backup :: "parenting_policy \<Rightarrow> nat \<Rightarrow> parenting_refusal + u16" where
  "slot_backup p index =
     (if index \<ge> pp_max_backups p then Inl Capacity
      else case usize_add index 1 of
             None \<Rightarrow> Inl ArithmeticFailed
           | Some slot \<Rightarrow> if slot < 2 ^ 16 then Inr (word_of_nat slot) else Inl InvalidPolicy)"

definition accepts_child :: "parenting_policy \<Rightarrow> parenting_role \<Rightarrow> bool" where
  "accepts_child p child_role =
     (case pp_role p of
        Root \<Rightarrow> child_role = Hub 1
      | Hub tier \<Rightarrow> tier = 1 \<and> child_role = Leaf
      | Leaf \<Rightarrow> False)"

definition accepts_parent :: "parenting_policy \<Rightarrow> device_key \<Rightarrow> parenting_role \<Rightarrow> bool" where
  "accepts_parent p parent parent_role =
     (case pp_role p of
        Root \<Rightarrow> False
      | Hub tier \<Rightarrow> tier = 1 \<and> parent = pp_root p \<and> parent_role = Root
      | Leaf \<Rightarrow> parent \<noteq> pp_root p \<and> parent_role = Hub 1)"

section \<open>The table\<close>

definition parenting_new :: "parenting_policy \<Rightarrow> parenting_refusal + parenting_state" where
  "parenting_new policy =
     (case policy_checked policy of
        Inl e \<Rightarrow> Inl e
      | Inr policy \<Rightarrow>
          Inr \<lparr>ps_records = [], ps_policy = policy, ps_next_relation_generation = 1,
               ps_primary_children = 0, ps_backup_children = 0, ps_pending_count = 0,
               ps_record_count = 0, ps_last_now = None, ps_maintenance_cursor = None\<rparr>)"

definition parenting_now :: "u64 \<Rightarrow> parenting_state \<Rightarrow> u64 parenting_result" where
  "parenting_now clock st =
     (if (case ps_last_now st of Some previous \<Rightarrow> clock < previous | None \<Rightarrow> False)
      then (st, Inl ClockRegression)
      else (st\<lparr>ps_last_now := Some clock\<rparr>, Inr clock))"

definition relation_expiry :: "parenting_state \<Rightarrow> u64 \<Rightarrow> parenting_refusal + u64" where
  "relation_expiry st now =
     (case checked_add now (pp_max_age_ticks (ps_policy st)) of
        None \<Rightarrow> Inl TimeOverflow | Some t \<Rightarrow> Inr t)"

definition next_relation_generation :: "parenting_state \<Rightarrow> u64 parenting_result" where
  "next_relation_generation st =
     (let generation = ps_next_relation_generation st in
      case checked_add generation 1 of
        None \<Rightarrow> (st, Inl GenerationOverflow)
      | Some g \<Rightarrow> (st\<lparr>ps_next_relation_generation := g\<rparr>, Inr generation))"

definition next_key_after :: "parenting_state \<Rightarrow> parenting_key option \<Rightarrow> parenting_key option" where
  "next_key_after st cursor =
     (case bmap_successor cursor (ps_records st) of
        Some (key, _) \<Rightarrow> Some key
      | None \<Rightarrow>
          (case cursor of
             None \<Rightarrow> None
           | Some _ \<Rightarrow> map_option fst (bmap_successor None (ps_records st))))"

definition remove_key :: "parenting_key \<Rightarrow> parenting_state \<Rightarrow> parenting_relation parenting_result" where
  "remove_key key st =
     (case bmap_get (ps_records st) key of
        None \<Rightarrow> (st, Inl InvariantFailed)
      | Some relation \<Rightarrow>
          let st = st\<lparr>ps_records := bmap_remove key (ps_records st)\<rparr> in
          case usize_sub (ps_record_count st) 1 of
            None \<Rightarrow> (st, Inl InvariantFailed)
          | Some n \<Rightarrow>
              let st = st\<lparr>ps_record_count := n\<rparr>;
                  share = (if fst key \<noteq> pp_local (ps_policy st) then 1 else 0)
              in case rl_state relation of
                   RelPending \<Rightarrow>
                     (case usize_sub (ps_pending_count st) 1 of
                        None \<Rightarrow> (st, Inl InvariantFailed)
                      | Some n \<Rightarrow> (st\<lparr>ps_pending_count := n\<rparr>, Inr relation))
                 | RelPrimary \<Rightarrow>
                     (case usize_sub (ps_primary_children st) share of
                        None \<Rightarrow> (st, Inl InvariantFailed)
                      | Some n \<Rightarrow> (st\<lparr>ps_primary_children := n\<rparr>, Inr relation))
                 | RelBackup \<Rightarrow>
                     (case usize_sub (ps_backup_children st) share of
                        None \<Rightarrow> (st, Inl InvariantFailed)
                      | Some n \<Rightarrow> (st\<lparr>ps_backup_children := n\<rparr>, Inr relation)))"

definition key_expired :: "parenting_state \<Rightarrow> parenting_key \<Rightarrow> u64 \<Rightarrow> bool" where
  "key_expired st key now =
     (case bmap_get (ps_records st) key of None \<Rightarrow> False | Some relation \<Rightarrow> rl_expires_at relation \<le> now)"

definition expire_key_if_needed :: "parenting_key \<Rightarrow> u64 \<Rightarrow> parenting_state \<Rightarrow> bool parenting_result" where
  "expire_key_if_needed key now st =
     (if key_expired st key now then and_then (remove_key key st) (\<lambda>st _. (st, Inr True))
      else (st, Inr False))"

fun maintain_loop ::
    "u64 \<Rightarrow> parenting_key option \<Rightarrow> nat list \<Rightarrow> parenting_key option \<Rightarrow> nat \<Rightarrow> parenting_state \<Rightarrow>
     (parenting_key option \<times> nat) parenting_result" where
  "maintain_loop now start [] cursor removed st = (st, Inr (cursor, removed))"
| "maintain_loop now start (step # rest) cursor removed st =
     (case next_key_after st cursor of
        None \<Rightarrow> (st, Inr (None, removed))
      | Some key \<Rightarrow>
          if step > 0 \<and> Some key = start then (st, Inr (cursor, removed))
          else if key_expired st key now
          then and_then (remove_key key st)
                 (\<lambda>st _. case usize_add removed 1 of
                           None \<Rightarrow> (st, Inl InvariantFailed)
                         | Some removed \<Rightarrow> maintain_loop now start rest (Some key) removed st)
          else maintain_loop now start rest (Some key) removed st)"

definition maintain_at :: "u64 \<Rightarrow> parenting_state \<Rightarrow> nat parenting_result" where
  "maintain_at now st =
     (let cursor = ps_maintenance_cursor st; start = next_key_after st cursor in
      and_then (maintain_loop now start [0..<pp_max_pending (ps_policy st)] cursor 0 st)
        (\<lambda>st (cursor, removed). (st\<lparr>ps_maintenance_cursor := cursor\<rparr>, Inr removed)))"

definition maintain_now :: "u64 \<Rightarrow> parenting_state \<Rightarrow> nat parenting_result" where
  "maintain_now clock st = and_then (parenting_now clock st) (\<lambda>st now. maintain_at now st)"

definition check_request :: "parenting_state \<Rightarrow> attach_request \<Rightarrow> parenting_refusal option" where
  "check_request st request =
     (if rq_request_sequence request = 0 \<or> rq_child request = rq_parent request then Some InvalidRequest
      else if rq_context_id request \<noteq> pp_context_id (ps_policy st) then Some ContextMismatch
      else if rq_configuration_digest request \<noteq> pp_configuration_digest (ps_policy st)
      then Some ConfigurationMismatch
      else None)"

definition primary_key :: "device_key \<Rightarrow> parenting_key" where
  "primary_key child = (child, 0)"

definition take_snapshot :: "parenting_key \<Rightarrow> parenting_relation \<Rightarrow> relation_snapshot" where
  "take_snapshot key relation =
     \<lparr>sn_child = fst key, sn_parent = rl_parent relation,
      sn_owner = oc_binding_namespace (rl_owner relation),
      sn_owner_epoch = oc_binding_epoch (rl_owner relation), sn_kind = rl_kind relation,
      sn_relation_generation = rl_relation_generation relation\<rparr>"

section \<open>The parent side\<close>

definition same_relation :: "parenting_relation \<Rightarrow> owner_coordinate \<Rightarrow> attach_request \<Rightarrow> bool" where
  "same_relation existing owner request \<longleftrightarrow>
     rl_owner existing = owner \<and> rl_parent existing = rq_parent request \<and>
     rl_child_role existing = rq_child_role request \<and> rl_parent_role existing = rq_parent_role request \<and>
     rl_kind existing = rq_kind request"

definition renew_accepted ::
    "parenting_key \<Rightarrow> attach_request \<Rightarrow> u64 \<Rightarrow> parenting_relation \<Rightarrow> parenting_state \<Rightarrow>
     attach_response parenting_result" where
  "renew_accepted key request expires existing st =
     (if rq_request_sequence request < rl_request_sequence existing then (st, Inl StaleRequest)
      else (st\<lparr>ps_records := bmap_insert key
                 (existing\<lparr>rl_request_sequence := rq_request_sequence request, rl_expires_at := expires\<rparr>)
                 (ps_records st)\<rparr>,
            Inr (Accepted request (rl_relation_generation existing))))"

fun accept_backup_loop ::
    "owner_coordinate \<Rightarrow> attach_request \<Rightarrow> u64 \<Rightarrow> u64 \<Rightarrow> nat list \<Rightarrow> parenting_key option \<Rightarrow> parenting_state \<Rightarrow>
     (attach_response + parenting_key option) parenting_result" where
  "accept_backup_loop owner request now expires [] free st = (st, Inr (Inr free))"
| "accept_backup_loop owner request now expires (index # rest) free st =
     (case slot_backup (ps_policy st) index of
        Inl e \<Rightarrow> (st, Inl e)
      | Inr slot \<Rightarrow>
          let candidate = (rq_child request, slot);
              taken = (if free = None then Some candidate else free)
          in and_then (expire_key_if_needed candidate now st)
               (\<lambda>st expired.
                  if expired then accept_backup_loop owner request now expires rest taken st
                  else case bmap_get (ps_records st) candidate of
                         Some existing \<Rightarrow>
                           if same_relation existing owner request \<and> rl_state existing \<noteq> RelPending
                           then and_then (renew_accepted candidate request expires existing st)
                                  (\<lambda>st response. (st, Inr (Inl response)))
                           else accept_backup_loop owner request now expires rest free st
                       | None \<Rightarrow> accept_backup_loop owner request now expires rest taken st))"

definition new_relation ::
    "owner_coordinate \<Rightarrow> attach_request \<Rightarrow> u64 \<Rightarrow> u64 \<Rightarrow> relation_state \<Rightarrow> parenting_relation" where
  "new_relation owner request generation expires state =
     \<lparr>rl_owner = owner, rl_parent = rq_parent request, rl_child_role = rq_child_role request,
      rl_parent_role = rq_parent_role request, rl_kind = rq_kind request,
      rl_request_sequence = rq_request_sequence request, rl_relation_generation = generation,
      rl_expires_at = expires, rl_state = state\<rparr>"

definition kind_state :: "relation_kind \<Rightarrow> relation_state" where
  "kind_state kind = (case kind of KindPrimary \<Rightarrow> RelPrimary | KindBackup \<Rightarrow> RelBackup)"

definition insert_relation ::
    "parenting_key \<Rightarrow> parenting_relation \<Rightarrow> parenting_state \<Rightarrow> unit parenting_result" where
  "insert_relation key relation st =
     (if bmap_get (ps_records st) key \<noteq> None then (st, Inl InvariantFailed)
      else
        let st = st\<lparr>ps_records := bmap_insert key relation (ps_records st)\<rparr> in
        case usize_add (ps_record_count st) 1 of
          None \<Rightarrow> (st, Inl InvariantFailed)
        | Some n \<Rightarrow> (st\<lparr>ps_record_count := n\<rparr>, Inr ()))"

definition accept_at_capacity :: "parenting_state \<Rightarrow> attach_request \<Rightarrow> parenting_refusal option" where
  "accept_at_capacity st request =
     (case rq_kind request of
        KindPrimary \<Rightarrow>
          if ps_primary_children st \<ge> pp_max_children (ps_policy st) then Some Capacity else None
      | KindBackup \<Rightarrow>
          (case usize_mul (pp_max_children (ps_policy st)) (pp_max_backups (ps_policy st)) of
             None \<Rightarrow> Some ArithmeticFailed
           | Some bound \<Rightarrow> if ps_backup_children st \<ge> bound then Some Capacity else None))"

definition count_accepted :: "parenting_key \<Rightarrow> relation_state \<Rightarrow> parenting_state \<Rightarrow> unit parenting_result" where
  "count_accepted key state st =
     (case state of
        RelPrimary \<Rightarrow>
          (case usize_add (ps_primary_children st) 1 of
             None \<Rightarrow> (st, Inl InvariantFailed)
           | Some n \<Rightarrow> (st\<lparr>ps_primary_children := n\<rparr>, Inr ()))
      | RelBackup \<Rightarrow>
          (case usize_add (ps_backup_children st)
                  (if fst key \<noteq> pp_local (ps_policy st) then 1 else 0) of
             None \<Rightarrow> (st, Inl InvariantFailed)
           | Some n \<Rightarrow> (st\<lparr>ps_backup_children := n\<rparr>, Inr ()))
      | RelPending \<Rightarrow> (st, Inl InvariantFailed))"

definition accept_fresh ::
    "owner_coordinate \<Rightarrow> attach_request \<Rightarrow> unavailable option \<Rightarrow> u64 \<Rightarrow> parenting_key \<Rightarrow> parenting_state \<Rightarrow>
     attach_response parenting_result" where
  "accept_fresh owner request refused expires key st =
     (case accept_at_capacity st request of
        Some e \<Rightarrow> (st, Inl e)
      | None \<Rightarrow>
          (case refused of
             Some e \<Rightarrow> (st, Inl (ProviderRefused e))
           | None \<Rightarrow>
               and_then (next_relation_generation st)
                 (\<lambda>st generation.
                    let relation =
                          new_relation owner request generation expires (kind_state (rq_kind request))
                    in and_then (insert_relation key relation st)
                         (\<lambda>st _. and_then (count_accepted key (rl_state relation) st)
                            (\<lambda>st _. (st, Inr (Accepted request generation)))))))"

definition accept_at_key ::
    "owner_coordinate \<Rightarrow> attach_request \<Rightarrow> unavailable option \<Rightarrow> u64 \<Rightarrow> u64 \<Rightarrow> parenting_key \<Rightarrow>
     parenting_state \<Rightarrow> attach_response parenting_result" where
  "accept_at_key owner request refused now expires key st =
     and_then (expire_key_if_needed key now st)
       (\<lambda>st _. case bmap_get (ps_records st) key of
                 Some existing \<Rightarrow>
                   if same_relation existing owner request \<and> rl_state existing \<noteq> RelPending
                   then renew_accepted key request expires existing st
                   else (st, Inl StaleRequest)
               | None \<Rightarrow> accept_fresh owner request refused expires key st)"

definition accept_in_slot ::
    "owner_coordinate \<Rightarrow> attach_request \<Rightarrow> unavailable option \<Rightarrow> u64 \<Rightarrow> parenting_state \<Rightarrow>
     attach_response parenting_result" where
  "accept_in_slot owner request refused now st =
     (case relation_expiry st now of
        Inl e \<Rightarrow> (st, Inl e)
      | Inr expires \<Rightarrow>
          (case rq_kind request of
             KindPrimary \<Rightarrow>
               accept_at_key owner request refused now expires (primary_key (rq_child request)) st
           | KindBackup \<Rightarrow>
               and_then
                 (accept_backup_loop owner request now expires [0..<pp_max_backups (ps_policy st)] None st)
                 (\<lambda>st found. case found of
                     Inl response \<Rightarrow> (st, Inr response)
                   | Inr None \<Rightarrow> (st, Inl Capacity)
                   | Inr (Some key) \<Rightarrow> accept_at_key owner request refused now expires key st)))"

definition accept_request ::
    "owner_coordinate \<Rightarrow> attach_request \<Rightarrow> u64 \<Rightarrow> unavailable option \<Rightarrow> parenting_state \<Rightarrow>
     attach_response parenting_result" where
  "accept_request owner request clock refused st =
     (case check_request st request of
        Some e \<Rightarrow> (st, Inl e)
      | None \<Rightarrow>
          if rq_parent request \<noteq> pp_local (ps_policy st) \<or> oc_peer owner \<noteq> rq_child request
          then (st, Inl OwnerMismatch)
          else if rq_parent_role request \<noteq> pp_role (ps_policy st) \<or>
                  \<not> accepts_child (ps_policy st) (rq_child_role request)
          then (st, Inl UnsupportedRole)
          else
            and_then (parenting_now clock st)
              (\<lambda>st now. and_then (maintain_at now st)
                 (\<lambda>st _. accept_in_slot owner request refused now st)))"

section \<open>The child side\<close>

definition pending_ticket :: "parenting_key \<Rightarrow> parenting_relation \<Rightarrow> attach_ticket" where
  "pending_ticket key existing =
     \<lparr>tk_key = key, tk_request_sequence = rl_request_sequence existing,
      tk_relation_generation = rl_relation_generation existing, tk_owner = rl_owner existing\<rparr>"

definition same_pending :: "parenting_relation \<Rightarrow> owner_coordinate \<Rightarrow> attach_request \<Rightarrow> bool" where
  "same_pending existing owner request \<longleftrightarrow>
     rl_state existing = RelPending \<and> same_relation existing owner request \<and>
     rl_request_sequence existing = rq_request_sequence request"

fun begin_backup_loop ::
    "owner_coordinate \<Rightarrow> attach_request \<Rightarrow> u64 \<Rightarrow> nat list \<Rightarrow> parenting_key option \<Rightarrow> parenting_state \<Rightarrow>
     (attach_ticket + parenting_key option) parenting_result" where
  "begin_backup_loop owner request now [] free st = (st, Inr (Inr free))"
| "begin_backup_loop owner request now (index # rest) free st =
     (case slot_backup (ps_policy st) index of
        Inl e \<Rightarrow> (st, Inl e)
      | Inr slot \<Rightarrow>
          let candidate = (rq_child request, slot);
              taken = (if free = None then Some candidate else free)
          in and_then (expire_key_if_needed candidate now st)
               (\<lambda>st expired.
                  if expired then begin_backup_loop owner request now rest taken st
                  else case bmap_get (ps_records st) candidate of
                         Some existing \<Rightarrow>
                           if same_pending existing owner request
                           then (st, Inr (Inl (pending_ticket candidate existing)))
                           else begin_backup_loop owner request now rest free st
                       | None \<Rightarrow> begin_backup_loop owner request now rest taken st))"

definition begin_fresh ::
    "owner_coordinate \<Rightarrow> attach_request \<Rightarrow> unavailable option \<Rightarrow> u64 \<Rightarrow> parenting_key \<Rightarrow> parenting_state \<Rightarrow>
     attach_ticket parenting_result" where
  "begin_fresh owner request refused now key st =
     (if ps_pending_count st \<ge> pp_max_pending (ps_policy st) then (st, Inl Capacity)
      else case refused of
             Some e \<Rightarrow> (st, Inl (ProviderRefused e))
           | None \<Rightarrow>
               and_then (next_relation_generation st)
                 (\<lambda>st generation.
                    case relation_expiry st now of
                      Inl e \<Rightarrow> (st, Inl e)
                    | Inr expires \<Rightarrow>
                        let relation = new_relation owner request generation expires RelPending in
                        and_then (insert_relation key relation st)
                          (\<lambda>st _. case usize_add (ps_pending_count st) 1 of
                                    None \<Rightarrow> (st, Inl InvariantFailed)
                                  | Some n \<Rightarrow>
                                      (st\<lparr>ps_pending_count := n\<rparr>, Inr (pending_ticket key relation)))))"

definition begin_at_key ::
    "owner_coordinate \<Rightarrow> attach_request \<Rightarrow> unavailable option \<Rightarrow> u64 \<Rightarrow> parenting_key \<Rightarrow> parenting_state \<Rightarrow>
     attach_ticket parenting_result" where
  "begin_at_key owner request refused now key st =
     and_then (expire_key_if_needed key now st)
       (\<lambda>st _. case bmap_get (ps_records st) key of
                 Some existing \<Rightarrow>
                   if same_pending existing owner request
                   then (st, Inr (pending_ticket key existing))
                   else (st, Inl StaleRequest)
               | None \<Rightarrow> begin_fresh owner request refused now key st)"

definition begin_in_slot ::
    "owner_coordinate \<Rightarrow> attach_request \<Rightarrow> unavailable option \<Rightarrow> u64 \<Rightarrow> parenting_state \<Rightarrow>
     attach_ticket parenting_result" where
  "begin_in_slot owner request refused now st =
     (case rq_kind request of
        KindPrimary \<Rightarrow> begin_at_key owner request refused now (primary_key (rq_child request)) st
      | KindBackup \<Rightarrow>
          and_then (begin_backup_loop owner request now [0..<pp_max_backups (ps_policy st)] None st)
            (\<lambda>st found. case found of
                Inl ticket \<Rightarrow> (st, Inr ticket)
              | Inr None \<Rightarrow> (st, Inl Capacity)
              | Inr (Some key) \<Rightarrow> begin_at_key owner request refused now key st))"

definition begin_child_attach ::
    "owner_coordinate \<Rightarrow> attach_request \<Rightarrow> u64 \<Rightarrow> unavailable option \<Rightarrow> parenting_state \<Rightarrow>
     attach_ticket parenting_result" where
  "begin_child_attach owner request clock refused st =
     (case check_request st request of
        Some e \<Rightarrow> (st, Inl e)
      | None \<Rightarrow>
          if rq_child request \<noteq> pp_local (ps_policy st) \<or> oc_peer owner \<noteq> rq_parent request \<or>
             rq_child_role request \<noteq> pp_role (ps_policy st) \<or>
             rq_parent_role request = pp_role (ps_policy st) \<or>
             \<not> accepts_parent (ps_policy st) (rq_parent request) (rq_parent_role request)
          then (st, Inl UnsupportedRole)
          else
            and_then (parenting_now clock st)
              (\<lambda>st now. and_then (maintain_at now st)
                 (\<lambda>st _. begin_in_slot owner request refused now st)))"

definition response_request :: "attach_response \<Rightarrow> attach_request" where
  "response_request response = (case response of Accepted request _ \<Rightarrow> request | Rejected request _ \<Rightarrow> request)"

definition slot_matches :: "parenting_policy \<Rightarrow> relation_kind \<Rightarrow> u16 \<Rightarrow> bool" where
  "slot_matches p kind slot =
     (case kind of
        KindPrimary \<Rightarrow> slot = 0
      | KindBackup \<Rightarrow> slot \<noteq> 0 \<and> unat (slot - 1) < pp_max_backups p)"

definition adopt_accepted ::
    "attach_request \<Rightarrow> u64 \<Rightarrow> u64 \<Rightarrow> parenting_key \<Rightarrow> parenting_relation \<Rightarrow> parenting_state \<Rightarrow>
     parent_adoption parenting_result" where
  "adopt_accepted request generation now key existing st =
     (if generation = 0 then (st, Inl PendingMismatch)
      else case checked_add generation 1 of
             None \<Rightarrow> (st, Inl GenerationOverflow)
           | Some nxt \<Rightarrow>
               let st = (if ps_next_relation_generation st < nxt
                         then st\<lparr>ps_next_relation_generation := nxt\<rparr> else st);
                   next_state = kind_state (rq_kind request)
               in case relation_expiry st now of
                    Inl e \<Rightarrow> (st, Inl e)
                  | Inr expires \<Rightarrow>
                      let st = st\<lparr>ps_records := bmap_insert key
                                 (existing\<lparr>rl_relation_generation := generation,
                                    rl_expires_at := expires, rl_state := next_state\<rparr>) (ps_records st)\<rparr>
                      in case usize_sub (ps_pending_count st) 1 of
                           None \<Rightarrow> (st, Inl InvariantFailed)
                         | Some n \<Rightarrow>
                             let st = st\<lparr>ps_pending_count := n\<rparr> in
                             (case next_state of
                                RelPrimary \<Rightarrow> (st, Inr AdoptionAccepted)
                              | RelBackup \<Rightarrow>
                                  and_then (count_accepted key RelBackup st)
                                    (\<lambda>st _. (st, Inr AdoptionAccepted))
                              | RelPending \<Rightarrow> (st, Inl InvariantFailed)))"

definition adopt_response ::
    "owner_coordinate \<Rightarrow> attach_ticket \<Rightarrow> attach_response \<Rightarrow> u64 \<Rightarrow> parenting_state \<Rightarrow>
     parent_adoption parenting_result" where
  "adopt_response owner ticket response clock st =
     (let request = response_request response; key = tk_key ticket in
      case check_request st request of
        Some e \<Rightarrow> (st, Inl e)
      | None \<Rightarrow>
          if rq_child request \<noteq> pp_local (ps_policy st) \<or> oc_peer owner \<noteq> rq_parent request
          then (st, Inl OwnerMismatch)
          else if fst key \<noteq> pp_local (ps_policy st) \<or>
                  \<not> slot_matches (ps_policy st) (rq_kind request) (snd key)
          then (st, Inl PendingMismatch)
          else if tk_owner ticket \<noteq> owner \<or> tk_request_sequence ticket \<noteq> rq_request_sequence request
          then (st, Inl PendingMismatch)
          else case bmap_get (ps_records st) key of
                 None \<Rightarrow> (st, Inl PendingMismatch)
               | Some existing \<Rightarrow>
                   if \<not> same_pending existing owner request \<or>
                      rl_relation_generation existing \<noteq> tk_relation_generation ticket
                   then (st, Inl PendingMismatch)
                   else
                     and_then (parenting_now clock st)
                       (\<lambda>st now.
                          if rl_expires_at existing \<le> now
                          then and_then (remove_key key st) (\<lambda>st _. (st, Inl StaleRequest))
                          else case response of
                                 Rejected _ reason \<Rightarrow>
                                   and_then (remove_key key st)
                                     (\<lambda>st _. (st, Inr (AdoptionRejected reason)))
                               | Accepted _ generation \<Rightarrow>
                                   adopt_accepted request generation now key existing st))"

definition cancel_child_attach ::
    "owner_coordinate \<Rightarrow> attach_ticket \<Rightarrow> parenting_state \<Rightarrow> unit parenting_result" where
  "cancel_child_attach owner ticket st =
     (case bmap_get (ps_records st) (tk_key ticket) of
        None \<Rightarrow> (st, Inl StaleRequest)
      | Some existing \<Rightarrow>
          if rl_state existing \<noteq> RelPending \<or> rl_owner existing \<noteq> tk_owner ticket \<or>
             rl_owner existing \<noteq> owner \<or>
             rl_request_sequence existing \<noteq> tk_request_sequence ticket \<or>
             rl_relation_generation existing \<noteq> tk_relation_generation ticket
          then (st, Inl StaleRequest)
          else and_then (remove_key (tk_key ticket) st) (\<lambda>st _. (st, Inr ())))"

section \<open>Observation and retirement\<close>

fun live_owner_loop ::
    "owner_coordinate \<Rightarrow> u64 \<Rightarrow> (parenting_key, parenting_relation) bmap \<Rightarrow> nat \<Rightarrow> parenting_key option \<Rightarrow> bool" where
  "live_owner_loop owner now records 0 cursor = False"
| "live_owner_loop owner now records (Suc n) cursor =
     (case bmap_successor cursor records of
        None \<Rightarrow> False
      | Some (key, relation) \<Rightarrow>
          if rl_owner relation = owner \<and> rl_expires_at relation > now then True
          else live_owner_loop owner now records n (Some key))"

definition has_live_owner :: "owner_coordinate \<Rightarrow> u64 \<Rightarrow> parenting_state \<Rightarrow> bool parenting_result" where
  "has_live_owner owner clock st =
     and_then (parenting_now clock st)
       (\<lambda>st now. (st, Inr (live_owner_loop owner now (ps_records st) (ps_record_count st) None)))"

definition primary_parent_at_now ::
    "u64 \<Rightarrow> parenting_state \<Rightarrow> relation_snapshot option parenting_result" where
  "primary_parent_at_now clock st =
     and_then (parenting_now clock st)
       (\<lambda>st now.
          let key = primary_key (pp_local (ps_policy st)) in
          and_then (expire_key_if_needed key now st)
            (\<lambda>st expired.
               if expired then (st, Inr None)
               else (st, Inr (case bmap_get (ps_records st) key of
                                None \<Rightarrow> None
                              | Some relation \<Rightarrow>
                                  if rl_state relation = RelPrimary \<and> rl_expires_at relation > now
                                  then Some (take_snapshot key relation) else None))))"

fun remove_matching_loop ::
    "(parenting_key \<Rightarrow> parenting_relation \<Rightarrow> bool) \<Rightarrow> parenting_key option \<Rightarrow> nat list \<Rightarrow>
     parenting_key option \<Rightarrow> nat \<Rightarrow> parenting_state \<Rightarrow> nat parenting_result" where
  "remove_matching_loop P start [] cursor removed st = (st, Inr removed)"
| "remove_matching_loop P start (step # rest) cursor removed st =
     (case next_key_after st cursor of
        None \<Rightarrow> (st, Inr removed)
      | Some key \<Rightarrow>
          if step > 0 \<and> Some key = start then (st, Inr removed)
          else if (case bmap_get (ps_records st) key of
                     Some relation \<Rightarrow> P key relation | None \<Rightarrow> False)
          then and_then (remove_key key st)
                 (\<lambda>st _. case usize_add removed 1 of
                           None \<Rightarrow> (st, Inl InvariantFailed)
                         | Some removed \<Rightarrow> remove_matching_loop P start rest (Some key) removed st)
          else remove_matching_loop P start rest (Some key) removed st)"

definition remove_matching ::
    "(parenting_key \<Rightarrow> parenting_relation \<Rightarrow> bool) \<Rightarrow> parenting_state \<Rightarrow> nat parenting_result" where
  "remove_matching P st =
     remove_matching_loop P (map_option fst (bmap_successor None (ps_records st)))
       [0..<ps_record_count st] None 0 st"

definition retire_owner :: "owner_coordinate \<Rightarrow> parenting_state \<Rightarrow> nat parenting_result" where
  "retire_owner owner st = remove_matching (\<lambda>_ relation. rl_owner relation = owner) st"

end
