(* ===== verification/Parenting_Table.thy ===== *)
theory Parenting_Table
  imports Parenting
begin

text \<open>
  The invariant of the parenting table of \<open>Parenting\<close>: the records are a well-formed map, the four
  counters are the numbers of records they stand for, the capacities of the policy hold, and every
  record fits the policy, its key and the generation counter. Every operation of the table keeps it
  and never reports a broken invariant.
\<close>

section \<open>The invariant\<close>

definition rel_count ::
    "(parenting_key \<Rightarrow> parenting_relation \<Rightarrow> bool) \<Rightarrow> (parenting_key, parenting_relation) bmap \<Rightarrow> nat" where
  "rel_count Q m = length (filter (\<lambda>(k, r). Q k r) m)"

lemma rel_count_Nil [simp]: "rel_count Q [] = 0"
  by (simp add: rel_count_def)

lemma rel_count_insert:
  "bmap_get m k = None \<Longrightarrow> rel_count Q (bmap_insert k r m) = rel_count Q m + (if Q k r then 1 else 0)"
  by (induction m) (auto simp: rel_count_def bmap_get_Cons split: if_splits)

lemma rel_count_remove:
  "\<lbrakk>bmap_wf m; bmap_get m k = Some r\<rbrakk> \<Longrightarrow>
   rel_count Q m = rel_count Q (bmap_remove k m) + (if Q k r then 1 else 0)"
  using rel_count_insert [of "bmap_remove k m" k Q r] by (simp add: bm.ins_rem_restore)

lemma rel_count_update:
  assumes "bmap_wf m" "bmap_get m k = Some r"
  shows "rel_count Q (bmap_insert k r' m) + (if Q k r then 1 else 0) = rel_count Q m + (if Q k r' then 1 else 0)"
proof -
  have "bmap_insert k r' m = bmap_insert k r' (bmap_remove k m)" using assms by (intro bmap_eqI) auto
  then have "rel_count Q (bmap_insert k r' m) = rel_count Q (bmap_remove k m) + (if Q k r' then 1 else 0)"
    by (simp add: rel_count_insert)
  then show ?thesis using rel_count_remove [OF assms, of Q] by simp
qed

lemma rel_count_length: "rel_count (\<lambda>_ _. True) m = length m"
  by (simp add: rel_count_def case_prod_unfold)

definition is_pending :: "parenting_key \<Rightarrow> parenting_relation \<Rightarrow> bool" where
  "is_pending k r \<longleftrightarrow> rl_state r = RelPending"

definition is_child_in :: "device_key \<Rightarrow> relation_state \<Rightarrow> parenting_key \<Rightarrow> parenting_relation \<Rightarrow> bool" where
  "is_child_in me state k r \<longleftrightarrow> rl_state r = state \<and> fst k \<noteq> me"

definition relation_ok :: "parenting_policy \<Rightarrow> u64 \<Rightarrow> parenting_key \<Rightarrow> parenting_relation \<Rightarrow> bool" where
  "relation_ok p gen key r \<longleftrightarrow>
     rl_relation_generation r \<noteq> 0 \<and> rl_relation_generation r < gen \<and> rl_request_sequence r \<noteq> 0 \<and>
     slot_matches p (rl_kind r) (snd key) \<and> fst key \<noteq> rl_parent r \<and>
     rl_state r \<in> {RelPending, kind_state (rl_kind r)} \<and>
     (if fst key = pp_local p
      then rl_child_role r = pp_role p \<and> accepts_parent p (rl_parent r) (rl_parent_role r) \<and>
           oc_peer (rl_owner r) = rl_parent r
      else rl_state r \<noteq> RelPending \<and> rl_parent r = pp_local p \<and> rl_parent_role r = pp_role p \<and>
           accepts_child p (rl_child_role r) \<and> oc_peer (rl_owner r) = fst key)"

definition parenting_ok :: "parenting_state \<Rightarrow> bool" where
  "parenting_ok st \<longleftrightarrow>
     bmap_wf (ps_records st) \<and> ps_next_relation_generation st \<noteq> 0 \<and> policy_checked (ps_policy st) = Inr (ps_policy st) \<and>
     ps_record_count st = length (ps_records st) \<and> ps_record_count st < 2 ^ 64 \<and>
     ps_pending_count st = rel_count is_pending (ps_records st) \<and>
     ps_primary_children st = rel_count (is_child_in (pp_local (ps_policy st)) RelPrimary) (ps_records st) \<and>
     ps_backup_children st = rel_count (is_child_in (pp_local (ps_policy st)) RelBackup) (ps_records st) \<and>
     ps_pending_count st \<le> 1 \<and> ps_primary_children st \<le> pp_max_children (ps_policy st) \<and>
     ps_backup_children st \<le> pp_max_children (ps_policy st) * pp_max_backups (ps_policy st) \<and>
     (\<forall>k r. bmap_get (ps_records st) k = Some r \<longrightarrow>
        relation_ok (ps_policy st) (ps_next_relation_generation st) k r)"

lemma policy_checked_facts:
  assumes "policy_checked p = Inr p"
  shows "pp_max_pending p = 1" "pp_max_backups p < 65535" "pp_max_age_ticks p \<noteq> 0"
    "pp_max_children p * (pp_max_backups p + 1) < 2 ^ 64" "pp_max_children p < 2 ^ 64"
    "pp_max_children p * pp_max_backups p < 2 ^ 64"
proof -
  have guard: "pp_max_pending p = 1 \<and> pp_max_backups p \<le> 65534 \<and> pp_max_age_ticks p \<noteq> 0"
    and "\<exists>b. relation_bound p = Inr b"
    using assms by (auto simp: policy_checked_def split: if_splits sum.splits)
  then have bound: "pp_max_children p * (pp_max_backups p + 1) < 2 ^ 64"
    by (auto simp: relation_bound_def usize_add_def usize_mul_def split: option.splits if_splits
        bind_splits)
  show "pp_max_pending p = 1" "pp_max_backups p < 65535" "pp_max_age_ticks p \<noteq> 0"
    using guard by auto
  show "pp_max_children p * (pp_max_backups p + 1) < 2 ^ 64" by (rule bound)
  then show "pp_max_children p < 2 ^ 64" "pp_max_children p * pp_max_backups p < 2 ^ 64"
    by (simp_all add: algebra_simps)
qed

lemma parenting_new_ok:
  assumes "parenting_new p = Inr st"
  shows "parenting_ok st" "ps_policy st = p"
  using assms by (auto simp: parenting_new_def parenting_ok_def policy_checked_def
      split: sum.splits if_splits)

lemma parenting_now_ok:
  assumes "parenting_now clock st = (st', r)"
  shows "st' = st\<lparr>ps_last_now := ps_last_now st'\<rparr>" "parenting_ok st' = parenting_ok st"
    "r = Inl ClockRegression \<or> r = Inr clock"
  using assms by (auto simp: parenting_now_def parenting_ok_def split: if_splits)

lemma remove_key_ok:
  assumes ok: "parenting_ok st" and "bmap_get (ps_records st) key = Some r"
  shows "\<exists>st'. remove_key key st = (st', Inr r) \<and> parenting_ok st' \<and>
    ps_records st' = bmap_remove key (ps_records st) \<and> ps_policy st' = ps_policy st \<and>
    ps_next_relation_generation st' = ps_next_relation_generation st \<and> ps_last_now st' = ps_last_now st \<and>
    ps_record_count st' = ps_record_count st - 1 \<and> ps_maintenance_cursor st' = ps_maintenance_cursor st"
proof -
  have wf: "bmap_wf (ps_records st)" using ok by (simp add: parenting_ok_def)
  note c = rel_count_remove [OF wf assms(2)]
  have len: "length (ps_records st) = Suc (length (bmap_remove key (ps_records st)))"
    using c [of "\<lambda>_ _. True"] by (simp add: rel_count_length)
  show ?thesis
  proof (cases "rl_state r")
    case RelPending
    then show ?thesis
      using ok assms(2) len c [of is_pending] c [of "is_child_in (pp_local (ps_policy st)) RelPrimary"]
        c [of "is_child_in (pp_local (ps_policy st)) RelBackup"]
      by (simp add: remove_key_def parenting_ok_def usize_sub_def is_pending_def is_child_in_def Let_def wf)
  next
    case RelPrimary
    then show ?thesis
      using ok assms(2) len c [of is_pending] c [of "is_child_in (pp_local (ps_policy st)) RelPrimary"]
        c [of "is_child_in (pp_local (ps_policy st)) RelBackup"]
      by (simp add: remove_key_def parenting_ok_def usize_sub_def is_pending_def is_child_in_def Let_def wf)
  next
    case RelBackup
    then show ?thesis
      using ok assms(2) len c [of is_pending] c [of "is_child_in (pp_local (ps_policy st)) RelPrimary"]
        c [of "is_child_in (pp_local (ps_policy st)) RelBackup"]
      by (simp add: remove_key_def parenting_ok_def usize_sub_def is_pending_def is_child_in_def Let_def wf)
  qed
qed

text \<open>
  A call keeps the table consistent: the invariant holds after it, the policy is unchanged, the
  generations do not go back, at most \<open>n\<close> records are added, and it did not report a broken invariant.
\<close>

definition keeps_table :: "nat \<Rightarrow> parenting_state \<Rightarrow> 'a parenting_result \<Rightarrow> bool" where
  "keeps_table n st res \<longleftrightarrow>
     (let (st', r) = res in
      parenting_ok st' \<and> ps_policy st' = ps_policy st \<and>
      ps_next_relation_generation st \<le> ps_next_relation_generation st' \<and>
      ps_record_count st' \<le> ps_record_count st + n \<and> r \<noteq> Inl InvariantFailed)"

lemma keeps_tableI [intro]:
  "\<lbrakk>parenting_ok st'; ps_policy st' = ps_policy st;
    ps_next_relation_generation st \<le> ps_next_relation_generation st';
    ps_record_count st' \<le> ps_record_count st + n; r \<noteq> Inl InvariantFailed\<rbrakk> \<Longrightarrow> keeps_table n st (st', r)"
  by (simp add: keeps_table_def)

lemma keeps_tableD:
  assumes "keeps_table n st (st', r)"
  shows "parenting_ok st'" "ps_policy st' = ps_policy st" "ps_record_count st' \<le> ps_record_count st + n"
    "ps_next_relation_generation st \<le> ps_next_relation_generation st'"
  using assms by (simp_all add: keeps_table_def)

lemma keeps_table_here [simp]:
  "keeps_table n st (st, Inr a) = parenting_ok st"
  "keeps_table n st (st, Inl e) = (parenting_ok st \<and> e \<noteq> InvariantFailed)"
  by (auto simp: keeps_table_def)

lemma and_then_InrE:
  assumes "and_then res f = (st', Inr y)"
  obtains st1 x where "res = (st1, Inr x)" "f st1 x = (st', Inr y)"
proof (cases res)
  case (Pair st1 r)
  then show ?thesis using assms that by (cases r) auto
qed

lemma keeps_table_then:
  assumes "keeps_table a st res"
    and "\<And>st' x. \<lbrakk>res = (st', Inr x); parenting_ok st'; ps_policy st' = ps_policy st;
           ps_record_count st' \<le> ps_record_count st + a\<rbrakk> \<Longrightarrow> keeps_table b st' (f st' x)"
  shows "keeps_table (a + b) st (and_then res f)"
proof (cases res)
  case (Pair st' r)
  note facts = keeps_tableD [OF assms(1) [unfolded Pair]]
  show ?thesis
  proof (cases r)
    case (Inl e)
    then show ?thesis using Pair assms(1) by (auto simp: keeps_table_def)
  next
    case (Inr x)
    then have "keeps_table b st' (f st' x)" using assms(2) Pair facts(1-3) by simp
    then show ?thesis
      using Pair Inr facts by (auto simp: keeps_table_def split: prod.splits intro: order_trans)
  qed
qed

lemmas keeps_table_then0 = keeps_table_then [where a = 0, simplified]

lemma keeps_table_now: "parenting_ok st \<Longrightarrow> keeps_table 0 st (parenting_now clock st)"
  by (auto simp: keeps_table_def parenting_now_def parenting_ok_def)

lemma keeps_table_remove:
  assumes "parenting_ok st" "bmap_get (ps_records st) key \<noteq> None"
  shows "keeps_table 0 st (remove_key key st)"
proof -
  obtain r where "bmap_get (ps_records st) key = Some r" using assms(2) by blast
  from remove_key_ok [OF assms(1) this] show ?thesis by (auto simp: keeps_table_def)
qed

lemma key_expired_present: "key_expired st key now \<Longrightarrow> bmap_get (ps_records st) key \<noteq> None"
  by (cases "bmap_get (ps_records st) key") (simp_all add: key_expired_def)

lemma relation_ok_mono: "\<lbrakk>relation_ok p g k r; g \<le> g'\<rbrakk> \<Longrightarrow> relation_ok p g' k r"
  unfolding relation_ok_def by (meson less_le_trans)

lemma parenting_ok_generation:
  "\<lbrakk>parenting_ok st; ps_next_relation_generation st \<le> g\<rbrakk> \<Longrightarrow>
   parenting_ok (st\<lparr>ps_next_relation_generation := g\<rparr>)"
  using relation_ok_mono unfolding parenting_ok_def by (auto simp: word_gt_0 intro: order_trans) (metis word_le_0_iff)

lemma keeps_table_expire: "parenting_ok st \<Longrightarrow> keeps_table 0 st (expire_key_if_needed key now st)"
proof (cases "key_expired st key now")
  case True
  assume ok: "parenting_ok st"
  have "bmap_get (ps_records st) key \<noteq> None" using True by (rule key_expired_present)
  from keeps_table_remove [OF ok this] show ?thesis
    unfolding expire_key_if_needed_def using True by (auto intro!: keeps_table_then0)
qed (simp add: expire_key_if_needed_def)

lemma keeps_table_maintain_loop:
  "\<lbrakk>parenting_ok st; removed + length steps < 2 ^ 64\<rbrakk> \<Longrightarrow>
   keeps_table 0 st (maintain_loop now start steps cursor removed st)"
proof (induction steps arbitrary: cursor removed st)
  case (Cons step rest)
  show ?case
  proof (cases "next_key_after st cursor")
    case None
    then show ?thesis using Cons.prems by simp
  next
    case (Some key)
    consider "step > 0" "start = Some key" | "\<not> (step > 0 \<and> Some key = start)" "key_expired st key now"
      | "\<not> (step > 0 \<and> Some key = start)" "\<not> key_expired st key now" by blast
    then show ?thesis
    proof cases
      case 1
      then show ?thesis using Some Cons.prems by simp
    next
      case 2
      then have "bmap_get (ps_records st) key \<noteq> None" using key_expired_present by blast
      from keeps_table_remove [OF Cons.prems(1) this]
      have "keeps_table 0 st (and_then (remove_key key st)
          (\<lambda>st _. case usize_add removed 1 of None \<Rightarrow> (st, Inl InvariantFailed)
             | Some removed \<Rightarrow> maintain_loop now start rest (Some key) removed st))"
        using Cons.prems(2) by (intro keeps_table_then0) (auto simp: usize_add_def intro!: Cons.IH)
      then show ?thesis using Some 2 by auto
    next
      case 3
      then show ?thesis using Some Cons.IH [OF Cons.prems(1)] Cons.prems(2) by auto
    qed
  qed
qed simp

lemma keeps_table_maintain: "parenting_ok st \<Longrightarrow> keeps_table 0 st (maintain_at now st)"
proof -
  assume ok: "parenting_ok st"
  have "pp_max_pending (ps_policy st) = 1" using ok policy_checked_facts(1) by (simp add: parenting_ok_def)
  then show ?thesis
    unfolding maintain_at_def Let_def
    by (intro keeps_table_then0 keeps_table_maintain_loop [OF ok])
       (auto simp: keeps_table_def parenting_ok_def)
qed

lemma keeps_table_generation:
  "parenting_ok st \<Longrightarrow> keeps_table 0 st (next_relation_generation st)"
proof -
  assume ok: "parenting_ok st"
  show ?thesis
  proof (cases "checked_add (ps_next_relation_generation st) 1")
    case (Some g)
    then have g: "unat g = unat (ps_next_relation_generation st) + 1" by (simp add: checked_add_Some_iff)
    then have "ps_next_relation_generation st \<le> g" by (simp add: word_le_nat_alt)
    then show ?thesis
      using Some parenting_ok_generation [OF ok] by (simp add: keeps_table_def next_relation_generation_def)
  qed (simp add: next_relation_generation_def ok)
qed

lemma table_insert:
  assumes ok: "parenting_ok st" and room: "ps_record_count st + 1 < 2 ^ 64" and "bmap_get (ps_records st) key = None"
    and rel: "relation_ok (ps_policy st) (ps_next_relation_generation st) key r"
    and "pend = ps_pending_count st + (if rl_state r = RelPending then 1 else 0)" "pend \<le> 1"
    and "prim = ps_primary_children st +
      (if rl_state r = RelPrimary \<and> fst key \<noteq> pp_local (ps_policy st) then 1 else 0)"
      "prim \<le> pp_max_children (ps_policy st)"
    and "bkup = ps_backup_children st +
      (if rl_state r = RelBackup \<and> fst key \<noteq> pp_local (ps_policy st) then 1 else 0)"
      "bkup \<le> pp_max_children (ps_policy st) * pp_max_backups (ps_policy st)"
  shows "parenting_ok (st\<lparr>ps_records := bmap_insert key r (ps_records st),
    ps_record_count := Suc (ps_record_count st), ps_pending_count := pend, ps_primary_children := prim,
    ps_backup_children := bkup\<rparr>)"
proof -
  have wf: "bmap_wf (ps_records st)" using ok by (simp add: parenting_ok_def)
  have len: "length (bmap_insert key r (ps_records st)) = Suc (length (ps_records st))"
    using rel_count_insert [OF assms(3), of "\<lambda>_ _. True"] by (simp add: rel_count_length)
  show ?thesis
    using ok rel room assms(5-) len
    by (auto simp: parenting_ok_def wf rel_count_insert [OF assms(3)] is_pending_def is_child_in_def)
qed

lemma table_update:
  assumes ok: "parenting_ok st" and get: "bmap_get (ps_records st) key = Some r"
    and rel: "relation_ok (ps_policy st) (ps_next_relation_generation st) key r'"
    and "ps_pending_count st + (if rl_state r' = RelPending then 1 else 0) =
      pend + (if rl_state r = RelPending then 1 else 0)" "pend \<le> 1"
    and "fst key = pp_local (ps_policy st) \<or> rl_state r' = rl_state r"
  shows "parenting_ok (st\<lparr>ps_records := bmap_insert key r' (ps_records st), ps_pending_count := pend\<rparr>)"
proof -
  have wf: "bmap_wf (ps_records st)" using ok by (simp add: parenting_ok_def)
  note c = rel_count_update [OF wf get, where r' = r']
  have counts: "length (bmap_insert key r' (ps_records st)) = length (ps_records st)"
    "rel_count (is_child_in (pp_local (ps_policy st)) s) (bmap_insert key r' (ps_records st)) =
     rel_count (is_child_in (pp_local (ps_policy st)) s) (ps_records st)" for s
    using c [of "\<lambda>_ _. True"] c [of "is_child_in (pp_local (ps_policy st)) s"] assms(6)
    by (auto simp: rel_count_length is_child_in_def)
  show ?thesis
    using ok rel assms(4,5) counts c [of is_pending]
    by (auto simp: parenting_ok_def wf is_pending_def)
qed

lemma slot_backup_matches:
  assumes "policy_checked p = Inr p" "slot_backup p i = Inr slot"
  shows "slot_matches p KindBackup slot"
proof -
  have i: "i < pp_max_backups p" "slot = word_of_nat (i + 1)"
    using assms(2) by (auto simp: slot_backup_def usize_add_def split: if_splits option.splits)
  have lt: "i + 1 < 2 ^ 16" using i(1) policy_checked_facts(2) [OF assms(1)] by simp
  then have u: "unat slot = i + 1" unfolding i(2) unat_of_nat by simp
  then have "slot \<noteq> 0" by auto
  moreover have "unat (slot - 1) = i" using u \<open>slot \<noteq> 0\<close> by (simp add: unat_minus_one)
  ultimately show ?thesis using i(1) by (simp add: slot_matches_def)
qed

definition request_for_parent :: "parenting_state \<Rightarrow> owner_coordinate \<Rightarrow> attach_request \<Rightarrow> bool" where
  "request_for_parent st owner request \<longleftrightarrow>
     check_request st request = None \<and> rq_parent request = pp_local (ps_policy st) \<and>
     oc_peer owner = rq_child request \<and> rq_parent_role request = pp_role (ps_policy st) \<and>
     accepts_child (ps_policy st) (rq_child_role request)"

lemma check_request_None:
  assumes "check_request st request = None"
  shows "rq_request_sequence request \<noteq> 0" "rq_child request \<noteq> rq_parent request"
    "rq_context_id request = pp_context_id (ps_policy st)"
    "rq_configuration_digest request = pp_configuration_digest (ps_policy st)"
  using assms by (auto simp: check_request_def split: if_splits)

lemma check_request_policy: "ps_policy st' = ps_policy st \<Longrightarrow> check_request st' request = check_request st request"
  by (simp add: check_request_def)

lemma renew_keeps:
  assumes ok: "parenting_ok st" and get: "bmap_get (ps_records st) key = Some r"
    and "rq_request_sequence request \<noteq> 0"
  shows "keeps_table 0 st (renew_accepted key request expires r st)"
proof -
  let ?r = "r\<lparr>rl_request_sequence := rq_request_sequence request, rl_expires_at := expires\<rparr>"
  have "relation_ok (ps_policy st) (ps_next_relation_generation st) key r"
    using ok get unfolding parenting_ok_def by blast
  then have "relation_ok (ps_policy st) (ps_next_relation_generation st) key ?r"
    using assms(3) by (simp add: relation_ok_def)
  from table_update [OF ok get this, of "ps_pending_count st"]
  have "parenting_ok (st\<lparr>ps_records := bmap_insert key ?r (ps_records st)\<rparr>)"
    using ok by (simp add: parenting_ok_def)
  then show ?thesis using ok by (simp add: renew_accepted_def keeps_table_def)
qed

lemma kind_state_settled [simp]: "kind_state kind \<noteq> RelPending" "RelPending \<noteq> kind_state kind"
  by (auto simp: kind_state_def split: relation_kind.splits)

lemma next_generation_facts:
  assumes "parenting_ok st" "checked_add (ps_next_relation_generation st) 1 = Some g"
  shows "ps_next_relation_generation st < g" "ps_next_relation_generation st \<le> g"
    "ps_next_relation_generation st \<noteq> 0"
    "parenting_ok (st\<lparr>ps_next_relation_generation := g\<rparr>)"
proof -
  have "unat g = unat (ps_next_relation_generation st) + 1" using assms(2) by (simp add: checked_add_Some_iff)
  then show "ps_next_relation_generation st < g" and le: "ps_next_relation_generation st \<le> g"
    by (simp_all add: word_less_nat_alt word_le_nat_alt)
  show "ps_next_relation_generation st \<noteq> 0" using assms(1) by (simp add: parenting_ok_def)
  show "parenting_ok (st\<lparr>ps_next_relation_generation := g\<rparr>)" by (rule parenting_ok_generation [OF assms(1) le])
qed

lemma accept_at_capacity_None:
  assumes "accept_at_capacity st request = None"
  shows "rq_kind request = KindPrimary \<Longrightarrow> ps_primary_children st < pp_max_children (ps_policy st)"
    "rq_kind request = KindBackup \<Longrightarrow>
       ps_backup_children st < pp_max_children (ps_policy st) * pp_max_backups (ps_policy st)"
  using assms by (auto simp: accept_at_capacity_def usize_mul_def split: if_splits)

lemma accept_fresh_result:
  assumes ok: "parenting_ok st" and get: "bmap_get (ps_records st) key = None"
    and key: "fst key \<noteq> pp_local (ps_policy st)" and room: "ps_record_count st + 1 < 2 ^ 64"
    and cap: "accept_at_capacity st request = None"
    and gen: "checked_add (ps_next_relation_generation st) 1 = Some g"
  shows "accept_fresh owner request None expires key st =
    (st\<lparr>ps_next_relation_generation := g,
        ps_records := bmap_insert key (new_relation owner request (ps_next_relation_generation st) expires
                        (kind_state (rq_kind request))) (ps_records st),
        ps_record_count := Suc (ps_record_count st),
        ps_primary_children := ps_primary_children st + (if rq_kind request = KindPrimary then 1 else 0),
        ps_backup_children := ps_backup_children st + (if rq_kind request = KindBackup then 1 else 0)\<rparr>,
     Inr (Accepted request (ps_next_relation_generation st)))"
proof -
  have "policy_checked (ps_policy st) = Inr (ps_policy st)" using ok by (simp add: parenting_ok_def)
  note bounds = policy_checked_facts(5,6) [OF this]
  show ?thesis
    using get room cap gen key bounds accept_at_capacity_None [OF cap]
    by (cases "rq_kind request")
       (simp_all add: accept_fresh_def next_relation_generation_def insert_relation_def count_accepted_def
         usize_add_def new_relation_def kind_state_def Let_def)
qed

lemma accept_fresh_keeps:
  assumes ok: "parenting_ok st" and get: "bmap_get (ps_records st) key = None"
    and req: "request_for_parent st owner request" and key: "fst key = rq_child request"
      "slot_matches (ps_policy st) (rq_kind request) (snd key)"
    and room: "ps_record_count st + 1 < 2 ^ 64"
  shows "keeps_table 1 st (accept_fresh owner request refused expires key st)"
proof -
  consider e where "accept_at_capacity st request = Some e"
    | e where "accept_at_capacity st request = None" "refused = Some e"
    | "accept_at_capacity st request = None" "refused = None"
        "checked_add (ps_next_relation_generation st) 1 = None"
    | g where "accept_at_capacity st request = None" "refused = None"
        "checked_add (ps_next_relation_generation st) 1 = Some g" by fastforce
  then show ?thesis
  proof cases
    case 1
    then have "e \<noteq> InvariantFailed"
      by (auto simp: accept_at_capacity_def split: relation_kind.splits option.splits if_splits)
    then show ?thesis using 1 ok by (simp add: accept_fresh_def)
  next
    case 4
    note gen = next_generation_facts [OF ok 4(3)]
    have child: "fst key \<noteq> pp_local (ps_policy st)"
      using req key(1) check_request_None(2) unfolding request_for_parent_def by metis
    let ?st = "st\<lparr>ps_next_relation_generation := g\<rparr>"
    let ?r = "new_relation owner request (ps_next_relation_generation st) expires (kind_state (rq_kind request))"
    have rel: "relation_ok (ps_policy ?st) (ps_next_relation_generation ?st) key ?r"
      using gen(1,3) req key child check_request_None [of st request]
      by (auto simp: relation_ok_def new_relation_def request_for_parent_def)
    show ?thesis
      unfolding 4(2) accept_fresh_result [OF ok get child room 4(1,3)]
      using table_insert [OF gen(4) _ _ rel, where pend = "ps_pending_count st"
          and prim = "ps_primary_children st + (if rq_kind request = KindPrimary then 1 else 0)"
          and bkup = "ps_backup_children st + (if rq_kind request = KindBackup then 1 else 0)"]
        get ok gen(2) child room accept_at_capacity_None [OF 4(1)]
      by (intro keeps_tableI)
         (auto simp: new_relation_def kind_state_def parenting_ok_def [of st] split: relation_kind.splits)
  qed (simp_all add: accept_fresh_def next_relation_generation_def ok)
qed

lemma slot_backup_error: "slot_backup p i = Inl e \<Longrightarrow> e \<noteq> InvariantFailed"
  by (auto simp: slot_backup_def usize_add_def split: if_splits option.splits)

lemma relation_expiry_error: "relation_expiry st now = Inl e \<Longrightarrow> e = TimeOverflow"
  by (auto simp: relation_expiry_def split: option.splits)

lemma check_request_error: "check_request st request = Some e \<Longrightarrow> e \<noteq> InvariantFailed"
  by (auto simp: check_request_def split: if_splits)

lemma expire_policy: "expire_key_if_needed key now st = (st', r) \<Longrightarrow> ps_policy st' = ps_policy st"
  by (auto simp: expire_key_if_needed_def remove_key_def Let_def
      split: if_splits option.splits relation_state.splits)

lemma backup_candidate:
  assumes "policy_checked p = Inr p" "slot_backup p index = Inr slot" "taken = Some k"
    and "free = Some k \<Longrightarrow> fst k = child \<and> slot_matches p KindBackup (snd k)"
    and "taken = (if free = None then Some (child, slot) else free)"
  shows "fst k = child \<and> slot_matches p KindBackup (snd k)"
  using assms slot_backup_matches [OF assms(1,2)] by (auto split: if_splits)

lemma keeps_table_accept_backup_loop:
  "\<lbrakk>parenting_ok st; rq_request_sequence request \<noteq> 0\<rbrakk> \<Longrightarrow>
   keeps_table 0 st (accept_backup_loop owner request now expires indices free st)"
proof (induction indices arbitrary: free st)
  case (Cons index rest)
  show ?case
  proof (cases "slot_backup (ps_policy st) index")
    case (Inl e)
    then show ?thesis using Cons.prems slot_backup_error by simp
  next
    case (Inr slot)
    show ?thesis
      unfolding accept_backup_loop.simps Inr sum.case Let_def
      by (intro keeps_table_then0 keeps_table_expire Cons.prems(1))
         (auto intro!: Cons.IH Cons.prems(2) keeps_table_then0 renew_keeps split: option.split)
  qed
qed simp

lemma accept_backup_loop_key:
  "\<lbrakk>accept_backup_loop owner request now expires indices free st = (st', Inr (Inr (Some k)));
    policy_checked (ps_policy st) = Inr (ps_policy st);
    \<And>k. free = Some k \<Longrightarrow> fst k = rq_child request \<and> slot_matches (ps_policy st) KindBackup (snd k)\<rbrakk> \<Longrightarrow>
   fst k = rq_child request \<and> slot_matches (ps_policy st) KindBackup (snd k)"
proof (induction indices arbitrary: free st)
  case (Cons index rest)
  obtain slot where slot: "slot_backup (ps_policy st) index = Inr slot"
    using Cons.prems(1) by (auto split: sum.splits)
  define taken where "taken = (if free = None then Some (rq_child request, slot) else free)"
  let ?key = "(rq_child request, slot)"
  have loop: "and_then (expire_key_if_needed ?key now st)
      (\<lambda>st expired. if expired then accept_backup_loop owner request now expires rest taken st
         else case bmap_get (ps_records st) ?key of
                Some existing \<Rightarrow>
                  if same_relation existing owner request \<and> rl_state existing \<noteq> RelPending
                  then and_then (renew_accepted ?key request expires existing st)
                         (\<lambda>st response. (st, Inr (Inl response)))
                  else accept_backup_loop owner request now expires rest free st
              | None \<Rightarrow> accept_backup_loop owner request now expires rest taken st) = (st', Inr (Inr (Some k)))"
    using Cons.prems(1) unfolding taken_def accept_backup_loop.simps slot sum.case Let_def .
  from loop obtain st1 expired where e: "expire_key_if_needed ?key now st = (st1, Inr expired)"
    by (rule and_then_InrE)
  have p: "ps_policy st1 = ps_policy st" using e by (rule expire_policy)
  obtain free' where rec: "accept_backup_loop owner request now expires rest free' st1 = (st', Inr (Inr (Some k)))"
    and free': "free' = taken \<or> free' = free"
    using loop e by (auto simp: renew_accepted_def split: if_splits option.splits)
  have "fst k' = rq_child request \<and> slot_matches (ps_policy st1) KindBackup (snd k')" if "free' = Some k'" for k'
    using free' that backup_candidate [OF Cons.prems(2) slot _ _ taken_def, of k'] Cons.prems(3) [of k'] p by auto
  from Cons.IH [OF rec _ this] show ?case using Cons.prems(2) p by simp
qed simp

lemma keeps_table_weaken: "\<lbrakk>keeps_table a st res; a \<le> b\<rbrakk> \<Longrightarrow> keeps_table b st res"
  by (auto simp: keeps_table_def split: prod.splits)

lemma request_for_parent_policy:
  "ps_policy st' = ps_policy st \<Longrightarrow> request_for_parent st' owner request = request_for_parent st owner request"
  by (simp add: request_for_parent_def check_request_def)

end
