(* ===== verification/Parenting_Calls.thy ===== *)
theory Parenting_Calls
  imports Parenting_Table
begin

text \<open>
  The calls of the parenting table (\<open>engine/parenting.rs\<close>): every call keeps the invariant of
  \<open>Parenting_Table\<close>, so a table that any sequence of calls reaches is consistent and within the
  capacities of its policy; what the attach handshake leaves at both ends; what retirement removes.
\<close>

section \<open>Every call keeps the table\<close>

lemma accept_at_key_keeps:
  assumes ok: "parenting_ok st" and req: "request_for_parent st owner request"
    and key: "fst key = rq_child request" "slot_matches (ps_policy st) (rq_kind request) (snd key)"
    and room: "ps_record_count st + 1 < 2 ^ 64"
  shows "keeps_table 1 st (accept_at_key owner request refused now expires key st)"
  unfolding accept_at_key_def
proof (rule keeps_table_then0 [OF keeps_table_expire [OF ok]])
  fix st' x
  assume st': "parenting_ok st'" "ps_policy st' = ps_policy st" "ps_record_count st' \<le> ps_record_count st"
  have req': "request_for_parent st' owner request" using req request_for_parent_policy [OF st'(2)] by simp
  have seq: "rq_request_sequence request \<noteq> 0"
    using req check_request_None(1) [of st request] by (simp add: request_for_parent_def)
  show "keeps_table 1 st' (case bmap_get (ps_records st') key of
      Some existing \<Rightarrow>
        if same_relation existing owner request \<and> rl_state existing \<noteq> RelPending
        then renew_accepted key request expires existing st' else (st', Inl StaleRequest)
    | None \<Rightarrow> accept_fresh owner request refused expires key st')"
  proof (cases "bmap_get (ps_records st') key")
    case None
    have "slot_matches (ps_policy st') (rq_kind request) (snd key)" "ps_record_count st' + 1 < 2 ^ 64"
      using key(2) st'(2,3) room by simp_all
    from accept_fresh_keeps [OF st'(1) None req' key(1) this] None show ?thesis by simp
  next
    case (Some existing)
    have "keeps_table 1 st' (renew_accepted key request expires existing st')"
      by (rule keeps_table_weaken [OF renew_keeps [OF st'(1) Some seq]]) simp
    then show ?thesis using Some st'(1) by simp
  qed
qed

lemma accept_in_slot_keeps:
  assumes ok: "parenting_ok st" and req: "request_for_parent st owner request"
    and room: "ps_record_count st + 1 < 2 ^ 64"
  shows "keeps_table 1 st (accept_in_slot owner request refused now st)"
proof (cases "relation_expiry st now")
  case (Inl e)
  then show ?thesis using ok relation_expiry_error [OF Inl] by (simp add: accept_in_slot_def)
next
  case (Inr expires)
  show ?thesis
  proof (cases "rq_kind request")
    case KindPrimary
    then show ?thesis
      using accept_at_key_keeps [OF ok req _ _ room, of "primary_key (rq_child request)"] Inr
      by (simp add: accept_in_slot_def primary_key_def slot_matches_def)
  next
    case KindBackup
    let ?loop = "accept_backup_loop owner request now expires [0..<pp_max_backups (ps_policy st)] None st"
    have seq: "rq_request_sequence request \<noteq> 0"
      using req check_request_None(1) [of st request] by (simp add: request_for_parent_def)
    have "keeps_table 1 st (and_then ?loop
        (\<lambda>st found. case found of Inl response \<Rightarrow> (st, Inr response) | Inr None \<Rightarrow> (st, Inl Capacity)
          | Inr (Some key) \<Rightarrow> accept_at_key owner request refused now expires key st))"
    proof (rule keeps_table_then0 [OF keeps_table_accept_backup_loop [OF ok seq]])
      fix st' found
      assume st': "?loop = (st', Inr found)" "parenting_ok st'" "ps_policy st' = ps_policy st"
        "ps_record_count st' \<le> ps_record_count st"
      have at_key: "keeps_table 1 st' (accept_at_key owner request refused now expires key st')"
        if "found = Inr (Some key)" for key
      proof -
        have "fst key = rq_child request \<and> slot_matches (ps_policy st) KindBackup (snd key)"
          by (rule accept_backup_loop_key [OF st'(1) [unfolded that]])
             (use ok in \<open>simp_all add: parenting_ok_def\<close>)
        with accept_at_key_keeps [OF st'(2), of owner request key] show ?thesis
          using req request_for_parent_policy [OF st'(3)] st'(3,4) KindBackup room by simp
      qed
      then show "keeps_table 1 st' (case found of Inl response \<Rightarrow> (st', Inr response)
          | Inr None \<Rightarrow> (st', Inl Capacity)
          | Inr (Some key) \<Rightarrow> accept_at_key owner request refused now expires key st')"
        using st'(2) by (auto split: sum.split option.split)
    qed
    then show ?thesis using KindBackup Inr by (simp add: accept_in_slot_def)
  qed
qed

lemma accept_request_cases:
  obtains (refused) e where "accept_request owner request clock refused st = (st, Inl e)"
      "e \<noteq> InvariantFailed" "\<not> request_for_parent st owner request"
  | (placed) "request_for_parent st owner request"
      "accept_request owner request clock refused st =
         and_then (parenting_now clock st) (\<lambda>st now. and_then (maintain_at now st)
           (\<lambda>st _. accept_in_slot owner request refused now st))"
proof (cases "check_request st request")
  case (Some e)
  then show ?thesis using refused check_request_error [OF Some]
    by (simp add: accept_request_def request_for_parent_def)
next
  case None
  show ?thesis
  proof (cases "request_for_parent st owner request")
    case True
    then show ?thesis using placed by (simp add: accept_request_def request_for_parent_def)
  next
    case False
    then have "\<exists>e\<in>{OwnerMismatch, UnsupportedRole}. accept_request owner request clock refused st = (st, Inl e)"
      using None by (simp add: accept_request_def request_for_parent_def)
    then show ?thesis using refused False by blast
  qed
qed

lemma accept_request_keeps:
  assumes ok: "parenting_ok st" and room: "ps_record_count st + 1 < 2 ^ 64"
  shows "keeps_table 1 st (accept_request owner request clock refused st)"
proof (cases rule: accept_request_cases [of owner request clock refused st])
  case placed
  show ?thesis
    unfolding placed(2)
  proof (rule keeps_table_then0 [OF keeps_table_now [OF ok]], rule keeps_table_then0 [OF keeps_table_maintain])
    fix st1 st2 :: parenting_state
    assume "ps_policy st1 = ps_policy st" "ps_record_count st1 \<le> ps_record_count st" "parenting_ok st2"
      "ps_policy st2 = ps_policy st1" "ps_record_count st2 \<le> ps_record_count st1"
    then show "keeps_table 1 st2 (accept_in_slot owner request refused now st2)" for now
      using placed(1) request_for_parent_policy [of st2 st] room by (intro accept_in_slot_keeps) simp_all
  qed
qed (simp add: ok)

definition request_for_child :: "parenting_state \<Rightarrow> owner_coordinate \<Rightarrow> attach_request \<Rightarrow> bool" where
  "request_for_child st owner request \<longleftrightarrow>
     check_request st request = None \<and> rq_child request = pp_local (ps_policy st) \<and>
     oc_peer owner = rq_parent request \<and> rq_child_role request = pp_role (ps_policy st) \<and>
     rq_parent_role request \<noteq> pp_role (ps_policy st) \<and>
     accepts_parent (ps_policy st) (rq_parent request) (rq_parent_role request)"

lemma request_for_child_policy:
  "ps_policy st' = ps_policy st \<Longrightarrow> request_for_child st' owner request = request_for_child st owner request"
  by (simp add: request_for_child_def check_request_def)

lemma keeps_table_begin_backup_loop:
  "parenting_ok st \<Longrightarrow> keeps_table 0 st (begin_backup_loop owner request now indices free st)"
proof (induction indices arbitrary: free st)
  case (Cons index rest)
  show ?case
  proof (cases "slot_backup (ps_policy st) index")
    case (Inl e)
    then show ?thesis using Cons.prems slot_backup_error by simp
  next
    case (Inr slot)
    show ?thesis
      unfolding begin_backup_loop.simps Inr sum.case Let_def
      by (intro keeps_table_then0 keeps_table_expire Cons.prems)
         (auto intro!: Cons.IH keeps_table_then0 split: option.split)
  qed
qed simp

lemma begin_backup_loop_key:
  "\<lbrakk>begin_backup_loop owner request now indices free st = (st', Inr (Inr (Some k)));
    policy_checked (ps_policy st) = Inr (ps_policy st);
    \<And>k. free = Some k \<Longrightarrow> fst k = rq_child request \<and> slot_matches (ps_policy st) KindBackup (snd k)\<rbrakk> \<Longrightarrow>
   fst k = rq_child request \<and> slot_matches (ps_policy st) KindBackup (snd k)"
proof (induction indices arbitrary: free st)
  case (Cons index rest)
  obtain slot where slot: "slot_backup (ps_policy st) index = Inr slot"
    using Cons.prems(1) by (auto split: sum.splits)
  define taken where "taken = (if free = None then Some (rq_child request, slot) else free)"
  let ?key = "(rq_child request, slot)"
  have loop: "and_then (expire_key_if_needed ?key now st)
      (\<lambda>st expired. if expired then begin_backup_loop owner request now rest taken st
         else case bmap_get (ps_records st) ?key of
                Some existing \<Rightarrow>
                  if same_pending existing owner request
                  then (st, Inr (Inl (pending_ticket ?key existing)))
                  else begin_backup_loop owner request now rest free st
              | None \<Rightarrow> begin_backup_loop owner request now rest taken st) = (st', Inr (Inr (Some k)))"
    using Cons.prems(1) unfolding taken_def begin_backup_loop.simps slot sum.case Let_def .
  from loop obtain st1 expired where e: "expire_key_if_needed ?key now st = (st1, Inr expired)"
    by (rule and_then_InrE)
  have p: "ps_policy st1 = ps_policy st" using e by (rule expire_policy)
  obtain free' where rec: "begin_backup_loop owner request now rest free' st1 = (st', Inr (Inr (Some k)))"
    and free': "free' = taken \<or> free' = free"
    using loop e by (auto split: if_splits option.splits)
  have "fst k' = rq_child request \<and> slot_matches (ps_policy st1) KindBackup (snd k')" if "free' = Some k'" for k'
    using free' that backup_candidate [OF Cons.prems(2) slot _ _ taken_def, of k'] Cons.prems(3) [of k'] p by auto
  from Cons.IH [OF rec _ this] show ?case using Cons.prems(2) p by simp
qed simp

lemma begin_fresh_keeps:
  assumes ok: "parenting_ok st" and get: "bmap_get (ps_records st) key = None"
    and req: "request_for_child st owner request" and key: "fst key = rq_child request"
      "slot_matches (ps_policy st) (rq_kind request) (snd key)"
    and room: "ps_record_count st + 1 < 2 ^ 64"
  shows "keeps_table 1 st (begin_fresh owner request refused now key st)"
proof -
  have "policy_checked (ps_policy st) = Inr (ps_policy st)" using ok by (simp add: parenting_ok_def)
  then have pending: "pp_max_pending (ps_policy st) = 1" by (rule policy_checked_facts(1))
  consider "ps_pending_count st \<ge> 1" | e where "ps_pending_count st = 0" "refused = Some e"
    | "ps_pending_count st = 0" "refused = None" "checked_add (ps_next_relation_generation st) 1 = None"
    | g where "ps_pending_count st = 0" "refused = None"
        "checked_add (ps_next_relation_generation st) 1 = Some g" by fastforce
  then show ?thesis
  proof cases
    case 4
    note gen = next_generation_facts [OF ok 4(3)]
    let ?st = "st\<lparr>ps_next_relation_generation := g\<rparr>"
    show ?thesis
    proof (cases "relation_expiry ?st now")
      case (Inl e)
      then show ?thesis using relation_expiry_error [OF Inl] gen(2,4) 4 pending
        by (auto simp: begin_fresh_def next_relation_generation_def)
    next
      case (Inr expires)
      let ?r = "new_relation owner request (ps_next_relation_generation st) expires RelPending"
      have rel: "relation_ok (ps_policy ?st) (ps_next_relation_generation ?st) key ?r"
        using gen(1,3) req key check_request_None [of st request]
        by (auto simp: relation_ok_def new_relation_def request_for_child_def)
      have "parenting_ok (?st\<lparr>ps_records := bmap_insert key ?r (ps_records ?st),
          ps_record_count := Suc (ps_record_count ?st), ps_pending_count := 1,
          ps_primary_children := ps_primary_children ?st, ps_backup_children := ps_backup_children ?st\<rparr>)"
        by (rule table_insert [OF gen(4) _ _ rel])
           (use get ok 4 room in \<open>simp_all add: new_relation_def parenting_ok_def\<close>)
      then show ?thesis using Inr 4 get room pending gen(2)
        by (auto simp: begin_fresh_def next_relation_generation_def insert_relation_def usize_add_def Let_def)
    qed
  qed (simp_all add: begin_fresh_def next_relation_generation_def ok pending)
qed

lemma begin_at_key_keeps:
  assumes ok: "parenting_ok st" and req: "request_for_child st owner request"
    and key: "fst key = rq_child request" "slot_matches (ps_policy st) (rq_kind request) (snd key)"
    and room: "ps_record_count st + 1 < 2 ^ 64"
  shows "keeps_table 1 st (begin_at_key owner request refused now key st)"
  unfolding begin_at_key_def
proof (rule keeps_table_then0 [OF keeps_table_expire [OF ok]])
  fix st' x
  assume st': "parenting_ok st'" "ps_policy st' = ps_policy st" "ps_record_count st' \<le> ps_record_count st"
  have "keeps_table 1 st' (begin_fresh owner request refused now key st')"
    if "bmap_get (ps_records st') key = None"
    using begin_fresh_keeps [OF st'(1) that] req request_for_child_policy [OF st'(2)] key st' room by simp
  then show "keeps_table 1 st' (case bmap_get (ps_records st') key of
      Some existing \<Rightarrow> if same_pending existing owner request then (st', Inr (pending_ticket key existing))
        else (st', Inl StaleRequest)
    | None \<Rightarrow> begin_fresh owner request refused now key st')"
    using st'(1) by (auto split: option.split)
qed

lemma begin_in_slot_keeps:
  assumes ok: "parenting_ok st" and req: "request_for_child st owner request"
    and room: "ps_record_count st + 1 < 2 ^ 64"
  shows "keeps_table 1 st (begin_in_slot owner request refused now st)"
proof (cases "rq_kind request")
  case KindPrimary
  then show ?thesis
    using begin_at_key_keeps [OF ok req _ _ room, of "primary_key (rq_child request)"]
    by (simp add: begin_in_slot_def primary_key_def slot_matches_def)
next
  case KindBackup
  let ?loop = "begin_backup_loop owner request now [0..<pp_max_backups (ps_policy st)] None st"
  have "keeps_table 1 st (and_then ?loop
      (\<lambda>st found. case found of Inl ticket \<Rightarrow> (st, Inr ticket) | Inr None \<Rightarrow> (st, Inl Capacity)
        | Inr (Some key) \<Rightarrow> begin_at_key owner request refused now key st))"
  proof (rule keeps_table_then0 [OF keeps_table_begin_backup_loop [OF ok]])
    fix st' found
    assume st': "?loop = (st', Inr found)" "parenting_ok st'" "ps_policy st' = ps_policy st"
      "ps_record_count st' \<le> ps_record_count st"
    have "keeps_table 1 st' (begin_at_key owner request refused now key st')" if "found = Inr (Some key)" for key
    proof -
      have "fst key = rq_child request \<and> slot_matches (ps_policy st) KindBackup (snd key)"
        by (rule begin_backup_loop_key [OF st'(1) [unfolded that]]) (use ok in \<open>simp_all add: parenting_ok_def\<close>)
      with begin_at_key_keeps [OF st'(2), of owner request key] show ?thesis
        using req request_for_child_policy [OF st'(3)] st'(3,4) KindBackup room by simp
    qed
    then show "keeps_table 1 st' (case found of Inl ticket \<Rightarrow> (st', Inr ticket)
        | Inr None \<Rightarrow> (st', Inl Capacity) | Inr (Some key) \<Rightarrow> begin_at_key owner request refused now key st')"
      using st'(2) by (auto split: sum.split option.split)
  qed
  then show ?thesis using KindBackup by (simp add: begin_in_slot_def)
qed

lemma begin_child_attach_keeps:
  assumes ok: "parenting_ok st" and room: "ps_record_count st + 1 < 2 ^ 64"
  shows "keeps_table 1 st (begin_child_attach owner request clock refused st)"
proof -
  consider e where "check_request st request = Some e"
    | "check_request st request = None" "\<not> request_for_child st owner request"
    | "request_for_child st owner request" by (cases "check_request st request") auto
  then show ?thesis
  proof cases
    case 1
    then show ?thesis using ok check_request_error [OF 1] by (simp add: begin_child_attach_def)
  next
    case 2
    then show ?thesis using ok by (simp add: begin_child_attach_def request_for_child_def)
  next
    case 3
    have "keeps_table 1 st (and_then (parenting_now clock st) (\<lambda>st now. and_then (maintain_at now st)
        (\<lambda>st _. begin_in_slot owner request refused now st)))"
    proof (rule keeps_table_then0 [OF keeps_table_now [OF ok]], rule keeps_table_then0 [OF keeps_table_maintain])
      fix st1 st2 :: parenting_state
      assume "ps_policy st1 = ps_policy st" "ps_record_count st1 \<le> ps_record_count st" "parenting_ok st2"
        "ps_policy st2 = ps_policy st1" "ps_record_count st2 \<le> ps_record_count st1"
      then show "keeps_table 1 st2 (begin_in_slot owner request refused now st2)" for now
        using 3 request_for_child_policy [of st2 st] room by (intro begin_in_slot_keeps) simp_all
    qed
    then show ?thesis using 3 by (simp add: begin_child_attach_def request_for_child_def)
  qed
qed

lemma pending_is_one:
  assumes ok: "parenting_ok st" and "bmap_get (ps_records st) key = Some r" "rl_state r = RelPending"
  shows "ps_pending_count st = 1"
proof -
  have "bmap_wf (ps_records st)" using ok by (simp add: parenting_ok_def)
  from rel_count_remove [OF this assms(2), of is_pending] show ?thesis
    using ok assms(3) by (simp add: parenting_ok_def is_pending_def)
qed

lemma adopt_accepted_result:
  assumes ok: "parenting_ok st" and get: "bmap_get (ps_records st) key = Some existing"
    and pending: "rl_state existing = RelPending" and me: "fst key = pp_local (ps_policy st)"
    and nxt: "generation \<noteq> 0" "checked_add generation 1 = Some nxt"
  shows "adopt_accepted request generation now key existing st =
    (let st = st\<lparr>ps_next_relation_generation := max (ps_next_relation_generation st) nxt\<rparr> in
     case relation_expiry st now of
       Inl e \<Rightarrow> (st, Inl e)
     | Inr expires \<Rightarrow>
         (st\<lparr>ps_records := bmap_insert key (existing\<lparr>rl_relation_generation := generation,
             rl_expires_at := expires, rl_state := kind_state (rq_kind request)\<rparr>) (ps_records st),
            ps_pending_count := 0\<rparr>, Inr AdoptionAccepted))"
proof -
  have policy: "policy_checked (ps_policy st) = Inr (ps_policy st)" using ok by (simp add: parenting_ok_def)
  have "ps_backup_children st < 2 ^ 64"
    using ok policy_checked_facts(6) [OF policy] by (simp add: parenting_ok_def)
  then show ?thesis
    using nxt me pending_is_one [OF ok get pending]
    by (cases "rq_kind request")
       (auto simp: adopt_accepted_def max_def relation_expiry_def Let_def usize_sub_def usize_add_def
          count_accepted_def kind_state_def split: option.splits)
qed

lemma adopt_accepted_keeps:
  assumes ok: "parenting_ok st" and get: "bmap_get (ps_records st) key = Some existing"
    and pending: "rl_state existing = RelPending" "rl_kind existing = rq_kind request"
    and me: "fst key = pp_local (ps_policy st)"
  shows "keeps_table 0 st (adopt_accepted request generation now key existing st)"
proof (cases "generation = 0 \<or> checked_add generation 1 = None")
  case True
  then show ?thesis using ok by (auto simp: adopt_accepted_def)
next
  case False
  then obtain nxt where nxt: "generation \<noteq> 0" "checked_add generation 1 = Some nxt" by auto
  define gen where "gen = max (ps_next_relation_generation st) nxt"
  let ?st = "st\<lparr>ps_next_relation_generation := gen\<rparr>"
  have "unat nxt = unat generation + 1" using nxt(2) by (simp add: checked_add_Some_iff)
  then have "generation < nxt" by (simp add: word_less_nat_alt)
  then have gen: "generation < gen" "ps_next_relation_generation st \<le> gen"
    by (auto simp: gen_def max_def)
  have ok': "parenting_ok ?st" by (rule parenting_ok_generation [OF ok gen(2)])
  have get': "bmap_get (ps_records ?st) key = Some existing" using get by simp
  show ?thesis
  proof (cases "relation_expiry ?st now")
    case (Inl e)
    then show ?thesis
      unfolding adopt_accepted_result [OF ok get pending(1) me nxt] gen_def [symmetric] Let_def
      using relation_expiry_error [OF Inl] ok' gen(2) by auto
  next
    case (Inr expires)
    let ?r = "existing\<lparr>rl_relation_generation := generation, rl_expires_at := expires,
      rl_state := kind_state (rq_kind request)\<rparr>"
    have "relation_ok (ps_policy ?st) (ps_next_relation_generation ?st) key existing"
      using ok' get' unfolding parenting_ok_def by blast
    then have "relation_ok (ps_policy ?st) (ps_next_relation_generation ?st) key ?r"
      using gen(1) nxt(1) me pending(2) by (simp add: relation_ok_def)
    from table_update [OF ok' get' this, of 0]
    have "parenting_ok (?st\<lparr>ps_records := bmap_insert key ?r (ps_records ?st), ps_pending_count := 0\<rparr>)"
      using pending_is_one [OF ok get pending(1)] pending(1) me by simp
    then show ?thesis
      unfolding adopt_accepted_result [OF ok get pending(1) me nxt] gen_def [symmetric] Let_def Inr sum.case
      using gen(2) by auto
  qed
qed

lemma adopt_response_keeps:
  assumes ok: "parenting_ok st"
  shows "keeps_table 0 st (adopt_response owner ticket response clock st)"
proof -
  let ?request = "response_request response" and ?key = "tk_key ticket"
  have early: "check_request st ?request = Some e \<Longrightarrow> e \<noteq> InvariantFailed" for e
    by (rule check_request_error)
  have "keeps_table 0 st (and_then (parenting_now clock st)
      (\<lambda>st now.
         if rl_expires_at existing \<le> now then and_then (remove_key ?key st) (\<lambda>st _. (st, Inl StaleRequest))
         else case response of
                Rejected _ reason \<Rightarrow> and_then (remove_key ?key st) (\<lambda>st _. (st, Inr (AdoptionRejected reason)))
              | Accepted _ generation \<Rightarrow> adopt_accepted ?request generation now ?key existing st))"
    if get: "bmap_get (ps_records st) ?key = Some existing" and pend: "same_pending existing owner ?request"
      and me: "fst ?key = pp_local (ps_policy st)" for existing
  proof (rule keeps_table_then0 [OF keeps_table_now [OF ok]])
    fix st' now
    assume st': "parenting_now clock st = (st', Inr now)" "parenting_ok st'" "ps_policy st' = ps_policy st"
    then have get': "bmap_get (ps_records st') ?key = Some existing"
      using get by (auto simp: parenting_now_def split: if_splits)
    have rem: "keeps_table 0 st' (remove_key ?key st')" using get' by (intro keeps_table_remove st') simp
    have adopt: "keeps_table 0 st' (adopt_accepted ?request generation now ?key existing st')" for generation
      using adopt_accepted_keeps [OF st'(2) get'] pend me st'(3) by (simp add: same_pending_def same_relation_def)
    show "keeps_table 0 st' (if rl_expires_at existing \<le> now
       then and_then (remove_key ?key st') (\<lambda>st _. (st, Inl StaleRequest))
       else case response of
              Rejected _ reason \<Rightarrow> and_then (remove_key ?key st') (\<lambda>st _. (st, Inr (AdoptionRejected reason)))
            | Accepted _ generation \<Rightarrow> adopt_accepted ?request generation now ?key existing st')"
      using adopt by (auto intro!: keeps_table_then0 [OF rem] split: attach_response.split)
  qed
  then show ?thesis
    using ok early by (auto simp: adopt_response_def Let_def split: option.split)
qed

lemma cancel_child_attach_keeps:
  assumes ok: "parenting_ok st"
  shows "keeps_table 0 st (cancel_child_attach owner ticket st)"
proof (cases "bmap_get (ps_records st) (tk_key ticket)")
  case (Some existing)
  then have "keeps_table 0 st (remove_key (tk_key ticket) st)" by (intro keeps_table_remove ok) simp
  then have "keeps_table 0 st (and_then (remove_key (tk_key ticket) st) (\<lambda>st _. (st, Inr ())))"
    by (rule keeps_table_then0) simp
  then show ?thesis using Some ok by (auto simp: cancel_child_attach_def)
qed (simp add: cancel_child_attach_def ok)

lemma has_live_owner_keeps: "parenting_ok st \<Longrightarrow> keeps_table 0 st (has_live_owner owner clock st)"
  unfolding has_live_owner_def by (intro keeps_table_then0 keeps_table_now) simp_all

lemma primary_parent_keeps: "parenting_ok st \<Longrightarrow> keeps_table 0 st (primary_parent_at_now clock st)"
  unfolding primary_parent_at_now_def Let_def
  by (intro keeps_table_then0 keeps_table_now keeps_table_expire) simp_all

lemma maintain_now_keeps: "parenting_ok st \<Longrightarrow> keeps_table 0 st (maintain_now clock st)"
  unfolding maintain_now_def by (intro keeps_table_then0 keeps_table_now keeps_table_maintain) simp_all

section \<open>Retirement\<close>

lemma bmap_successor_append:
  assumes "\<forall>e \<in> set before. case cursor of None \<Rightarrow> False | Some c \<Rightarrow> fst e \<le> c"
    and "case cursor of None \<Rightarrow> True | Some c \<Rightarrow> c < fst e"
  shows "bmap_successor cursor (before @ e # rest) = Some e"
proof -
  have "filter (\<lambda>(k, v). case cursor of Some a \<Rightarrow> a < k | None \<Rightarrow> True) before = []"
    using assms(1) by (fastforce simp: filter_empty_conv split: option.splits)
  then show ?thesis using assms(2) by (auto simp: bmap_successor_def split: option.splits)
qed

lemma bmap_remove_middle:
  assumes "bmap_wf (before @ (k, v) # rest)"
  shows "bmap_remove k (before @ (k, v) # rest) = before @ rest"
proof -
  have "\<forall>e \<in> set before \<union> set rest. fst e \<noteq> k" using assms by (auto simp: bmap_wf_def sorted_wrt_append)
  then have "filter (\<lambda>e. fst e \<noteq> k) before = before" "filter (\<lambda>e. fst e \<noteq> k) rest = rest"
    by (simp_all add: filter_id_conv)
  then show ?thesis by (simp add: bmap_remove_def)
qed

lemma bmap_get_middle: "bmap_wf (before @ (k, v) # rest) \<Longrightarrow> bmap_get (before @ (k, v) # rest) k = Some v"
  by (simp add: bmap_get_eq_Some_iff)

definition only_records :: "parenting_state \<Rightarrow> parenting_state \<Rightarrow> bool" where
  "only_records st st' \<longleftrightarrow>
     ps_policy st' = ps_policy st \<and> ps_next_relation_generation st' = ps_next_relation_generation st \<and>
     ps_last_now st' = ps_last_now st"

lemma remove_matching_loop_exact:
  "\<lbrakk>parenting_ok st; ps_records st = before @ rest; removed + length rest < 2 ^ 64;
    \<forall>e \<in> set before. case cursor of None \<Rightarrow> False | Some c \<Rightarrow> fst e \<le> c;
    \<forall>e \<in> set rest. case cursor of None \<Rightarrow> True | Some c \<Rightarrow> c < fst e;
    if s = 0 then cursor = None \<and> start = map_option fst (bmap_successor None rest)
    else \<exists>c k. cursor = Some c \<and> start = Some k \<and> k \<le> c\<rbrakk> \<Longrightarrow>
   \<exists>st'. remove_matching_loop P start [s..<s + length rest] cursor removed st =
       (st', Inr (removed + rel_count P rest)) \<and>
     parenting_ok st' \<and> ps_records st' = before @ filter (\<lambda>(k, r). \<not> P k r) rest \<and> only_records st st'"
proof (induction rest arbitrary: before cursor removed st s)
  case Nil
  then show ?case by (simp add: only_records_def)
next
  case (Cons e rest)
  obtain k r where e: "e = (k, r)" by fastforce
  have wf: "bmap_wf (before @ (k, r) # rest)" using Cons.prems(1,2) e by (simp add: parenting_ok_def)
  have get: "bmap_get (ps_records st) k = Some r" using bmap_get_middle [OF wf] Cons.prems(2) e by simp
  have nxt: "next_key_after st cursor = Some k"
    using bmap_successor_append [OF Cons.prems(4), of e rest] Cons.prems(2,5) e by (simp add: next_key_after_def)
  have go: "\<not> (s > 0 \<and> Some k = start)" using Cons.prems(5,6) e by (auto split: if_splits)
  have later: "\<forall>e \<in> set rest. case Some k of None \<Rightarrow> True | Some c \<Rightarrow> c < fst e"
    using wf by (auto simp: bmap_wf_def sorted_wrt_append)
  have earlier: "\<forall>e \<in> set before. case Some k of None \<Rightarrow> False | Some c \<Rightarrow> fst e \<le> c"
    using wf by (auto simp: bmap_wf_def sorted_wrt_append)
  have "\<exists>k'. start = Some k' \<and> k' \<le> k"
  proof (cases "s = 0")
    case True
    then show ?thesis using Cons.prems(6) e by (simp add: bmap_successor_def)
  next
    case False
    then have "\<exists>c k'. cursor = Some c \<and> start = Some k' \<and> k' \<le> c" using Cons.prems(6) by simp
    then obtain c k' where c: "cursor = Some c" "start = Some k'" "k' \<le> c" by blast
    have "c < k" using Cons.prems(5) e c(1) by simp
    then have "k' \<le> k" using c(3) by (rule order_trans [OF _ less_imp_le, rotated])
    then show ?thesis using c(2) by blast
  qed
  then have begun: "if Suc s = 0 then Some k = None \<and> start = map_option fst (bmap_successor None rest)
      else \<exists>c k'. Some k = Some c \<and> start = Some k' \<and> k' \<le> c"
    by simp
  have steps: "[s..<s + length (e # rest)] = s # [Suc s..<Suc s + length rest]" by (simp add: upt_conv_Cons del: upt_Suc)
  show ?case
  proof (cases "P k r")
    case True
    obtain st1 where st1: "remove_key k st = (st1, Inr r)" "parenting_ok st1"
        "ps_records st1 = before @ rest" "only_records st st1"
      using remove_key_ok [OF Cons.prems(1) get] bmap_remove_middle [OF wf] Cons.prems(2) e
      by (auto simp: only_records_def)
    have "removed + 1 < 2 ^ 64" "removed + 1 + length rest < 2 ^ 64" using Cons.prems(3) by auto
    note room = this
    have step: "remove_matching_loop P start [s..<s + length (e # rest)] cursor removed st =
        remove_matching_loop P start [Suc s..<Suc s + length rest] (Some k) (removed + 1) st1"
      unfolding steps remove_matching_loop.simps nxt option.case if_not_P [OF go] using get True st1(1) room(1)
      by (simp add: usize_add_def del: upt_Suc)
    have "rel_count P (e # rest) = 1 + rel_count P rest"
      "filter (\<lambda>(k, r). \<not> P k r) (e # rest) = filter (\<lambda>(k, r). \<not> P k r) rest"
      using True e by (simp_all add: rel_count_def)
    with Cons.IH [OF st1(2,3) room(2) earlier later begun] st1(4) show ?thesis
      unfolding step by (simp only: only_records_def) (metis add.assoc)
  next
    case False
    have step: "remove_matching_loop P start [s..<s + length (e # rest)] cursor removed st =
        remove_matching_loop P start [Suc s..<Suc s + length rest] (Some k) removed st"
      unfolding steps remove_matching_loop.simps nxt option.case if_not_P [OF go] using get False by (simp del: upt_Suc)
    have recs: "ps_records st = (before @ [(k, r)]) @ rest" using Cons.prems(2) e by simp
    have passed: "\<forall>e \<in> set (before @ [(k, r)]). case Some k of None \<Rightarrow> False | Some c \<Rightarrow> fst e \<le> c"
      using earlier by simp
    have room: "removed + length rest < 2 ^ 64" using Cons.prems(3) by simp
    have "rel_count P (e # rest) = rel_count P rest"
      "filter (\<lambda>(k, r). \<not> P k r) (e # rest) = (k, r) # filter (\<lambda>(k, r). \<not> P k r) rest"
      using False e by (simp_all add: rel_count_def)
    with Cons.IH [OF Cons.prems(1) recs room passed later begun] show ?thesis
      unfolding step by simp
  qed
qed

lemma remove_matching_exact:
  assumes "parenting_ok st"
  shows "\<exists>st'. remove_matching P st = (st', Inr (rel_count P (ps_records st))) \<and> parenting_ok st' \<and>
    ps_records st' = filter (\<lambda>(k, r). \<not> P k r) (ps_records st) \<and> only_records st st'"
  using remove_matching_loop_exact [OF assms, of "[]" "ps_records st" 0 None 0] assms
  by (simp add: remove_matching_def parenting_ok_def [of st])

lemma parenting_ok_count: "parenting_ok st \<Longrightarrow> ps_record_count st = length (ps_records st)"
  by (simp add: parenting_ok_def)

lemma retire_owner_keeps:
  assumes ok: "parenting_ok st"
  shows "keeps_table 0 st (retire_owner owner st)"
proof -
  let ?P = "\<lambda>(_ :: parenting_key) relation. rl_owner relation = owner"
  obtain st' where st': "remove_matching ?P st = (st', Inr (rel_count ?P (ps_records st)))" "parenting_ok st'"
      "ps_records st' = filter (\<lambda>(k, r). \<not> ?P k r) (ps_records st)" "only_records st st'"
    using remove_matching_exact [OF ok] by blast
  have "ps_record_count st' \<le> ps_record_count st"
    unfolding parenting_ok_count [OF st'(2)] parenting_ok_count [OF ok] st'(3) by (rule length_filter_le)
  then show ?thesis
    using st' unfolding retire_owner_def st'(1) by (intro keeps_tableI) (simp_all add: only_records_def)
qed

section \<open>Reachable tables\<close>

datatype parenting_call =
  CallMaintain u64
| CallAccept owner_coordinate attach_request u64 "unavailable option"
| CallBegin owner_coordinate attach_request u64 "unavailable option"
| CallAdopt owner_coordinate attach_ticket attach_response u64
| CallCancel owner_coordinate attach_ticket
| CallHasLiveOwner owner_coordinate u64
| CallPrimaryParent u64
| CallRetireOwner owner_coordinate

definition outcome :: "'a parenting_result \<Rightarrow> parenting_state \<times> parenting_refusal option" where
  "outcome res = (fst res, case snd res of Inl e \<Rightarrow> Some e | Inr _ \<Rightarrow> None)"

fun parenting_apply :: "parenting_call \<Rightarrow> parenting_state \<Rightarrow> parenting_state \<times> parenting_refusal option" where
  "parenting_apply (CallMaintain clock) st = outcome (maintain_now clock st)"
| "parenting_apply (CallAccept owner request clock refused) st =
     outcome (accept_request owner request clock refused st)"
| "parenting_apply (CallBegin owner request clock refused) st =
     outcome (begin_child_attach owner request clock refused st)"
| "parenting_apply (CallAdopt owner ticket response clock) st =
     outcome (adopt_response owner ticket response clock st)"
| "parenting_apply (CallCancel owner ticket) st = outcome (cancel_child_attach owner ticket st)"
| "parenting_apply (CallHasLiveOwner owner clock) st = outcome (has_live_owner owner clock st)"
| "parenting_apply (CallPrimaryParent clock) st = outcome (primary_parent_at_now clock st)"
| "parenting_apply (CallRetireOwner owner) st = outcome (retire_owner owner st)"

text \<open>
  The tables a policy can reach. A record is a live allocation of the map, so a table never holds
  \<open>2 ^ 64 - 1\<close> of them; the step says so.
\<close>

inductive parenting_reach :: "parenting_policy \<Rightarrow> parenting_state \<Rightarrow> bool" for p where
  reach_new: "parenting_new p = Inr st \<Longrightarrow> parenting_reach p st"
| reach_call: "\<lbrakk>parenting_reach p st; ps_record_count st + 1 < 2 ^ 64\<rbrakk> \<Longrightarrow>
    parenting_reach p (fst (parenting_apply c st))"

lemma outcome_keeps:
  assumes "keeps_table n st res"
  shows "parenting_ok (fst (outcome res))" "ps_policy (fst (outcome res)) = ps_policy st"
    "snd (outcome res) \<noteq> Some InvariantFailed"
  using assms by (auto simp: outcome_def keeps_table_def split: prod.splits sum.splits)

lemma parenting_apply_ok:
  assumes ok: "parenting_ok st" and room: "ps_record_count st + 1 < 2 ^ 64"
  shows "parenting_ok (fst (parenting_apply c st)) \<and> ps_policy (fst (parenting_apply c st)) = ps_policy st \<and>
    snd (parenting_apply c st) \<noteq> Some InvariantFailed"
proof -
  note calls = maintain_now_keeps [OF ok] accept_request_keeps [OF ok room] begin_child_attach_keeps [OF ok room]
    adopt_response_keeps [OF ok] cancel_child_attach_keeps [OF ok] has_live_owner_keeps [OF ok]
    primary_parent_keeps [OF ok] retire_owner_keeps [OF ok]
  show ?thesis by (cases c) (simp_all add: outcome_keeps [OF calls(1)] outcome_keeps [OF calls(2)]
      outcome_keeps [OF calls(3)] outcome_keeps [OF calls(4)] outcome_keeps [OF calls(5)]
      outcome_keeps [OF calls(6)] outcome_keeps [OF calls(7)] outcome_keeps [OF calls(8)])
qed

lemma parenting_reach_ok: "parenting_reach p st \<Longrightarrow> parenting_ok st \<and> ps_policy st = p"
  by (induction rule: parenting_reach.induct) (use parenting_new_ok parenting_apply_ok in auto)

section \<open>Expiry\<close>

text \<open>
  Maintenance and expiry only drop expired records: a record that is not expired at the reading of the
  clock is still there afterwards, and nothing appears.
\<close>

definition prunes :: "u64 \<Rightarrow> parenting_state \<Rightarrow> parenting_state \<Rightarrow> bool" where
  "prunes now st st' \<longleftrightarrow> only_records st st' \<and>
     (\<forall>k. bmap_get (ps_records st') k = bmap_get (ps_records st) k \<or>
          (bmap_get (ps_records st') k = None \<and> key_expired st k now))"

lemma prunes_refl [simp]: "prunes now st st"
  by (simp add: prunes_def only_records_def)

lemma prunes_trans: "\<lbrakk>prunes now st st'; prunes now st' st''\<rbrakk> \<Longrightarrow> prunes now st st''"
  unfolding prunes_def only_records_def key_expired_def by (metis option.simps(4))

lemma prunes_get:
  assumes "prunes now st st'"
  shows "bmap_get (ps_records st) k = None \<Longrightarrow> bmap_get (ps_records st') k = None"
    "\<lbrakk>bmap_get (ps_records st) k = Some r; now < rl_expires_at r\<rbrakk> \<Longrightarrow> bmap_get (ps_records st') k = Some r"
  using assms unfolding prunes_def key_expired_def by (metis option.simps(4), metis leD option.simps(5))

lemma remove_key_prunes:
  assumes "remove_key key st = (st', r)" "key_expired st key now"
  shows "prunes now st st'"
proof -
  obtain rel where "bmap_get (ps_records st) key = Some rel"
    using key_expired_present [OF assms(2)] by blast
  then have "ps_records st' = bmap_remove key (ps_records st)" "only_records st st'"
    using assms(1) by (auto simp: remove_key_def Let_def only_records_def
        split: if_splits option.splits relation_state.splits)
  then show ?thesis using assms(2) by (simp add: prunes_def)
qed

lemma expire_prunes: "expire_key_if_needed key now st = (st', r) \<Longrightarrow> prunes now st st'"
proof (cases "key_expired st key now")
  case True
  assume "expire_key_if_needed key now st = (st', r)"
  moreover obtain st1 x where rem: "remove_key key st = (st1, x)" by fastforce
  ultimately have "st' = st1" using True by (cases x) (auto simp: expire_key_if_needed_def)
  then show ?thesis using remove_key_prunes [OF rem True] by simp
qed (auto simp: expire_key_if_needed_def)

lemma maintain_loop_prunes:
  "maintain_loop now start steps cursor removed st = (st', r) \<Longrightarrow> prunes now st st'"
proof (induction steps arbitrary: cursor removed st)
  case (Cons step rest)
  show ?case
  proof (cases "next_key_after st cursor")
    case (Some key)
    obtain st1 x where rem: "remove_key key st = (st1, x)" by fastforce
    show ?thesis
    proof (cases "\<not> (step > 0 \<and> Some key = start) \<and> key_expired st key now")
      case True
      then have first: "prunes now st st1" using rem remove_key_prunes by blast
      have "st' = st1 \<or> (\<exists>n. maintain_loop now start rest (Some key) n st1 = (st', r))"
        using Cons.prems Some True rem by (cases x) (auto split: option.splits if_splits)
      then show ?thesis using first Cons.IH prunes_trans by blast
    next
      case False
      then show ?thesis using Cons.prems Some Cons.IH by (auto split: if_splits)
    qed
  qed (use Cons.prems in auto)
qed simp

lemma prunes_cursor [simp]: "prunes now st (st'\<lparr>ps_maintenance_cursor := c\<rparr>) = prunes now st st'"
  by (simp add: prunes_def only_records_def)

lemma maintain_at_prunes:
  assumes "maintain_at now st = (st', r)"
  shows "prunes now st st'"
proof -
  obtain st1 x where loop: "maintain_loop now (next_key_after st (ps_maintenance_cursor st))
      [0..<pp_max_pending (ps_policy st)] (ps_maintenance_cursor st) 0 st = (st1, x)" by fastforce
  have "prunes now st st1" by (rule maintain_loop_prunes [OF loop])
  then show ?thesis using assms loop by (cases x) (auto simp: maintain_at_def Let_def)
qed

lemma parenting_now_Inr:
  assumes "parenting_now clock st = (st1, Inr now)"
  shows "now = clock" "st1 = st\<lparr>ps_last_now := Some clock\<rparr>"
  using assms by (auto simp: parenting_now_def split: if_splits)

section \<open>The attach handshake\<close>

lemma remove_key_error: "remove_key key st = (st', Inl e) \<Longrightarrow> e = InvariantFailed"
  by (auto simp: remove_key_def Let_def split: if_splits option.splits relation_state.splits)

lemma maintain_loop_error:
  "maintain_loop now start steps cursor removed st = (st', Inl e) \<Longrightarrow> e = InvariantFailed"
proof (induction steps arbitrary: cursor removed st)
  case (Cons step rest)
  show ?case
  proof (cases "next_key_after st cursor")
    case (Some key)
    obtain st1 x where rem: "remove_key key st = (st1, x)" by fastforce
    show ?thesis
      using Cons.prems Some rem Cons.IH remove_key_error [of key st]
      by (cases x) (auto split: if_splits option.splits)
  qed (use Cons.prems in auto)
qed simp

lemma maintain_at_Inr:
  assumes "parenting_ok st"
  obtains st' n where "maintain_at now st = (st', Inr n)" "parenting_ok st'" "prunes now st st'"
    "ps_record_count st' \<le> ps_record_count st"
proof -
  obtain st' r where m: "maintain_at now st = (st', r)" by fastforce
  have "r \<noteq> Inl InvariantFailed" "parenting_ok st'" "ps_record_count st' \<le> ps_record_count st"
    using keeps_table_maintain [OF assms, of now] m by (simp_all add: keeps_table_def)
  moreover have "\<exists>n. r = Inr n" if "r \<noteq> Inl InvariantFailed"
  proof (rule ccontr)
    assume "\<nexists>n. r = Inr n"
    then obtain e where e: "r = Inl e" by (cases r) auto
    obtain st1 x where "maintain_loop now (next_key_after st (ps_maintenance_cursor st))
        [0..<pp_max_pending (ps_policy st)] (ps_maintenance_cursor st) 0 st = (st1, x)" by fastforce
    with m e maintain_loop_error that show False by (cases x) (fastforce simp: maintain_at_def Let_def)+
  qed
  ultimately show ?thesis using that m maintain_at_prunes by blast
qed

lemma timed_call:
  assumes ok: "parenting_ok st"
  obtains (regressed) "and_then (parenting_now clock st)
      (\<lambda>st now. and_then (maintain_at now st) (\<lambda>st _. body now st)) = (st, Inl ClockRegression)"
      "\<exists>t. ps_last_now st = Some t \<and> clock < t"
  | (runs) st2 where "and_then (parenting_now clock st)
      (\<lambda>st now. and_then (maintain_at now st) (\<lambda>st _. body now st)) = body clock st2"
      "parenting_ok st2" "prunes clock (st\<lparr>ps_last_now := Some clock\<rparr>) st2"
      "ps_record_count st2 \<le> ps_record_count st"
proof (cases "\<exists>t. ps_last_now st = Some t \<and> clock < t")
  case True
  then show ?thesis using regressed by (auto simp: parenting_now_def)
next
  case False
  let ?st = "st\<lparr>ps_last_now := Some clock\<rparr>"
  have "parenting_now clock st = (?st, Inr clock)"
    using False by (auto simp: parenting_now_def split: option.splits)
  moreover have "parenting_ok ?st" using ok by (simp add: parenting_ok_def)
  then obtain st2 n where "maintain_at clock ?st = (st2, Inr n)" "parenting_ok st2" "prunes clock ?st st2"
      "ps_record_count st2 \<le> ps_record_count ?st"
    by (rule maintain_at_Inr)
  ultimately show ?thesis using runs [of st2] by simp
qed

lemma begin_primary_fresh:
  assumes ok: "parenting_ok st" and run: "begin_child_attach owner request clock None st = (st', Inr ticket)"
    and kind: "rq_kind request = KindPrimary"
    and free: "bmap_get (ps_records st) (primary_key (rq_child request)) = None"
  obtains gen expires where "checked_add clock (pp_max_age_ticks (ps_policy st)) = Some expires"
    "ticket = pending_ticket (primary_key (rq_child request)) (new_relation owner request gen expires RelPending)"
    "bmap_get (ps_records st') (primary_key (rq_child request)) =
       Some (new_relation owner request gen expires RelPending)"
    "ps_last_now st' = Some clock" "request_for_child st owner request"
proof -
  let ?key = "primary_key (rq_child request)"
  have req: "request_for_child st owner request"
    using run by (auto simp: begin_child_attach_def request_for_child_def split: option.splits if_splits)
  then have body: "and_then (parenting_now clock st) (\<lambda>st now. and_then (maintain_at now st)
      (\<lambda>st _. begin_in_slot owner request None now st)) = (st', Inr ticket)"
    using run by (simp add: begin_child_attach_def request_for_child_def)
  from ok show ?thesis
  proof (cases rule: timed_call [where clock = clock and body = "begin_in_slot owner request None"])
    case (runs st2)
    have none: "bmap_get (ps_records st2) ?key = None" using prunes_get(1) [OF runs(3)] free by simp
    have same: "ps_policy st2 = ps_policy st" "ps_last_now st2 = Some clock"
      using runs(3) by (simp_all add: prunes_def only_records_def)
    have wf: "bmap_wf (ps_records st2)" using runs(2) by (simp add: parenting_ok_def)
    have "begin_fresh owner request None clock ?key st2 = (st', Inr ticket)"
      using body runs(1) kind none
      by (simp add: begin_in_slot_def begin_at_key_def expire_key_if_needed_def key_expired_def)
    then have "\<exists>expires. checked_add clock (pp_max_age_ticks (ps_policy st)) = Some expires \<and>
        ticket = pending_ticket ?key (new_relation owner request (ps_next_relation_generation st2) expires RelPending) \<and>
        bmap_get (ps_records st') ?key =
          Some (new_relation owner request (ps_next_relation_generation st2) expires RelPending) \<and>
        ps_last_now st' = Some clock"
      using none same wf
      by (auto simp: begin_fresh_def next_relation_generation_def insert_relation_def Let_def relation_expiry_def
          split: if_splits option.splits)
    then show ?thesis using that req by blast
  qed (use body in simp)
qed

definition accepted_primary :: "owner_coordinate \<Rightarrow> attach_request \<Rightarrow> u64 \<Rightarrow> u64 \<Rightarrow> parenting_relation \<Rightarrow> bool" where
  "accepted_primary owner request g expires r \<longleftrightarrow>
     same_relation r owner request \<and> rl_state r = RelPrimary \<and> rl_relation_generation r = g \<and>
     rl_request_sequence r = rq_request_sequence request \<and> rl_expires_at r = expires"

lemma accept_at_key_primary:
  assumes ok: "parenting_ok st" and kind: "rq_kind request = KindPrimary"
    and run: "accept_at_key owner request refused now expires (primary_key (rq_child request)) st =
      (st', Inr response)"
  shows "\<exists>g r. response = Accepted request g \<and> ps_policy st' = ps_policy st \<and> ps_last_now st' = ps_last_now st \<and>
    bmap_get (ps_records st') (primary_key (rq_child request)) = Some r \<and>
    accepted_primary owner request g expires r"
proof -
  let ?key = "primary_key (rq_child request)"
  from run obtain st1 gone where exp: "expire_key_if_needed ?key now st = (st1, Inr gone)"
      and at_key: "(case bmap_get (ps_records st1) ?key of
          Some existing \<Rightarrow>
            if same_relation existing owner request \<and> rl_state existing \<noteq> RelPending
            then renew_accepted ?key request expires existing st1 else (st1, Inl StaleRequest)
        | None \<Rightarrow> accept_fresh owner request refused expires ?key st1) = (st', Inr response)"
    unfolding accept_at_key_def by (rule and_then_InrE)
  have ok1: "parenting_ok st1" using keeps_table_expire [OF ok, of ?key now] exp by (simp add: keeps_table_def)
  then have wf: "bmap_wf (ps_records st1)" by (simp add: parenting_ok_def)
  have "only_records st st1" using expire_prunes [OF exp] by (simp add: prunes_def)
  moreover have "\<exists>g r. response = Accepted request g \<and> only_records st1 (st'\<lparr>ps_next_relation_generation :=
      ps_next_relation_generation st1\<rparr>) \<and>
    bmap_get (ps_records st') ?key = Some r \<and> accepted_primary owner request g expires r"
  proof (cases "bmap_get (ps_records st1) ?key")
    case None
    then show ?thesis
      using at_key kind wf
      by (auto simp: accept_fresh_def next_relation_generation_def insert_relation_def count_accepted_def Let_def
          new_relation_def same_relation_def kind_state_def accepted_primary_def only_records_def
          split: if_splits option.splits)
  next
    case (Some r)
    have "relation_ok (ps_policy st1) (ps_next_relation_generation st1) ?key r"
      using ok1 Some unfolding parenting_ok_def by blast
    then show ?thesis
      using at_key Some kind wf
      by (auto simp: renew_accepted_def relation_ok_def kind_state_def same_relation_def accepted_primary_def
          only_records_def split: if_splits)
  qed
  ultimately show ?thesis by (auto simp: only_records_def)
qed

lemma accept_primary_result:
  assumes ok: "parenting_ok st" and kind: "rq_kind request = KindPrimary"
    and run: "accept_request owner request clock refused st = (st', Inr response)"
  obtains g expires r where "response = Accepted request g" "request_for_parent st owner request"
    "checked_add clock (pp_max_age_ticks (ps_policy st)) = Some expires" "ps_last_now st' = Some clock"
    "ps_policy st' = ps_policy st"
    "bmap_get (ps_records st') (primary_key (rq_child request)) = Some r"
    "accepted_primary owner request g expires r"
proof (cases rule: accept_request_cases [of owner request clock refused st])
  case placed
  from ok show ?thesis
  proof (cases rule: timed_call [where clock = clock and body = "accept_in_slot owner request refused"])
    case (runs st2)
    have same: "ps_policy st2 = ps_policy st" "ps_last_now st2 = Some clock"
      using runs(3) by (simp_all add: prunes_def only_records_def)
    have "accept_in_slot owner request refused clock st2 = (st', Inr response)" using run runs(1) placed(2) by simp
    then obtain expires where exp: "checked_add clock (pp_max_age_ticks (ps_policy st)) = Some expires"
        and "accept_at_key owner request refused clock expires (primary_key (rq_child request)) st2 =
          (st', Inr response)"
      using kind same(1) by (auto simp: accept_in_slot_def relation_expiry_def split: option.splits)
    from accept_at_key_primary [OF runs(2) kind this(2)] same placed(1) exp show ?thesis
      by (auto intro: that)
  qed (use run placed(2) in simp)
qed (use run in simp)

lemma adopt_primary:
  assumes ok: "parenting_ok st" and req: "request_for_child st owner request"
    and kind: "rq_kind request = KindPrimary" and key: "key = primary_key (rq_child request)"
    and r: "r = new_relation owner request gen expires RelPending"
    and get: "bmap_get (ps_records st) key = Some r"
    and time: "ps_last_now st = Some t" "t \<le> clock" "clock < expires"
      "checked_add clock (pp_max_age_ticks (ps_policy st)) = Some until"
    and g: "g \<noteq> 0" "checked_add g 1 = Some nxt"
  shows "\<exists>st'. adopt_response owner (pending_ticket key r) (Accepted request g) clock st =
      (st', Inr AdoptionAccepted) \<and> ps_policy st' = ps_policy st \<and> ps_last_now st' = Some clock \<and>
    bmap_get (ps_records st') key = Some (r\<lparr>rl_relation_generation := g, rl_expires_at := until, rl_state := RelPrimary\<rparr>)"
proof -
  let ?st = "st\<lparr>ps_last_now := Some clock\<rparr>"
  have now: "parenting_now clock st = (?st, Inr clock)" using time(1,2) by (auto simp: parenting_now_def)
  have ok': "parenting_ok ?st" using ok by (simp add: parenting_ok_def)
  have me: "fst key = pp_local (ps_policy st)" using key req by (simp add: primary_key_def request_for_child_def)
  have "adopt_response owner (pending_ticket key r) (Accepted request g) clock st =
      adopt_accepted request g clock key r ?st"
    using req get now me key kind not_le [THEN iffD2, OF time(3)]
    by (simp add: adopt_response_def response_request_def pending_ticket_def request_for_child_def r
        new_relation_def same_pending_def same_relation_def slot_matches_def primary_key_def Let_def)
  moreover have "bmap_wf (ps_records st)" using ok by (simp add: parenting_ok_def)
  ultimately show ?thesis
    using adopt_accepted_result [OF ok' _ _ _ g, of key r request clock] get me time(4) kind
    by (simp add: relation_expiry_def r new_relation_def kind_state_def Let_def)
qed

lemma primary_parent_live:
  assumes "bmap_get (ps_records st) (primary_key (pp_local (ps_policy st))) = Some r" "rl_state r = RelPrimary"
    and "ps_last_now st = Some t" "t \<le> clock" "clock < rl_expires_at r"
  shows "primary_parent_at_now clock st = (st\<lparr>ps_last_now := Some clock\<rparr>,
    Inr (Some (take_snapshot (primary_key (pp_local (ps_policy st))) r)))"
  using assms by (auto simp: primary_parent_at_now_def parenting_now_def expire_key_if_needed_def key_expired_def Let_def)

lemma bmap_successor_in: "bmap_successor cursor m = Some e \<Longrightarrow> e \<in> set m"
  by (auto simp: bmap_successor_def filter_eq_Cons_iff split: list.splits)

lemma live_owner_loop_owner:
  "live_owner_loop owner now m n cursor \<Longrightarrow> \<exists>(k, r) \<in> set m. rl_owner r = owner \<and> now < rl_expires_at r"
proof (induction n arbitrary: cursor)
  case (Suc n)
  then show ?case by (fastforce dest: bmap_successor_in split: option.splits if_splits)
qed simp

section \<open>Samples\<close>

definition sample_policy :: "device_key \<Rightarrow> parenting_role \<Rightarrow> nat \<Rightarrow> nat \<Rightarrow> parenting_policy" where
  "sample_policy me role children backups =
     \<lparr>pp_local = me, pp_root = [1], pp_role = role, pp_max_hub_tier = 1, pp_max_children = children,
      pp_max_backups = backups, pp_max_pending = 1, pp_max_age_ticks = 10, pp_context_id = [9],
      pp_configuration_digest = [8]\<rparr>"

definition sample_table :: "parenting_policy \<Rightarrow> parenting_state" where
  "sample_table p = (case parenting_new p of Inr st \<Rightarrow> st)"

definition sample_owner :: "device_key \<Rightarrow> owner_coordinate" where
  "sample_owner peer = \<lparr>oc_peer = peer, oc_binding_namespace = [7], oc_binding_epoch = 1\<rparr>"

definition sample_request :: "u64 \<Rightarrow> device_key \<Rightarrow> parenting_role \<Rightarrow> device_key \<Rightarrow> parenting_role \<Rightarrow> relation_kind \<Rightarrow> attach_request" where
  "sample_request sequence child child_role parent parent_role kind =
     \<lparr>rq_context_id = [9], rq_configuration_digest = [8], rq_request_sequence = sequence, rq_child = child,
      rq_parent = parent, rq_child_role = child_role, rq_parent_role = parent_role, rq_kind = kind\<rparr>"

abbreviation root_policy :: parenting_policy where "root_policy \<equiv> sample_policy [1] Root 2 1"
abbreviation hub_policy :: parenting_policy where "hub_policy \<equiv> sample_policy [2] (Hub 1) 2 1"
abbreviation hub_request :: attach_request where "hub_request \<equiv> sample_request 1 [2] (Hub 1) [1] Root KindPrimary"


lemmas parenting_eval = sample_policy_def sample_table_def sample_owner_def sample_request_def
  parenting_new_def policy_checked_def relation_bound_def usize_add_def usize_mul_def usize_sub_def
  check_request_def accepts_child_def accepts_parent_def parenting_now_def maintain_at_def next_key_after_def
  bmap_successor_def accept_in_slot_def relation_expiry_def checked_add_def accept_at_key_def
  expire_key_if_needed_def key_expired_def primary_key_def accept_fresh_def accept_at_capacity_def
  next_relation_generation_def insert_relation_def new_relation_def kind_state_def count_accepted_def
  adopt_response_def adopt_accepted_def response_request_def slot_matches_def same_pending_def
  same_relation_def slot_backup_def upt_conv_Cons take_snapshot_def begin_in_slot_def begin_at_key_def begin_fresh_def pending_ticket_def bmap_get_Cons Let_def
  accept_request_def begin_child_attach_def


lemma sample_table_reach:
  "parenting_reach root_policy (sample_table root_policy)" "parenting_reach hub_policy (sample_table hub_policy)"
  by (rule reach_new, simp add: parenting_eval)+

lemma sample_table_room:
  "ps_record_count (sample_table root_policy) + 1 < 2 ^ 64" "ps_record_count (sample_table hub_policy) + 1 < 2 ^ 64"
  by (simp_all add: parenting_eval)

definition sample_begun :: "attach_ticket parenting_result" where
  "sample_begun = begin_child_attach (sample_owner [1]) hub_request 3 None (sample_table hub_policy)"

definition sample_accepted :: "attach_response parenting_result" where
  "sample_accepted = accept_request (sample_owner [2]) hub_request 3 None (sample_table root_policy)"

lemma sample_begun_Inr:
  "begin_child_attach (sample_owner [1]) hub_request 3 None (sample_table hub_policy) =
   (fst sample_begun, Inr (projr (snd sample_begun)))"
  by (simp add: sample_begun_def parenting_eval)

lemma sample_accepted_Inr:
  "accept_request (sample_owner [2]) hub_request 3 None (sample_table root_policy) =
   (fst sample_accepted, Inr (projr (snd sample_accepted)))"
  by (simp add: sample_accepted_def parenting_eval)

lemma sample_accepted_reach: "parenting_reach root_policy (fst sample_accepted)"
  using reach_call [OF sample_table_reach(1) sample_table_room(1),
      of "CallAccept (sample_owner [2]) hub_request 3 None"]
  by (simp add: outcome_def sample_accepted_def)

section \<open>Correctness of the table\<close>

text \<open>C22: whatever calls are made on a fresh table, it holds at most as many primary children, backup
  children and pending attaches as its policy allows, its record counter is the number of records,
  every record fits its key, the roles of the policy and the generation counter, and no call reports a
  broken invariant.\<close>

theorem parenting_calls_sound:
  assumes "parenting_reach p st"
  shows "rel_count (is_child_in (pp_local p) RelPrimary) (ps_records st) \<le> pp_max_children p \<and>
    rel_count (is_child_in (pp_local p) RelBackup) (ps_records st) \<le> pp_max_children p * pp_max_backups p \<and>
    rel_count is_pending (ps_records st) \<le> pp_max_pending p \<and>
    ps_record_count st = length (ps_records st) \<and>
    (\<forall>k r. bmap_get (ps_records st) k = Some r \<longrightarrow> relation_ok p (ps_next_relation_generation st) k r) \<and>
    (ps_record_count st + 1 < 2 ^ 64 \<longrightarrow> snd (parenting_apply c st) \<noteq> Some InvariantFailed)"
proof -
  have ok: "parenting_ok st" and p: "ps_policy st = p" using parenting_reach_ok [OF assms] by auto
  then have "pp_max_pending p = 1" using policy_checked_facts(1) by (simp add: parenting_ok_def)
  then show ?thesis using ok p parenting_apply_ok [OF ok] by (simp add: parenting_ok_def)
qed

theorem parenting_calls_sound_witness:
  "rel_count (is_child_in [1] RelPrimary) (ps_records (fst sample_accepted)) \<le> 2 \<and>
   ps_record_count (fst sample_accepted) = 1 \<and>
   snd (parenting_apply (CallMaintain 4) (fst sample_accepted)) \<noteq> Some InvariantFailed"
proof -
  have "pp_local root_policy = [1]" "pp_max_children root_policy = 2" by (simp_all add: sample_policy_def)
  moreover have "ps_record_count (fst sample_accepted) = 1" by (simp add: sample_accepted_def parenting_eval)
  ultimately show ?thesis
    using parenting_calls_sound [OF sample_accepted_reach, of "CallMaintain 4"] by simp
qed

text \<open>C23: the attach handshake. A child without a primary begins an attach, the parent accepts the
  request, and the response reaches the child before its pending record expires: the child adopts it,
  both ends hold the relation under the same generation, and until it expires the child reports that
  parent.\<close>

theorem attach_handshake:
  assumes child: "parenting_reach cp child" "ps_record_count child + 1 < 2 ^ 64"
    and parent: "parenting_reach pp parent" "ps_record_count parent + 1 < 2 ^ 64"
    and kind: "rq_kind request = KindPrimary"
    and free: "bmap_get (ps_records child) (primary_key (rq_child request)) = None"
    and begun: "begin_child_attach owner request t0 None child = (child1, Inr ticket)"
    and accepted: "accept_request owner' request t1 refused parent = (parent1, Inr response)"
    and time: "t0 \<le> t2" "checked_add t0 (pp_max_age_ticks cp) = Some e0" "t2 < e0"
      "checked_add t2 (pp_max_age_ticks cp) = Some until"
  shows "\<exists>g child2 r. response = Accepted request g \<and>
    adopt_response owner ticket response t2 child1 = (child2, Inr AdoptionAccepted) \<and>
    bmap_get (ps_records parent1) (primary_key (rq_child request)) = Some r \<and>
    rl_state r = RelPrimary \<and> rl_relation_generation r = g \<and>
    (t2 \<le> t3 \<longrightarrow> t3 < until \<longrightarrow>
       snd (primary_parent_at_now t3 child2) =
         Inr (Some \<lparr>sn_child = rq_child request, sn_parent = rq_parent request,
           sn_owner = oc_binding_namespace owner, sn_owner_epoch = oc_binding_epoch owner,
           sn_kind = KindPrimary, sn_relation_generation = g\<rparr>))"
proof -
  note okc = parenting_reach_ok [OF child(1), THEN conjunct1]
  note okp = parenting_reach_ok [OF parent(1), THEN conjunct1]
  have cp: "ps_policy child = cp" using parenting_reach_ok [OF child(1)] by simp
  let ?key = "primary_key (rq_child request)"
  from begin_primary_fresh [OF okc begun kind free] obtain gen e where
    b: "checked_add t0 (pp_max_age_ticks cp) = Some e"
      "ticket = pending_ticket ?key (new_relation owner request gen e RelPending)"
      "bmap_get (ps_records child1) ?key = Some (new_relation owner request gen e RelPending)"
      "ps_last_now child1 = Some t0" "request_for_child child owner request"
    unfolding cp by metis
  from accept_primary_result [OF okp kind accepted] obtain g e1 r where
    a: "response = Accepted request g" "bmap_get (ps_records parent1) ?key = Some r"
      "accepted_primary owner' request g e1 r" by metis
  have "keeps_table 1 child (child1, Inr ticket)" using begin_child_attach_keeps [OF okc child(2)] begun by metis
  note okc1 = keeps_tableD [OF this]
  have "keeps_table 1 parent (parent1, Inr response)" using accept_request_keeps [OF okp parent(2)] accepted by metis
  then have "parenting_ok parent1" by (rule keeps_tableD(1))
  then have "relation_ok (ps_policy parent1) (ps_next_relation_generation parent1) ?key r"
    using a(2) unfolding parenting_ok_def by blast
  then have g: "g \<noteq> 0" "g < ps_next_relation_generation parent1"
    using a(3) by (auto simp: relation_ok_def accepted_primary_def)
  then have "unat g + 1 \<le> unat (ps_next_relation_generation parent1)" by (simp add: word_less_nat_alt)
  then have "unat g + 1 < 2 ^ 64" by (rule le_less_trans) simp
  then obtain nxt where nxt: "checked_add g 1 = Some nxt" by (auto simp: checked_add_def)
  have req1: "request_for_child child1 owner request"
    using b(5) request_for_child_policy [OF okc1(2)] by simp
  have until: "checked_add t2 (pp_max_age_ticks (ps_policy child1)) = Some until"
    using time(4) okc1(2) cp by simp
  have "t2 < e" using time(2,3) b(1) by simp
  from adopt_primary [OF okc1(1) req1 kind refl refl b(3,4) time(1) this until g(1) nxt]
  obtain child2 where c2: "adopt_response owner ticket response t2 child1 = (child2, Inr AdoptionAccepted)"
      "ps_policy child2 = ps_policy child1" "ps_last_now child2 = Some t2"
      "bmap_get (ps_records child2) ?key = Some ((new_relation owner request gen e RelPending)
        \<lparr>rl_relation_generation := g, rl_expires_at := until, rl_state := RelPrimary\<rparr>)"
    using b(2) a(1) by blast
  have "rq_child request = pp_local (ps_policy child2)"
    using req1 c2(2) by (simp add: request_for_child_def)
  from primary_parent_live [of child2, folded this, OF c2(4) _ c2(3)] show ?thesis
    using a c2(1) kind
    by (auto simp: accepted_primary_def take_snapshot_def new_relation_def primary_key_def)
qed

theorem attach_handshake_witness:
  "\<exists>g child2 r. projr (snd sample_accepted) = Accepted hub_request g \<and>
     adopt_response (sample_owner [1]) (projr (snd sample_begun)) (projr (snd sample_accepted)) 5
       (fst sample_begun) = (child2, Inr AdoptionAccepted) \<and>
     bmap_get (ps_records (fst sample_accepted)) (primary_key [2]) = Some r \<and> rl_relation_generation r = g \<and>
     snd (primary_parent_at_now 6 child2) =
       Inr (Some \<lparr>sn_child = [2], sn_parent = [1], sn_owner = [7], sn_owner_epoch = 1,
         sn_kind = KindPrimary, sn_relation_generation = g\<rparr>)"
proof -
  have "rq_kind hub_request = KindPrimary" "rq_child hub_request = [2]" "rq_parent hub_request = [1]"
    by (simp_all add: sample_request_def)
  moreover have "bmap_get (ps_records (sample_table hub_policy)) (primary_key (rq_child hub_request)) = None"
    by (simp add: parenting_eval)
  moreover have "checked_add 3 (pp_max_age_ticks hub_policy) = Some 13"
      "checked_add 5 (pp_max_age_ticks hub_policy) = Some 15"
    by (simp_all add: checked_add_def sample_policy_def)
  ultimately show ?thesis
    using attach_handshake [OF sample_table_reach(2) sample_table_room(2) sample_table_reach(1)
        sample_table_room(1) _ _ sample_begun_Inr sample_accepted_Inr, of 5 13 15 6]
    by (simp add: sample_owner_def) blast
qed

text \<open>Accepting a request again while its relation is live renews it: the parent answers with the
  same generation, adds no record, and needs nothing of the resource scope.\<close>

theorem accept_again:
  assumes "parenting_reach p st" "ps_record_count st + 1 < 2 ^ 64" "rq_kind request = KindPrimary"
    and run: "accept_request owner request t refused st = (st1, Inr response)"
    and time: "t \<le> t'" "checked_add t (pp_max_age_ticks p) = Some e" "t' < e"
      "checked_add t' (pp_max_age_ticks p) = Some e'"
  shows "\<exists>st2 r. accept_request owner request t' refused' st1 = (st2, Inr response) \<and>
    ps_record_count st2 \<le> ps_record_count st1 \<and>
    bmap_get (ps_records st2) (primary_key (rq_child request)) = Some r \<and> rl_expires_at r = e'"
proof -
  let ?key = "primary_key (rq_child request)"
  have ok: "parenting_ok st" and p: "ps_policy st = p" using parenting_reach_ok [OF assms(1)] by auto
  from accept_primary_result [OF ok assms(3) run] obtain g r where
    a: "response = Accepted request g" "request_for_parent st owner request" "ps_last_now st1 = Some t"
      "ps_policy st1 = p" "bmap_get (ps_records st1) ?key = Some r" "accepted_primary owner request g e r"
    using time(2) p by (metis option.inject)
  have "keeps_table 1 st (st1, Inr response)" using accept_request_keeps [OF ok assms(2)] run by metis
  then have ok1: "parenting_ok st1" by (rule keeps_tableD(1))
  have req1: "request_for_parent st1 owner request"
    using a(2,4) p request_for_parent_policy [of st1 st] by simp
  show ?thesis
  proof (cases rule: accept_request_cases [of owner request t' refused' st1])
    case placed
    from ok1 show ?thesis
    proof (cases rule: timed_call [where clock = t' and body = "accept_in_slot owner request refused'"])
      case regressed
      then show ?thesis using a(3) time(1) by auto
    next
      case (runs st2)
      have live: "bmap_get (ps_records st2) ?key = Some r"
        using prunes_get(2) [OF runs(3), of ?key r] a(5,6) time(3) by (simp add: accepted_primary_def)
      have "relation_expiry st2 t' = Inr e'"
        using runs(3) a(4) time(4) by (simp add: relation_expiry_def prunes_def only_records_def)
      then have "accept_in_slot owner request refused' t' st2 = renew_accepted ?key request e' r st2"
        using live a(6) assms(3) not_le [THEN iffD2, OF time(3)]
        by (simp add: accept_in_slot_def accept_at_key_def expire_key_if_needed_def key_expired_def
            accepted_primary_def)
      moreover have "bmap_wf (ps_records st2)" using runs(2) by (simp add: parenting_ok_def)
      ultimately show ?thesis
        using a(1,6) placed(2) runs(1,4) by (simp add: renew_accepted_def accepted_primary_def)
    qed
  qed (use req1 in simp)
qed

theorem accept_again_witness:
  "\<exists>st2 r. accept_request (sample_owner [2]) hub_request 5 (Some (UnknownScope 0)) (fst sample_accepted) =
       (st2, Inr (projr (snd sample_accepted))) \<and>
     ps_record_count st2 \<le> ps_record_count (fst sample_accepted) \<and>
     bmap_get (ps_records st2) (primary_key [2]) = Some r \<and> rl_expires_at r = 15"
proof -
  have "rq_kind hub_request = KindPrimary" "rq_child hub_request = [2]" by (simp_all add: sample_request_def)
  moreover have "checked_add 3 (pp_max_age_ticks root_policy) = Some 13"
      "checked_add 5 (pp_max_age_ticks root_policy) = Some 15"
    by (simp_all add: checked_add_def sample_policy_def)
  ultimately show ?thesis
    using accept_again [OF sample_table_reach(1) sample_table_room(1) _ sample_accepted_Inr, of 5 13 15]
    by simp
qed

text \<open>C24: retiring an owner removes exactly the relations it holds, reports how many they were, and
  leaves no live relation of that owner.\<close>

theorem retire_owner_exact:
  assumes "parenting_reach p st"
  shows "\<exists>st'. retire_owner owner st =
      (st', Inr (length (filter (\<lambda>(k, r). rl_owner r = owner) (ps_records st)))) \<and>
    ps_records st' = filter (\<lambda>(k, r). rl_owner r \<noteq> owner) (ps_records st) \<and>
    snd (has_live_owner owner clock st') \<noteq> Inr True"
proof -
  have "parenting_ok st" using parenting_reach_ok [OF assms] by simp
  from remove_matching_exact [OF this, of "\<lambda>_ r. rl_owner r = owner"] obtain st' where
    st': "retire_owner owner st = (st', Inr (length (filter (\<lambda>(k, r). rl_owner r = owner) (ps_records st))))"
      "ps_records st' = filter (\<lambda>(k, r). rl_owner r \<noteq> owner) (ps_records st)"
    unfolding retire_owner_def rel_count_def by blast
  have "\<not> live_owner_loop owner now (ps_records st') n cursor" for now n cursor
    using live_owner_loop_owner [of owner now "ps_records st'" n cursor] st'(2) by auto
  then have "snd (has_live_owner owner clock st') \<noteq> Inr True"
    by (simp add: has_live_owner_def parenting_now_def)
  then show ?thesis using st' by blast
qed

theorem retire_owner_exact_witness:
  "\<exists>st'. retire_owner (sample_owner [2]) (fst sample_accepted) = (st', Inr 1) \<and> ps_records st' = [] \<and>
     snd (has_live_owner (sample_owner [2]) 4 st') \<noteq> Inr True"
  using retire_owner_exact [OF sample_accepted_reach, of "sample_owner [2]" 4]
  by (simp add: sample_accepted_def parenting_eval)

end
