(* ===== verification/Parenting_Bound.thy ===== *)
theory Parenting_Bound
  imports Parenting_Calls
begin

text \<open>
  How many records a parenting table holds: the bound that follows from the invariant, and the
  difference from the number that \<open>relation_bound\<close> of \<open>engine/parenting.rs\<close> plans for.
\<close>

lemma slot_matches_bound:
  assumes "slot_matches p kind slot"
  shows "unat slot \<le> pp_max_backups p"
proof (cases "slot = 0")
  case False
  then have "unat (slot - 1) < pp_max_backups p"
    using assms by (cases kind) (simp_all add: slot_matches_def)
  then show ?thesis unfolding unat_minus_one [OF False] by linarith
qed simp

lemma own_slots:
  assumes ok: "parenting_ok st"
  shows "rel_count (\<lambda>k _. fst k = pp_local (ps_policy st)) (ps_records st) \<le> pp_max_backups (ps_policy st) + 1"
proof -
  let ?own = "filter (\<lambda>(k, r). fst k = pp_local (ps_policy st)) (ps_records st)"
  let ?slots = "map (\<lambda>e. unat (snd (fst e))) ?own"
  have wf: "bmap_wf (ps_records st)" using ok by (simp add: parenting_ok_def)
  have "set ?slots \<subseteq> {..pp_max_backups (ps_policy st)}"
  proof
    fix n assume "n \<in> set ?slots"
    then obtain k r where r: "(k, r) \<in> set (ps_records st)" "n = unat (snd k)" by fastforce
    then have "relation_ok (ps_policy st) (ps_next_relation_generation st) k r"
      using ok bmap_get_eq_Some_iff [OF wf, of k r] unfolding parenting_ok_def by blast
    then have "slot_matches (ps_policy st) (rl_kind r) (snd k)" by (simp add: relation_ok_def)
    then show "n \<in> {..pp_max_backups (ps_policy st)}" using slot_matches_bound r(2) by simp
  qed
  then have le: "card (set ?slots) \<le> pp_max_backups (ps_policy st) + 1"
    using card_mono [of "{..pp_max_backups (ps_policy st)}" "set ?slots"] by simp
  have "distinct ?own" using bmap_wf_distinct_keys [OF wf] by (simp add: distinct_map)
  moreover have "inj_on (\<lambda>e. unat (snd (fst e))) (set ?own)"
  proof (rule inj_onI)
    fix e e' assume e: "e \<in> set ?own" "e' \<in> set ?own" "unat (snd (fst e)) = unat (snd (fst e'))"
    then have "fst e = fst e'" by (auto simp: prod_eq_iff word_unat_eq_iff)
    then show "e = e'" using e(1,2) bmap_wf_distinct_keys [OF wf] by (auto simp: distinct_map dest: inj_onD)
  qed
  ultimately have "distinct ?slots" by (simp add: distinct_map)
  then have "length ?own = card (set ?slots)" using distinct_card [of ?slots] by simp
  then show ?thesis using le by (simp add: rel_count_def)
qed

lemma rel_count_split:
  assumes "\<And>k r. (k, r) \<in> set m \<Longrightarrow> Q k r \<or> Q' k r \<or> Q'' k r"
  shows "length m \<le> rel_count Q m + rel_count Q' m + rel_count Q'' m"
  using assms by (induction m) (fastforce simp: rel_count_def)+

text \<open>C25: a table holds at most its children with their backups, and one parent with its own
  backups: \<open>max_children * (max_backups + 1) + (max_backups + 1)\<close> records.\<close>

theorem parenting_record_bound:
  assumes "parenting_reach p st"
  shows "ps_record_count st \<le> (pp_max_children p + 1) * (pp_max_backups p + 1)"
proof -
  have ok: "parenting_ok st" and p: "ps_policy st = p" using parenting_reach_ok [OF assms] by auto
  let ?child = "is_child_in (pp_local p)"
  have "?child RelPrimary k r \<or> ?child RelBackup k r \<or> fst k = pp_local p" if "(k, r) \<in> set (ps_records st)" for k r
  proof -
    have "relation_ok p (ps_next_relation_generation st) k r"
      using ok p that bmap_get_eq_Some_iff [of "ps_records st" k r] unfolding parenting_ok_def by blast
    then show ?thesis by (auto simp: relation_ok_def is_child_in_def kind_state_def split: if_splits relation_kind.splits)
  qed
  then have "length (ps_records st) \<le> rel_count (?child RelPrimary) (ps_records st) +
      rel_count (?child RelBackup) (ps_records st) + rel_count (\<lambda>k _. fst k = pp_local p) (ps_records st)"
    by (rule rel_count_split)
  also have "\<dots> \<le> pp_max_children p + pp_max_children p * pp_max_backups p + (pp_max_backups p + 1)"
    using ok p own_slots [OF ok] by (intro add_mono) (simp_all add: parenting_ok_def)
  finally show ?thesis using parenting_ok_count [OF ok] by (simp add: algebra_simps)
qed

theorem parenting_record_bound_witness: "ps_record_count (fst sample_accepted) \<le> (2 + 1) * (1 + 1)"
  using parenting_record_bound [OF sample_accepted_reach] by (simp add: sample_policy_def)

abbreviation leaf_policy :: parenting_policy where "leaf_policy \<equiv> sample_policy [3] Leaf 0 2"

definition sample_attach :: "u64 \<Rightarrow> relation_kind \<Rightarrow> device_key \<Rightarrow> parenting_state \<Rightarrow> parenting_state" where
  "sample_attach sequence kind hub st =
     fst (and_then (begin_child_attach (sample_owner hub) (sample_request sequence [3] Leaf hub (Hub 1) kind) 1 None st)
       (\<lambda>st ticket. adopt_response (sample_owner hub) ticket
          (Accepted (sample_request sequence [3] Leaf hub (Hub 1) kind) 1) 1 st))"

lemma sample_attach_reach:
  assumes reach: "parenting_reach p st" and room: "ps_record_count st + 2 < 2 ^ 64"
  shows "parenting_reach p (sample_attach sequence kind hub st)"
proof -
  let ?request = "sample_request sequence [3] Leaf hub (Hub 1) kind"
  obtain st1 r where begun: "begin_child_attach (sample_owner hub) ?request 1 None st = (st1, r)" by fastforce
  have reach1: "parenting_reach p st1"
    using reach_call [OF reach, of "CallBegin (sample_owner hub) ?request 1 None"] room begun by (simp add: outcome_def)
  have "keeps_table 1 st (st1, r)"
    using begin_child_attach_keeps [OF parenting_reach_ok [OF reach, THEN conjunct1], of "sample_owner hub" ?request 1 None]
      room begun by simp
  from keeps_tableD(3) [OF this] room have room1: "ps_record_count st1 + 1 < 2 ^ 64" by simp
  show ?thesis
  proof (cases r)
    case (Inr ticket)
    then show ?thesis
      using reach_call [OF reach1 room1, of "CallAdopt (sample_owner hub) ticket (Accepted ?request 1) 1"] begun
      by (simp add: sample_attach_def outcome_def)
  qed (simp add: sample_attach_def begun reach1)
qed

text \<open>C26: \<open>relation_bound\<close> counts the children with their backups, one pending attach and one parent,
  but not the backup parents of a device that is a child: some reachable table holds more records
  than its policy plans for.\<close>

theorem relation_bound_exceeded:
  "\<exists>p st b. parenting_reach p st \<and> relation_bound p = Inr b \<and> b < ps_record_count st"
proof -
  define s0 where "s0 = sample_table leaf_policy"
  define s1 where "s1 = sample_attach 1 KindPrimary [4] s0"
  define s2 where "s2 = sample_attach 2 KindBackup [5] s1"
  define s3 where "s3 = sample_attach 3 KindBackup [6] s2"
  have counts: "ps_record_count s0 = 0" "ps_record_count s1 = 1" "ps_record_count s2 = 2" "ps_record_count s3 = 3"
    by (simp_all add: s0_def s1_def s2_def s3_def parenting_eval sample_attach_def word_le_nat_alt word_less_nat_alt)
  have "parenting_reach leaf_policy s0" by (rule reach_new) (simp add: s0_def parenting_eval)
  then have "parenting_reach leaf_policy s1" unfolding s1_def by (rule sample_attach_reach) (simp add: counts)
  then have "parenting_reach leaf_policy s2" unfolding s2_def by (rule sample_attach_reach) (simp add: counts)
  then have "parenting_reach leaf_policy s3" unfolding s3_def by (rule sample_attach_reach) (simp add: counts)
  moreover have "relation_bound leaf_policy = Inr 2" by (simp add: parenting_eval)
  moreover have "2 < ps_record_count s3" using counts(4) by simp
  ultimately show ?thesis by blast
qed

end
