(* ===== verification/Leased_Queue.thy ===== *)
theory Leased_Queue
  imports Resource_Claims Funded_Store
begin

text \<open>
  The leased queue (\<open>resource/queue.rs\<close>): a first-in first-out queue in which every entry is one
  allocation paid for by one lease. It is held as two chains, \<open>oldest\<close> in reading order and \<open>newest\<close>
  in reverse, which operations merge when they need the whole order. A chain of \<open>Option<FundedNode>\<close>
  links is the list of its nodes with their leases; the lease type is a parameter. Panics are the
  value \<open>None\<close>, and every node that leaves the queue is part of the result, so that the leases an
  operation gives back are visible. The lemmas show that the two chains refine a plain list, that no
  operation panics, and that every lease leaves the queue exactly once.
\<close>

section \<open>The queue\<close>

record ('a, 'l) funded_node =
  fn_value :: 'a
  fn_entry :: 'l

type_synonym ('a, 'l) chain = "('a, 'l) funded_node list"

record ('a, 'l) leased_queue =
  lq_oldest :: "('a, 'l) chain"
  lq_newest :: "('a, 'l) chain"
  lq_len :: nat

type_synonym 'a may_panic = "'a option"

definition lq_new :: "('a, 'l) leased_queue" where
  "lq_new = \<lparr>lq_oldest = [], lq_newest = [], lq_len = 0\<rparr>"

definition lq_entry_claim :: "nat \<Rightarrow> claim_error + resource_claim" where
  "lq_entry_claim node_size =
     (if node_size < 2 ^ 64
      then try_from_entries [(AccountedMemoryBytes, word_of_nat node_size), (OpaqueDependencyResidual, 1)]
      else Inl (Overflow AccountedMemoryBytes))"

fun reverse_onto :: "('a, 'l) chain \<Rightarrow> ('a, 'l) chain \<Rightarrow> ('a, 'l) chain" where
  "reverse_onto [] acc = acc"
| "reverse_onto (node # cursor) acc = reverse_onto cursor (node # acc)"

definition expose_front :: "('a, 'l) leased_queue \<Rightarrow> ('a, 'l) leased_queue" where
  "expose_front q =
     (if lq_oldest q = [] then q\<lparr>lq_oldest := reverse_onto (lq_newest q) [], lq_newest := []\<rparr> else q)"

definition lq_merge :: "('a, 'l) leased_queue \<Rightarrow> ('a, 'l) leased_queue" where
  "lq_merge q =
     (if lq_newest q = [] then q
      else let reversed_oldest = reverse_onto (lq_oldest q) [];
               ordered = reverse_onto (lq_newest q) []
           in q\<lparr>lq_oldest := reverse_onto reversed_oldest ordered, lq_newest := []\<rparr>)"

definition lq_push :: "'a \<Rightarrow> 'l \<Rightarrow> ('a, 'l) leased_queue \<Rightarrow> ('a, 'l) leased_queue may_panic" where
  "lq_push value entry q =
     (if lq_len q + 1 < 2 ^ 64
      then Some (q\<lparr>lq_newest := \<lparr>fn_value = value, fn_entry = entry\<rparr> # lq_newest q, lq_len := lq_len q + 1\<rparr>)
      else None)"

definition lq_front :: "('a, 'l) leased_queue \<Rightarrow> ('a, 'l) leased_queue \<times> 'a option" where
  "lq_front q =
     (let q = expose_front q in
      (q, case lq_oldest q of [] \<Rightarrow> None | node # _ \<Rightarrow> Some (fn_value node)))"

definition into_value :: "('a, 'l) funded_node \<Rightarrow> 'a \<times> 'l" where
  "into_value node = (fn_value node, fn_entry node)"

definition lq_pop_front :: "('a, 'l) leased_queue \<Rightarrow> (('a, 'l) leased_queue \<times> ('a \<times> 'l) option) may_panic" where
  "lq_pop_front q =
     (let q = expose_front q in
      case lq_oldest q of
        [] \<Rightarrow> Some (q, None)
      | node # next \<Rightarrow>
          if lq_len q = 0 then None
          else Some (q\<lparr>lq_oldest := next, lq_len := lq_len q - 1\<rparr>, Some (into_value node)))"

definition lq_pop_front_owned ::
    "('a, 'l) leased_queue \<Rightarrow> (('a, 'l) leased_queue \<times> ('a, 'l) funded_node option) may_panic" where
  "lq_pop_front_owned q =
     (let q = expose_front q in
      case lq_oldest q of
        [] \<Rightarrow> Some (q, None)
      | node # next \<Rightarrow>
          if lq_len q = 0 then None
          else Some (q\<lparr>lq_oldest := next, lq_len := lq_len q - 1\<rparr>, Some node))"

fun pop_tail :: "('a, 'l) chain \<Rightarrow> ('a, 'l) chain \<times> ('a, 'l) funded_node option" where
  "pop_tail [] = ([], None)"
| "pop_tail (node # next) =
     (if next = [] then ([], Some node)
      else case pop_tail next of (next, tail) \<Rightarrow> (node # next, tail))"

definition lq_pop_back :: "('a, 'l) leased_queue \<Rightarrow> (('a, 'l) leased_queue \<times> ('a \<times> 'l) option) may_panic" where
  "lq_pop_back q =
     (let q = lq_merge q in
      case pop_tail (lq_oldest q) of
        (chain, None) \<Rightarrow> Some (q, None)
      | (chain, Some node) \<Rightarrow>
          if lq_len q = 0 then None
          else Some (q\<lparr>lq_oldest := chain, lq_len := lq_len q - 1\<rparr>, Some (into_value node)))"

definition lq_iter :: "('a, 'l) leased_queue \<Rightarrow> ('a, 'l) leased_queue \<times> 'a list" where
  "lq_iter q = (let q = lq_merge q in (q, map fn_value (lq_oldest q)))"

text \<open>
  The mutating walk hands out one entry after the other. The visitor answers the entry as it leaves
  it and whether it asks for the next one.
\<close>

fun walk_mut :: "('a \<Rightarrow> 'a \<times> bool) \<Rightarrow> ('a, 'l) chain \<Rightarrow> ('a, 'l) chain" where
  "walk_mut visit [] = []"
| "walk_mut visit (node # next) =
     (case visit (fn_value node) of
        (value, go_on) \<Rightarrow> node\<lparr>fn_value := value\<rparr> # (if go_on then walk_mut visit next else next))"

definition lq_iter_mut :: "('a \<Rightarrow> 'a \<times> bool) \<Rightarrow> ('a, 'l) leased_queue \<Rightarrow> ('a, 'l) leased_queue" where
  "lq_iter_mut visit q = (let q = lq_merge q in q\<lparr>lq_oldest := walk_mut visit (lq_oldest q)\<rparr>)"

fun retain_loop ::
    "('a \<Rightarrow> bool) \<Rightarrow> ('a, 'l) chain \<Rightarrow> ('a, 'l) chain \<Rightarrow> nat \<Rightarrow> ('a, 'l) chain \<times> nat \<times> ('a, 'l) chain" where
  "retain_loop keep [] kept len = (kept, len, [])"
| "retain_loop keep (node # cursor) kept len =
     (if keep (fn_value node) then retain_loop keep cursor (node # kept) (len + 1)
      else case retain_loop keep cursor kept len of (kept, len, dropped) \<Rightarrow> (kept, len, node # dropped))"

definition lq_retain :: "('a \<Rightarrow> bool) \<Rightarrow> ('a, 'l) leased_queue \<Rightarrow> ('a, 'l) leased_queue \<times> ('a, 'l) chain" where
  "lq_retain keep q =
     (let q = lq_merge q in
      case retain_loop keep (lq_oldest q) [] 0 of
        (kept, len, dropped) \<Rightarrow> (q\<lparr>lq_oldest := reverse_onto kept [], lq_len := len\<rparr>, dropped))"

definition lq_is_empty :: "('a, 'l) leased_queue \<Rightarrow> bool" where
  "lq_is_empty q \<longleftrightarrow> lq_len q = 0"

fun lq_drop_loop :: "('a, 'l) chain \<Rightarrow> ('a, 'l) chain" where
  "lq_drop_loop [] = []"
| "lq_drop_loop (node # cursor) = node # lq_drop_loop cursor"

definition lq_drop :: "('a, 'l) leased_queue \<Rightarrow> ('a, 'l) chain" where
  "lq_drop q = lq_drop_loop (lq_oldest (lq_merge q))"

section \<open>The queue as a list\<close>

definition lq_list :: "('a, 'l) leased_queue \<Rightarrow> ('a, 'l) chain" where
  "lq_list q = lq_oldest q @ rev (lq_newest q)"

definition lq_ok :: "('a, 'l) leased_queue \<Rightarrow> bool" where
  "lq_ok q \<longleftrightarrow> lq_len q = length (lq_list q) \<and> lq_len q < 2 ^ 64"

lemma reverse_onto_rev [simp]: "reverse_onto chain acc = rev chain @ acc"
  by (induction chain acc rule: reverse_onto.induct) simp_all

lemma lq_merge_list [simp]:
  "lq_oldest (lq_merge q) = lq_list q" "lq_newest (lq_merge q) = []" "lq_len (lq_merge q) = lq_len q"
  by (simp_all add: lq_merge_def lq_list_def)

lemma lq_list_merge [simp]: "lq_list (lq_merge q) = lq_list q" "lq_ok (lq_merge q) = lq_ok q"
  by (simp_all add: lq_list_def [of "lq_merge q"] lq_ok_def)

lemma lq_list_update [simp]:
  "lq_newest q = [] \<Longrightarrow> lq_list (q\<lparr>lq_oldest := xs, lq_len := n\<rparr>) = xs"
  "lq_newest q = [] \<Longrightarrow> lq_list (q\<lparr>lq_oldest := xs\<rparr>) = xs"
  by (simp_all add: lq_list_def)

lemma expose_front_list: "lq_list (expose_front q) = lq_list q" "lq_len (expose_front q) = lq_len q"
  "lq_oldest (expose_front q) = [] \<longleftrightarrow> lq_list q = []" "lq_ok (expose_front q) = lq_ok q"
  by (auto simp: expose_front_def lq_list_def lq_ok_def)

lemma pop_tail_last:
  "pop_tail xs = (butlast xs, if xs = [] then None else Some (last xs))"
  by (induction xs) auto

lemma retain_loop_filter:
  "retain_loop keep xs kept len =
   (rev (filter (keep \<circ> fn_value) xs) @ kept, len + length (filter (keep \<circ> fn_value) xs),
    filter (Not \<circ> keep \<circ> fn_value) xs)"
  by (induction xs arbitrary: kept len) auto

lemma lq_drop_loop_id [simp]: "lq_drop_loop xs = xs"
  by (induction xs) simp_all

lemma lq_drop_list [simp]: "lq_drop q = lq_list q"
  by (simp add: lq_drop_def)

lemma length_walk_mut [simp]: "length (walk_mut visit xs) = length xs"
  by (induction xs) (auto split: prod.splits)

lemma walk_mut_entries: "map fn_entry (walk_mut visit xs) = map fn_entry xs"
  by (induction xs) (auto split: prod.splits)

lemma walk_mut_leases: "image_mset fn_entry (mset (walk_mut visit xs)) = image_mset fn_entry (mset xs)"
  using arg_cong [OF walk_mut_entries [of visit xs], of mset] by simp

lemma lq_new_list [simp]: "lq_list lq_new = []" "lq_ok lq_new"
  by (simp_all add: lq_new_def lq_list_def lq_ok_def)

lemma lq_push_list:
  assumes "lq_ok q" "length (lq_list q) + 1 < 2 ^ 64"
  obtains q' where "lq_push value entry q = Some q'" "lq_ok q'"
    "lq_list q' = lq_list q @ [\<lparr>fn_value = value, fn_entry = entry\<rparr>]"
  using assms that by (force simp: lq_push_def lq_ok_def lq_list_def)

lemma lq_front_list:
  obtains q' where "lq_front q = (q', map_option fn_value (if lq_list q = [] then None else Some (hd (lq_list q))))"
    "lq_list q' = lq_list q" "lq_ok q' = lq_ok q"
proof -
  have "lq_oldest (expose_front q) \<noteq> [] \<Longrightarrow> hd (lq_list q) = hd (lq_oldest (expose_front q))"
    by (subst expose_front_list(1) [symmetric]) (simp add: lq_list_def hd_append)
  then show ?thesis
    using that [of "expose_front q"] expose_front_list [of q]
    by (cases "lq_oldest (expose_front q)") (auto simp: lq_front_def Let_def)
qed

lemma lq_pop_front_owned_list:
  assumes "lq_ok q"
  obtains q' where "lq_pop_front_owned q = Some (q', if lq_list q = [] then None else Some (hd (lq_list q)))"
    "lq_ok q'" "lq_list q' = tl (lq_list q)"
proof (cases "lq_oldest (expose_front q)")
  case Nil
  then show ?thesis using that [of "expose_front q"] expose_front_list [of q] assms
    by (auto simp: lq_pop_front_owned_def Let_def)
next
  case (Cons node rest)
  then have l: "lq_list q = node # rest @ rev (lq_newest (expose_front q))"
    by (subst expose_front_list(1) [symmetric]) (simp add: lq_list_def)
  then show ?thesis
    using that [of "(expose_front q)\<lparr>lq_oldest := rest, lq_len := lq_len q - 1\<rparr>"] Cons assms expose_front_list [of q]
    by (auto simp: lq_pop_front_owned_def lq_ok_def Let_def lq_list_def [of "(expose_front q)\<lparr>lq_oldest := rest, lq_len := _\<rparr>"])
qed

lemma lq_pop_front_owned_eq:
  "lq_pop_front q = map_option (\<lambda>(q', node). (q', map_option into_value node)) (lq_pop_front_owned q)"
  by (auto simp: lq_pop_front_def lq_pop_front_owned_def Let_def split: list.splits)

lemma lq_pop_front_list:
  assumes "lq_ok q"
  obtains q' where
    "lq_pop_front q = Some (q', if lq_list q = [] then None else Some (into_value (hd (lq_list q))))"
    "lq_ok q'" "lq_list q' = tl (lq_list q)"
proof -
  obtain q' where "lq_pop_front_owned q = Some (q', if lq_list q = [] then None else Some (hd (lq_list q)))"
      "lq_ok q'" "lq_list q' = tl (lq_list q)"
    by (rule lq_pop_front_owned_list [OF assms])
  then show ?thesis using that [of q'] by (simp add: lq_pop_front_owned_eq)
qed

lemma lq_pop_back_list:
  assumes "lq_ok q"
  obtains q' where
    "lq_pop_back q = Some (q', if lq_list q = [] then None else Some (into_value (last (lq_list q))))"
    "lq_ok q'" "lq_list q' = butlast (lq_list q)"
proof (cases "lq_list q = []")
  case True
  then show ?thesis using that [of "lq_merge q"] assms by (simp add: lq_pop_back_def pop_tail_last)
next
  case False
  then show ?thesis
    using that [of "(lq_merge q)\<lparr>lq_oldest := butlast (lq_list q), lq_len := lq_len q - 1\<rparr>"] assms
    by (auto simp: lq_pop_back_def pop_tail_last lq_ok_def)
qed

lemma lq_iter_list: "lq_iter q = (lq_merge q, map fn_value (lq_list q))"
  by (simp add: lq_iter_def Let_def)

lemma lq_iter_mut_list [simp]:
  "lq_list (lq_iter_mut visit q) = walk_mut visit (lq_list q)" "lq_ok (lq_iter_mut visit q) = lq_ok q"
  by (simp_all add: lq_iter_mut_def Let_def lq_ok_def)

lemma lq_retain_list:
  assumes "lq_ok q"
  obtains q' where "lq_retain keep q = (q', filter (Not \<circ> keep \<circ> fn_value) (lq_list q))"
    "lq_ok q'" "lq_list q' = filter (keep \<circ> fn_value) (lq_list q)"
proof -
  have "length (filter (keep \<circ> fn_value) (lq_list q)) \<le> length (lq_list q)" by (rule length_filter_le)
  then have "length (filter (keep \<circ> fn_value) (lq_list q)) < 2 ^ 64" using assms unfolding lq_ok_def by linarith
  then show ?thesis
    using that [of "(lq_merge q)\<lparr>lq_oldest := filter (keep \<circ> fn_value) (lq_list q),
        lq_len := length (filter (keep \<circ> fn_value) (lq_list q))\<rparr>"]
    by (simp add: lq_retain_def Let_def retain_loop_filter lq_ok_def)
qed

section \<open>Sequences of operations\<close>

datatype ('a, 'l) lq_op =
  OpPush 'a 'l
| OpFront
| OpPopFront
| OpPopFrontOwned
| OpPopBack
| OpIter
| OpIterMut "'a \<Rightarrow> 'a \<times> bool"
| OpRetain "'a \<Rightarrow> bool"

text \<open>An operation answers the values it shows and the nodes that leave the queue, with their leases.\<close>

type_synonym ('a, 'l) lq_answer = "'a list \<times> ('a, 'l) chain"

fun node_of :: "'a \<times> 'l \<Rightarrow> ('a, 'l) funded_node" where
  "node_of (value, entry) = \<lparr>fn_value = value, fn_entry = entry\<rparr>"

definition leaving :: "('a, 'l) leased_queue \<times> ('a, 'l) funded_node option \<Rightarrow> ('a, 'l) leased_queue \<times> ('a, 'l) lq_answer" where
  "leaving = (\<lambda>(q, node). (q, [], case node of None \<Rightarrow> [] | Some n \<Rightarrow> [n]))"

fun lq_step :: "('a, 'l) lq_op \<Rightarrow> ('a, 'l) leased_queue \<Rightarrow> (('a, 'l) leased_queue \<times> ('a, 'l) lq_answer) option" where
  "lq_step (OpPush value entry) q = map_option (\<lambda>q. (q, [], [])) (lq_push value entry q)"
| "lq_step OpFront q = (case lq_front q of (q, v) \<Rightarrow> Some (q, case v of None \<Rightarrow> [] | Some a \<Rightarrow> [a], []))"
| "lq_step OpPopFront q = map_option (\<lambda>(q, r). leaving (q, map_option node_of r)) (lq_pop_front q)"
| "lq_step OpPopFrontOwned q = map_option leaving (lq_pop_front_owned q)"
| "lq_step OpPopBack q = map_option (\<lambda>(q, r). leaving (q, map_option node_of r)) (lq_pop_back q)"
| "lq_step OpIter q = (case lq_iter q of (q, vs) \<Rightarrow> Some (q, vs, []))"
| "lq_step (OpIterMut visit) q = Some (lq_iter_mut visit q, [], [])"
| "lq_step (OpRetain keep) q = (case lq_retain keep q of (q, dropped) \<Rightarrow> Some (q, [], dropped))"

text \<open>The specification: the same operations on a list of entries, oldest first.\<close>

fun list_step :: "('a, 'l) lq_op \<Rightarrow> ('a, 'l) chain \<Rightarrow> ('a, 'l) chain \<times> ('a, 'l) lq_answer" where
  "list_step (OpPush value entry) xs = (xs @ [node_of (value, entry)], [], [])"
| "list_step OpFront xs = (xs, map fn_value (take 1 xs), [])"
| "list_step OpPopFront xs = (tl xs, [], take 1 xs)"
| "list_step OpPopFrontOwned xs = (tl xs, [], take 1 xs)"
| "list_step OpPopBack xs = (butlast xs, [], if xs = [] then [] else [last xs])"
| "list_step OpIter xs = (xs, map fn_value xs, [])"
| "list_step (OpIterMut visit) xs = (walk_mut visit xs, [], [])"
| "list_step (OpRetain keep) xs =
     ([x \<leftarrow> xs. keep (fn_value x)], [], [x \<leftarrow> xs. \<not> keep (fn_value x)])"

fun lq_supplied :: "('a, 'l) lq_op \<Rightarrow> 'l multiset" where
  "lq_supplied (OpPush value entry) = {#entry#}"
| "lq_supplied _ = {#}"

definition lq_leases :: "('a, 'l) leased_queue \<Rightarrow> 'l multiset" where
  "lq_leases q = mset (map fn_entry (lq_list q))"

definition lq_freed :: "('a, 'l) lq_answer \<Rightarrow> 'l multiset" where
  "lq_freed answer = mset (map fn_entry (snd answer))"

lemma node_of_into_value [simp]: "node_of (into_value node) = node"
  by (simp add: into_value_def)

lemma lq_step_list:
  assumes "lq_ok q" "size (lq_leases q) + size (lq_supplied op) < 2 ^ 64"
  obtains q' answer where "lq_step op q = Some (q', answer)" "lq_ok q'" "list_step op (lq_list q) = (lq_list q', answer)"
proof (cases op)
  case (OpPush v l)
  then have "length (lq_list q) + 1 < 2 ^ 64" using assms(2) by (simp add: lq_leases_def)
  from lq_push_list [OF assms(1) this] obtain q' where "lq_push v l q = Some q'" "lq_ok q'"
      "lq_list q' = lq_list q @ [\<lparr>fn_value = v, fn_entry = l\<rparr>]" by blast
  then show ?thesis using that [of q'] OpPush by simp
next
  case OpFront
  obtain q' where "lq_front q = (q', map_option fn_value (if lq_list q = [] then None else Some (hd (lq_list q))))"
      "lq_list q' = lq_list q" "lq_ok q' = lq_ok q" by (rule lq_front_list)
  then show ?thesis using that [of q'] assms(1) OpFront by (cases "lq_list q") auto
next
  case OpPopFront
  obtain q' where "lq_pop_front q = Some (q', if lq_list q = [] then None else Some (into_value (hd (lq_list q))))"
      "lq_ok q'" "lq_list q' = tl (lq_list q)" by (rule lq_pop_front_list [OF assms(1)])
  then show ?thesis using that [of q'] OpPopFront by (cases "lq_list q") (auto simp: leaving_def)
next
  case OpPopFrontOwned
  obtain q' where "lq_pop_front_owned q = Some (q', if lq_list q = [] then None else Some (hd (lq_list q)))"
      "lq_ok q'" "lq_list q' = tl (lq_list q)" by (rule lq_pop_front_owned_list [OF assms(1)])
  then show ?thesis using that [of q'] OpPopFrontOwned by (cases "lq_list q") (auto simp: leaving_def)
next
  case OpPopBack
  obtain q' where "lq_pop_back q = Some (q', if lq_list q = [] then None else Some (into_value (last (lq_list q))))"
      "lq_ok q'" "lq_list q' = butlast (lq_list q)" by (rule lq_pop_back_list [OF assms(1)])
  then show ?thesis using that [of q'] OpPopBack by (auto simp: leaving_def)
next
  case OpIter
  then show ?thesis using that [of "lq_merge q"] assms(1) by (simp add: lq_iter_list)
next
  case (OpIterMut visit)
  then show ?thesis using that [of "lq_iter_mut visit q"] assms(1) by simp
next
  case (OpRetain keep)
  obtain q' where "lq_retain keep q = (q', filter (Not \<circ> keep \<circ> fn_value) (lq_list q))"
      "lq_ok q'" "lq_list q' = filter (keep \<circ> fn_value) (lq_list q)" by (rule lq_retain_list [OF assms(1)])
  then show ?thesis using that [of q'] OpRetain by (simp add: comp_def)
qed

lemma list_step_conserves:
  "list_step op xs = (ys, answer) \<Longrightarrow>
   mset (map fn_entry ys) + lq_freed answer = mset (map fn_entry xs) + lq_supplied op"
proof (cases op)
  case OpPopFront
  then show "list_step op xs = (ys, answer) \<Longrightarrow> ?thesis" by (cases xs) (auto simp: lq_freed_def)
next
  case OpPopFrontOwned
  then show "list_step op xs = (ys, answer) \<Longrightarrow> ?thesis" by (cases xs) (auto simp: lq_freed_def)
next
  case OpPopBack
  then show "list_step op xs = (ys, answer) \<Longrightarrow> ?thesis" by (cases xs rule: rev_cases) (auto simp: lq_freed_def)
next
  case (OpRetain keep)
  have "mset xs = mset [x \<leftarrow> xs. keep (fn_value x)] + mset [x \<leftarrow> xs. \<not> keep (fn_value x)]"
    by (simp add: multiset_partition [symmetric])
  then have "mset (map fn_entry xs) =
      mset (map fn_entry [x \<leftarrow> xs. keep (fn_value x)]) + mset (map fn_entry [x \<leftarrow> xs. \<not> keep (fn_value x)])"
    by (metis image_mset_union mset_map)
  then show "list_step op xs = (ys, answer) \<Longrightarrow> ?thesis" using OpRetain by (auto simp: lq_freed_def)
qed (auto simp: lq_freed_def walk_mut_leases)

lemma lq_step_facts:
  assumes "lq_ok q" "lq_step op q = Some (q', answer)"
  shows "lq_ok q'" "list_step op (lq_list q) = (lq_list q', answer)"
    "lq_leases q' + lq_freed answer = lq_leases q + lq_supplied op"
proof -
  have room: "size (lq_leases q) + size (lq_supplied op) < 2 ^ 64"
    using assms by (cases op) (auto simp: lq_leases_def lq_ok_def lq_push_def split: if_splits)
  obtain q1 answer1 where "lq_step op q = Some (q1, answer1)" "lq_ok q1" "list_step op (lq_list q) = (lq_list q1, answer1)"
    by (rule lq_step_list [OF assms(1) room])
  then show *: "lq_ok q'" "list_step op (lq_list q) = (lq_list q', answer)" using assms(2) by simp_all
  show "lq_leases q' + lq_freed answer = lq_leases q + lq_supplied op"
    using list_step_conserves [OF *(2)] by (simp add: lq_leases_def)
qed

interpretation lq: fallible_store lq_ok lq_list lq_leases lq_step list_step "\<lambda>answer. answer" lq_freed lq_supplied
  by unfold_locales (rule lq_step_facts; assumption)+

definition lq_run :: "('a, 'l) lq_op list \<Rightarrow> (('a, 'l) leased_queue \<times> ('a, 'l) lq_answer list) option" where
  "lq_run ops = lq.run ops lq_new"

definition list_run :: "('a, 'l) lq_op list \<Rightarrow> ('a, 'l) chain \<times> ('a, 'l) lq_answer list" where
  "list_run ops = lq.spec_run ops []"

lemma lq_leases_new [simp]: "lq_leases lq_new = {#}"
  by (simp add: lq_leases_def)

section \<open>Properties\<close>

text \<open>
  C29: the two chains are a first-in first-out queue. Fewer than 2^64 pushes never panic, whatever
  operations they are mixed with. Every operation shows and hands out what it does on a plain list of
  the entries, the count is the length of that list, and dropping the queue destroys the entries left
  in it oldest first. The leases of the nodes that left and of those that the drop destroys are
  exactly the leases supplied to the pushes.
\<close>

theorem leased_queue_refines:
  fixes ops :: "('a, 'l) lq_op list"
  assumes "size (sum_list (map lq_supplied ops)) < 2 ^ 64"
  shows "\<exists>q answers. lq_run ops = Some (q, answers) \<and> list_run ops = (lq_drop q, answers) \<and>
    lq_len q = length (lq_drop q) \<and> lq_is_empty q = (lq_drop q = []) \<and>
    sum_list (map lq_freed answers) + mset (map fn_entry (lq_drop q)) = sum_list (map lq_supplied ops)"
proof -
  have "size (lq_leases (lq_new :: ('a, 'l) leased_queue)) + size (sum_list (map lq_supplied ops)) \<le> 2 ^ 64 - 1"
    using assms by simp
  moreover have "lq_step op q \<noteq> None"
    if ok: "lq_ok q" and size: "size (lq_leases q) + size (lq_supplied op) \<le> 2 ^ 64 - 1" for op and q :: "('a, 'l) leased_queue"
  proof -
    have "size (lq_leases q) + size (lq_supplied op) < 2 ^ 64" using size by simp
    from lq_step_list [OF ok this] obtain q' answer where "lq_step op q = Some (q', answer)" by blast
    then show ?thesis by simp
  qed
  ultimately have "lq_run ops \<noteq> None" unfolding lq_run_def by (rule lq.run_total [OF lq_new_list(2)])
  then obtain q answers where run: "lq_run ops = Some (q, answers)" by auto
  note facts = lq.run_facts [OF lq_new_list(2) run [unfolded lq_run_def]]
  then have "lq_len q = length (lq_drop q)" "list_run ops = (lq_drop q, answers)"
      "sum_list (map lq_freed answers) + mset (map fn_entry (lq_drop q)) = sum_list (map lq_supplied ops)"
    by (simp_all add: lq_ok_def list_run_def lq_leases_def add.commute)
  then show ?thesis using run by (auto simp: lq_is_empty_def)
qed

theorem leased_queue_refines_witness:
  "\<exists>q. lq_run [OpPush 1 ''a'', OpPush 2 ''b'', OpFront, OpPush (3 :: nat) ''c'', OpPopBack, OpPopFront, OpIter] =
     Some (q, [([], []), ([], []), ([1], []), ([], []),
        ([], [\<lparr>fn_value = 3, fn_entry = ''c''\<rparr>]), ([], [\<lparr>fn_value = 1, fn_entry = ''a''\<rparr>]), ([2], [])]) \<and>
     lq_drop q = [\<lparr>fn_value = 2, fn_entry = ''b''\<rparr>]"
proof -
  have "size (sum_list (map lq_supplied
      [OpPush 1 ''a'', OpPush 2 ''b'', OpFront, OpPush (3 :: nat) ''c'', OpPopBack, OpPopFront, OpIter])) < 2 ^ 64"
    by simp
  from leased_queue_refines [OF this] obtain q answers where
    "lq_run [OpPush 1 ''a'', OpPush 2 ''b'', OpFront, OpPush (3 :: nat) ''c'', OpPopBack, OpPopFront, OpIter] = Some (q, answers)"
    "list_run [OpPush 1 ''a'', OpPush 2 ''b'', OpFront, OpPush (3 :: nat) ''c'', OpPopBack, OpPopFront, OpIter] = (lq_drop q, answers)"
    by blast
  then show ?thesis by (intro exI [of _ q]) (simp add: list_run_def del: lq_drop_list)
qed

end
