(* ===== verification/Reliable_State.thy ===== *)
theory Reliable_State
  imports Resource_Provider Leased_Queue
begin

text \<open>
  The acknowledged-delivery record of one promoted session (\<open>runtime/peer_session/reliable.rs\<close>) and
  the engine's drive of it (\<open>engine/reliable.rs\<close>). The record retains the frames this side has
  submitted until the peer acknowledges them, and the mark of what it has accepted from the peer. A
  caller waits on a oneshot channel; here a caller is a name, an answer is a pair of a caller and an
  outcome, and which callers have gone (dropped their half) is an argument. The JSON encoding of a
  frame, the answers of the resource provider and of the application gateway are arguments too.
  Panics of the leased queue are the value \<open>None\<close>.
\<close>

section \<open>Frames and claims\<close>

record 'p channel_seq =
  cs_stream :: u64
  cs_seq :: u64
  cs_channel :: string
  cs_payload :: 'p

definition encoded_json_len :: "('f \<Rightarrow> byte list option) \<Rightarrow> 'f \<Rightarrow> nat option" where
  "encoded_json_len to_json frame =
     (case to_json frame of
        None \<Rightarrow> None
      | Some bytes \<Rightarrow> if length bytes < 2 ^ 64 then Some (length bytes) else None)"

definition encode_json_exact :: "('f \<Rightarrow> byte list option) \<Rightarrow> 'f \<Rightarrow> nat \<Rightarrow> byte list option" where
  "encode_json_exact to_json frame len =
     (case to_json frame of
        None \<Rightarrow> None
      | Some bytes \<Rightarrow> if length bytes = len then Some bytes else None)"

definition retained_frame_claim :: "nat \<Rightarrow> claim_error + resource_claim" where
  "retained_frame_claim encoded =
     (if encoded < 2 ^ 64
      then try_from_entries [(AccountedMemoryBytes, word_of_nat encoded), (OpaqueDependencyResidual, 2)]
      else Inl (Overflow AccountedMemoryBytes))"

definition transient_frame_claim :: "nat \<Rightarrow> claim_error + resource_claim" where
  "transient_frame_claim encoded =
     (if encoded < 2 ^ 64
      then try_from_entries [(AccountedMemoryBytes, word_of_nat encoded), (OpaqueDependencyResidual, 2)]
      else Inl (Overflow AccountedMemoryBytes))"

datatype send_error =
  NoSequenceLeft
| FrameNotMeasurable
| FrameClaimRefused claim_error
| FrameRefused unavailable
| NodeClaimRefused claim_error
| NodeRefused unavailable
| FrameSizeChanged
| SessionGone

type_synonym 'c reply = "'c \<times> (send_error + unit)"

record ('c, 'l) pending_frame =
  pf_seq :: u64
  pf_frame :: "byte list"
  pf_sent :: bool
  pf_handed_out :: bool
  pf_reply :: "'c option"
  pf_retention :: 'l

definition resolve :: "send_error + unit \<Rightarrow> ('c, 'l) pending_frame \<Rightarrow> ('c, 'l) pending_frame \<times> 'c reply list" where
  "resolve outcome frame =
     (case pf_reply frame of
        None \<Rightarrow> (frame, [])
      | Some reply \<Rightarrow> (frame\<lparr>pf_reply := None\<rparr>, [(reply, outcome)]))"

definition abandoned :: "('c \<Rightarrow> bool) \<Rightarrow> ('c, 'l) pending_frame \<Rightarrow> bool" where
  "abandoned closed frame = (case pf_reply frame of None \<Rightarrow> False | Some reply \<Rightarrow> closed reply)"

definition frame_drop :: "('c, 'l) pending_frame \<Rightarrow> 'c reply list" where
  "frame_drop frame = snd (resolve (Inl SessionGone) frame)"

record 'l unsent_frame =
  uf_seq :: u64
  uf_bytes :: "byte list"
  uf_lease :: 'l

record inbound_mark =
  im_stream :: "u64 option"
  im_last_seq :: u64

datatype inbound_outcome = Delivered u64 | Duplicate u64 | Gap u64 | ForeignStream

fun outcome_acknowledge :: "inbound_outcome \<Rightarrow> u64 option" where
  "outcome_acknowledge (Delivered mark) = Some mark"
| "outcome_acknowledge (Duplicate mark) = Some mark"
| "outcome_acknowledge (Gap mark) = Some mark"
| "outcome_acknowledge ForeignStream = None"

section \<open>The record\<close>

record ('c, 'l) reliable_state =
  rs_stream :: u64
  rs_next_seq :: u64
  rs_pending :: "(('c, 'l) pending_frame, 'l) leased_queue"
  rs_inbound :: inbound_mark

definition reliable_new :: "u64 \<Rightarrow> ('c, 'l) reliable_state" where
  "reliable_new random =
     \<lparr>rs_stream = or random 1, rs_next_seq = 0, rs_pending = lq_new,
      rs_inbound = \<lparr>im_stream = None, im_last_seq = 0\<rparr>\<rparr>"

definition rs_pending_count :: "('c, 'l) reliable_state \<Rightarrow> nat" where
  "rs_pending_count s = lq_len (rs_pending s)"

lemma lq_pop_back_shrinks:
  "lq_pop_back q = Some (q', Some r) \<Longrightarrow> length (lq_list q') < length (lq_list q)"
  by (auto simp: lq_pop_back_def Let_def pop_tail_last split: if_splits)

text \<open>The loop over the newest frames that no write was given and whose callers have gone.\<close>

function release_tail ::
    "('c \<Rightarrow> bool) \<Rightarrow> ('c, 'l) reliable_state \<Rightarrow> (('c, 'l) reliable_state \<times> 'c reply list) may_panic" where
  "release_tail closed s =
     (case lq_iter (rs_pending s) of
        (pending, frames) \<Rightarrow>
          if frames \<noteq> [] \<and> \<not> pf_handed_out (last frames) \<and> abandoned closed (last frames)
          then (case lq_pop_back pending of
                  None \<Rightarrow> None
                | Some (pending, None) \<Rightarrow> Some (s\<lparr>rs_pending := pending\<rparr>, [])
                | Some (pending, Some (frame, _)) \<Rightarrow>
                    (case release_tail closed
                        (s\<lparr>rs_pending := pending, rs_next_seq := saturating_sub (pf_seq frame) 1\<rparr>) of
                       None \<Rightarrow> None
                     | Some (s, replies) \<Rightarrow> Some (s, frame_drop frame @ replies)))
          else Some (s\<lparr>rs_pending := pending\<rparr>, []))"
  by pat_completeness auto
termination
  by (relation "measure (\<lambda>(closed, s). length (lq_list (rs_pending s)))")
     (auto simp: lq_iter_list dest: lq_pop_back_shrinks)

declare release_tail.simps [simp del]

definition release_abandoned ::
    "('c \<Rightarrow> bool) \<Rightarrow> ('c, 'l) reliable_state \<Rightarrow> (('c, 'l) reliable_state \<times> 'c reply list) may_panic" where
  "release_abandoned closed s =
     (case release_tail closed s of
        None \<Rightarrow> None
      | Some (s, replies) \<Rightarrow>
          (case lq_retain (\<lambda>frame. \<not> (pf_sent frame \<and> abandoned closed frame)) (rs_pending s) of
             (pending, dropped) \<Rightarrow>
               Some (s\<lparr>rs_pending := pending\<rparr>, replies @ concat (map (frame_drop \<circ> fn_value) dropped))))"

definition submit ::
    "('p channel_seq \<Rightarrow> byte list option) \<Rightarrow> nat \<Rightarrow> (resource_claim \<Rightarrow> unavailable + 'l) \<Rightarrow>
     (resource_claim \<Rightarrow> unavailable + 'l) \<Rightarrow> string \<Rightarrow> 'p \<Rightarrow> 'c \<Rightarrow> ('c, 'l) reliable_state \<Rightarrow>
     (('c, 'l) reliable_state \<times> 'c reply list) may_panic" where
  "submit to_json node_size reserve_frame reserve_node channel payload reply s =
     (case checked_add (rs_next_seq s) 1 of
        None \<Rightarrow> Some (s, [(reply, Inl NoSequenceLeft)])
      | Some seq \<Rightarrow>
          (let frame = \<lparr>cs_stream = rs_stream s, cs_seq = seq, cs_channel = channel, cs_payload = payload\<rparr> in
           case encoded_json_len to_json frame of
             None \<Rightarrow> Some (s, [(reply, Inl FrameNotMeasurable)])
           | Some encoded_len \<Rightarrow>
               (case retained_frame_claim encoded_len of
                  Inl e \<Rightarrow> Some (s, [(reply, Inl (FrameClaimRefused e))])
                | Inr claim \<Rightarrow>
                    (case reserve_frame claim of
                       Inl e \<Rightarrow> Some (s, [(reply, Inl (FrameRefused e))])
                     | Inr retention \<Rightarrow>
                         (case lq_entry_claim node_size of
                            Inl e \<Rightarrow> Some (s, [(reply, Inl (NodeClaimRefused e))])
                          | Inr node_claim \<Rightarrow>
                              (case reserve_node node_claim of
                                 Inl e \<Rightarrow> Some (s, [(reply, Inl (NodeRefused e))])
                               | Inr node \<Rightarrow>
                                   (case encode_json_exact to_json frame encoded_len of
                                      None \<Rightarrow> Some (s, [(reply, Inl FrameSizeChanged)])
                                    | Some encoded \<Rightarrow>
                                        (case lq_push
                                            \<lparr>pf_seq = seq, pf_frame = encoded, pf_sent = False,
                                             pf_handed_out = False, pf_reply = Some reply,
                                             pf_retention = retention\<rparr> node (rs_pending s) of
                                           None \<Rightarrow> None
                                         | Some pending \<Rightarrow>
                                             Some (s\<lparr>rs_next_seq := seq, rs_pending := pending\<rparr>, [])))))))))"

definition has_unsent ::
    "('c \<Rightarrow> bool) \<Rightarrow> ('c, 'l) reliable_state \<Rightarrow> (('c, 'l) reliable_state \<times> 'c reply list \<times> bool) may_panic" where
  "has_unsent closed s =
     (case release_abandoned closed s of
        None \<Rightarrow> None
      | Some (s, replies) \<Rightarrow>
          (case lq_iter (rs_pending s) of
             (pending, frames) \<Rightarrow> Some (s\<lparr>rs_pending := pending\<rparr>, replies, list_ex (\<lambda>frame. \<not> pf_sent frame) frames)))"

text \<open>The walk \<open>iter_mut().find(..)\<close> with the change of the entry it finds.\<close>

definition change_first :: "('a \<Rightarrow> bool) \<Rightarrow> ('a \<Rightarrow> 'a) \<Rightarrow> 'a \<Rightarrow> 'a \<times> bool" where
  "change_first found change a = (if found a then (change a, False) else (a, True))"

definition next_unsent ::
    "('c \<Rightarrow> bool) \<Rightarrow> (resource_claim \<Rightarrow> unavailable + 'l) \<Rightarrow> ('c, 'l) reliable_state \<Rightarrow>
     (('c, 'l) reliable_state \<times> 'c reply list \<times> 'l unsent_frame option) may_panic" where
  "next_unsent closed reserve s =
     (case release_abandoned closed s of
        None \<Rightarrow> None
      | Some (s, replies) \<Rightarrow>
          (case lq_iter (rs_pending s) of
             (pending, frames) \<Rightarrow>
               (case find (\<lambda>frame. \<not> pf_sent frame) frames of
                  None \<Rightarrow> Some (s\<lparr>rs_pending := pending\<rparr>, replies, None)
                | Some frame \<Rightarrow>
                    (case transient_frame_claim (length (pf_frame frame)) of
                       Inl _ \<Rightarrow> Some (s\<lparr>rs_pending := pending\<rparr>, replies, None)
                     | Inr claim \<Rightarrow>
                         (case reserve claim of
                            Inl _ \<Rightarrow> Some (s\<lparr>rs_pending := pending\<rparr>, replies, None)
                          | Inr lease \<Rightarrow>
                              (case find (\<lambda>f. pf_seq f = pf_seq frame) frames of
                                 None \<Rightarrow> Some (s\<lparr>rs_pending := pending\<rparr>, replies, None)
                               | Some found \<Rightarrow>
                                   Some (s\<lparr>rs_pending :=
                                             lq_iter_mut (change_first (\<lambda>f. pf_seq f = pf_seq frame)
                                               (\<lambda>f. f\<lparr>pf_handed_out := True\<rparr>)) pending\<rparr>,
                                         replies,
                                         Some \<lparr>uf_seq = pf_seq frame, uf_bytes = pf_frame found,
                                               uf_lease = lease\<rparr>)))))))"

definition mark_sent :: "u64 \<Rightarrow> ('c, 'l) reliable_state \<Rightarrow> ('c, 'l) reliable_state" where
  "mark_sent seq s =
     s\<lparr>rs_pending := lq_iter_mut (change_first (\<lambda>f. pf_seq f = seq) (\<lambda>f. f\<lparr>pf_sent := True\<rparr>)) (rs_pending s)\<rparr>"

lemma lq_pop_front_shrinks:
  "lq_pop_front q = Some (q', Some r) \<Longrightarrow> length (lq_list q') < length (lq_list q)"
proof -
  assume r: "lq_pop_front q = Some (q', Some r)"
  then obtain node rest where "lq_oldest (expose_front q) = node # rest"
      "q' = (expose_front q)\<lparr>lq_oldest := rest, lq_len := lq_len (expose_front q) - 1\<rparr>"
    by (auto simp: lq_pop_front_def Let_def split: list.splits if_splits)
  then have "length (lq_list q') < length (lq_list (expose_front q))" by (simp add: lq_list_def)
  then show ?thesis by (simp add: expose_front_list)
qed

function settle_loop ::
    "u64 \<Rightarrow> ('c, 'l) reliable_state \<Rightarrow> nat \<Rightarrow> (('c, 'l) reliable_state \<times> 'c reply list \<times> nat) may_panic" where
  "settle_loop up_to s settled =
     (case lq_iter (rs_pending s) of
        (pending, []) \<Rightarrow> Some (s\<lparr>rs_pending := pending\<rparr>, [], settled)
      | (pending, frame # _) \<Rightarrow>
          if \<not> (pf_sent frame \<and> pf_seq frame \<le> up_to) then Some (s\<lparr>rs_pending := pending\<rparr>, [], settled)
          else (case resolve (Inr ()) frame of
                  (resolved, replies) \<Rightarrow>
                    (case lq_pop_front (lq_iter_mut (\<lambda>_. (resolved, False)) pending) of
                       None \<Rightarrow> None
                     | Some (pending, None) \<Rightarrow> Some (s\<lparr>rs_pending := pending\<rparr>, replies, settled + 1)
                     | Some (pending, Some (popped, _)) \<Rightarrow>
                         (case settle_loop up_to (s\<lparr>rs_pending := pending\<rparr>) (settled + 1) of
                            None \<Rightarrow> None
                          | Some (s, rest, settled) \<Rightarrow> Some (s, replies @ frame_drop popped @ rest, settled)))))"
  by pat_completeness auto
termination
  by (relation "measure (\<lambda>(up_to, s, settled). length (lq_list (rs_pending s)))")
     (auto simp: lq_iter_list dest: lq_pop_front_shrinks)

declare settle_loop.simps [simp del]

definition acknowledge ::
    "('c \<Rightarrow> bool) \<Rightarrow> u64 \<Rightarrow> u64 \<Rightarrow> ('c, 'l) reliable_state \<Rightarrow>
     (('c, 'l) reliable_state \<times> 'c reply list \<times> nat) may_panic" where
  "acknowledge closed stream up_to s =
     (if stream \<noteq> rs_stream s then Some (s, [], 0)
      else case release_abandoned closed s of
             None \<Rightarrow> None
           | Some (s, replies) \<Rightarrow>
               (case settle_loop up_to s 0 of
                  None \<Rightarrow> None
                | Some (s, settled_replies, settled) \<Rightarrow> Some (s, replies @ settled_replies, settled)))"

text \<open>\<open>deliver\<close> hands the payload to the application: it changes the application's side or refuses.\<close>

definition try_receive ::
    "u64 \<Rightarrow> u64 \<Rightarrow> 'p \<Rightarrow> ('p \<Rightarrow> 'd \<Rightarrow> 'e + 'd) \<Rightarrow> ('c, 'l) reliable_state \<Rightarrow> 'd \<Rightarrow>
     ('c, 'l) reliable_state \<times> 'd \<times> ('e + inbound_outcome)" where
  "try_receive stream seq payload deliver s d =
     (let inbound = rs_inbound s in
      if im_stream inbound \<noteq> None \<and> im_stream inbound \<noteq> Some stream then (s, d, Inr ForeignStream)
      else let s = s\<lparr>rs_inbound := inbound\<lparr>im_stream := Some stream\<rparr>\<rparr>;
               last_seq = im_last_seq inbound
           in case checked_add last_seq 1 of
                None \<Rightarrow> (s, d, Inr (Gap last_seq))
              | Some expected \<Rightarrow>
                  if seq = expected
                  then (case deliver payload d of
                          Inl e \<Rightarrow> (s, d, Inl e)
                        | Inr d \<Rightarrow>
                            (s\<lparr>rs_inbound := (rs_inbound s)\<lparr>im_last_seq := seq\<rparr>\<rparr>, d, Inr (Delivered seq)))
                  else if seq < expected then (s, d, Inr (Duplicate last_seq))
                  else (s, d, Inr (Gap last_seq)))"

definition reliable_drop :: "('c, 'l) reliable_state \<Rightarrow> 'c reply list" where
  "reliable_drop s = concat (map (frame_drop \<circ> fn_value) (lq_drop (rs_pending s)))"

section \<open>The engine's drive\<close>

datatype gateway_refusal = NoReceiver | Revoked | Lag u64 | GatewayPressure unavailable | Malformed

datatype receive_effect = AckPeer u64 u64 | RetireSession | NoEffect

definition on_channel_seq ::
    "(string \<Rightarrow> 'p \<Rightarrow> 'd \<Rightarrow> gateway_refusal + 'd) \<Rightarrow> 'p channel_seq \<Rightarrow> ('c, 'l) reliable_state \<Rightarrow> 'd \<Rightarrow>
     ('c, 'l) reliable_state \<times> 'd \<times> receive_effect" where
  "on_channel_seq accept_channel frame s d =
     (case try_receive (cs_stream frame) (cs_seq frame) (cs_payload frame) (accept_channel (cs_channel frame)) s d of
        (s, d, Inl refusal) \<Rightarrow>
          (s, d, case refusal of GatewayPressure _ \<Rightarrow> RetireSession | Malformed \<Rightarrow> RetireSession | _ \<Rightarrow> NoEffect)
      | (s, d, Inr outcome) \<Rightarrow>
          (s, d, case outcome_acknowledge outcome of None \<Rightarrow> NoEffect | Some mark \<Rightarrow> AckPeer (cs_stream frame) mark))"

text \<open>
  One run of the flush: frames are copied out, written and marked until none is owed, the copy is not
  funded, or a write fails. \<open>write\<close> says which writes succeed; the writes appear in the result in order.
\<close>

partial_function (option) flush_owner ::
    "('c \<Rightarrow> bool) \<Rightarrow> (resource_claim \<Rightarrow> unavailable + 'l) \<Rightarrow> (byte list \<Rightarrow> bool) \<Rightarrow> ('c, 'l) reliable_state \<Rightarrow>
     (('c, 'l) reliable_state \<times> 'c reply list \<times> byte list list) option" where
  "flush_owner closed reserve write s =
     Option.bind (next_unsent closed reserve s) (\<lambda>(s, replies, unsent).
       case unsent of
         None \<Rightarrow> Some (s, replies, [])
       | Some unsent \<Rightarrow>
           if \<not> write (uf_bytes unsent) then Some (s, replies, [uf_bytes unsent])
           else Option.bind (flush_owner closed reserve write (mark_sent (uf_seq unsent) s))
                  (\<lambda>(s, rest, writes). Some (s, replies @ rest, uf_bytes unsent # writes)))"

end
