(* ===== verification/Reliable_Sender.thy ===== *)
theory Reliable_Sender
  imports Reliable_State "HOL-Library.Sublist"
begin

text \<open>
  What the send side of a reliable record keeps (\<open>runtime/peer_session/reliable.rs\<close>). The contents of a
  stream are the submissions that hold its sequence numbers, in order; the frames up to the mark
  \<open>handed\<close> have been given to a write, and every frame beyond it is still in the queue. Each operation is
  shown to succeed, to keep this, to change the contents only beyond the mark, and to answer each
  caller that leaves the queue.
\<close>

type_synonym ('c, 'p) submission = "'c \<times> string \<times> 'p"

definition rs_frames :: "('c, 'l) reliable_state \<Rightarrow> ('c, 'l) pending_frame list" where
  "rs_frames s = map fn_value (lq_list (rs_pending s))"

definition waiting :: "('c, 'l) pending_frame \<Rightarrow> 'c list" where
  "waiting f = (case pf_reply f of None \<Rightarrow> [] | Some c \<Rightarrow> [c])"

definition rs_waiting :: "('c, 'l) reliable_state \<Rightarrow> 'c list" where
  "rs_waiting s = concat (map waiting (rs_frames s))"

definition same_session :: "('c, 'l) reliable_state \<Rightarrow> ('c, 'l) reliable_state \<Rightarrow> bool" where
  "same_session s s' \<longleftrightarrow> rs_stream s' = rs_stream s \<and> rs_inbound s' = rs_inbound s"

lemma same_session_refl [simp]: "same_session s s"
  by (simp add: same_session_def)

lemma same_session_trans: "\<lbrakk>same_session s s'; same_session s' s''\<rbrakk> \<Longrightarrow> same_session s s''"
  by (simp add: same_session_def)

lemma same_session_update [simp]:
  "same_session s (s\<lparr>rs_pending := q\<rparr>)" "same_session s (s\<lparr>rs_next_seq := n, rs_pending := q\<rparr>)"
  "same_session s (s\<lparr>rs_pending := q, rs_next_seq := n\<rparr>)"
  by (simp_all add: same_session_def)

lemma rs_frames_update: "rs_frames (s\<lparr>rs_pending := q\<rparr>) = map fn_value (lq_list q)"
  by (simp add: rs_frames_def)

lemma frame_drop_waiting: "frame_drop f = map (\<lambda>c. (c, Inl SessionGone)) (waiting f)"
  by (simp add: frame_drop_def resolve_def waiting_def split: option.splits)

section \<open>The operations on the list of frames\<close>

lemma release_tail_frames:
  assumes "lq_ok (rs_pending s)"
  shows "\<exists>s' dropped. release_tail closed s = Some (s', concat (map frame_drop (rev dropped))) \<and>
    lq_ok (rs_pending s') \<and> same_session s s' \<and> rs_frames s = rs_frames s' @ dropped \<and>
    (\<forall>f \<in> set dropped. \<not> pf_handed_out f \<and> abandoned closed f) \<and>
    rs_next_seq s' = (if dropped = [] then rs_next_seq s else saturating_sub (pf_seq (hd dropped)) 1)"
  using assms
proof (induction "length (lq_list (rs_pending s))" arbitrary: s rule: less_induct)
  case less
  let ?q = "lq_merge (rs_pending s)"
  let ?stop = "rs_frames s \<noteq> [] \<and> \<not> pf_handed_out (last (rs_frames s)) \<and> abandoned closed (last (rs_frames s))"
  have unfold: "release_tail closed s =
      (if ?stop then (case lq_pop_back ?q of
         None \<Rightarrow> None
       | Some (pending, None) \<Rightarrow> Some (s\<lparr>rs_pending := pending\<rparr>, [])
       | Some (pending, Some (frame, _)) \<Rightarrow>
           (case release_tail closed (s\<lparr>rs_pending := pending, rs_next_seq := saturating_sub (pf_seq frame) 1\<rparr>) of
              None \<Rightarrow> None | Some (s, replies) \<Rightarrow> Some (s, frame_drop frame @ replies)))
       else Some (s\<lparr>rs_pending := ?q\<rparr>, []))"
    by (subst release_tail.simps) (simp add: lq_iter_list rs_frames_def)
  show ?case
  proof (cases ?stop)
    case False
    then show ?thesis using unfold less.prems
      by (intro exI [of _ "s\<lparr>rs_pending := ?q\<rparr>"] exI [of _ "[]"]) (auto simp: rs_frames_def)
  next
    case True
    then have ne: "lq_list (rs_pending s) \<noteq> []" by (simp add: rs_frames_def)
    have okq: "lq_ok ?q" using less.prems by simp
    obtain q' where pop: "lq_pop_back ?q = Some (q', if lq_list ?q = [] then None else Some (into_value (last (lq_list ?q))))"
        and q': "lq_ok q'" "lq_list q' = butlast (lq_list ?q)"
      by (rule lq_pop_back_list [OF okq])
    define f where "f = last (rs_frames s)"
    define s1 where "s1 = s\<lparr>rs_pending := q', rs_next_seq := saturating_sub (pf_seq f) 1\<rparr>"
    have f: "fn_value (last (lq_list (rs_pending s))) = f" using ne by (simp add: f_def rs_frames_def last_map)
    have frames: "rs_frames s = rs_frames s1 @ [f]"
      using arg_cong [OF append_butlast_last_id [OF ne], of "map fn_value"] q'(2) f
      by (simp add: rs_frames_def s1_def)
    have "length (lq_list (rs_pending s1)) < length (lq_list (rs_pending s))" "lq_ok (rs_pending s1)"
      using ne q' by (simp_all add: s1_def)
    from less.hyps [OF this] obtain s' dropped where
      IH: "release_tail closed s1 = Some (s', concat (map frame_drop (rev dropped)))" "lq_ok (rs_pending s')"
        "same_session s1 s'" "rs_frames s1 = rs_frames s' @ dropped"
        "\<forall>f \<in> set dropped. \<not> pf_handed_out f \<and> abandoned closed f"
        "rs_next_seq s' = (if dropped = [] then rs_next_seq s1 else saturating_sub (pf_seq (hd dropped)) 1)"
      by blast
    have "release_tail closed s = Some (s', concat (map frame_drop (rev (dropped @ [f]))))"
      using unfold True pop IH(1) f ne by (simp add: into_value_def s1_def)
    moreover have "same_session s s'" using IH(3) by (simp add: same_session_def s1_def)
    moreover have "\<forall>g \<in> set (dropped @ [f]). \<not> pf_handed_out g \<and> abandoned closed g"
      using IH(5) True by (auto simp: f_def)
    moreover have "rs_next_seq s' = saturating_sub (pf_seq (hd (dropped @ [f]))) 1"
      using IH(6) by (simp add: s1_def hd_append)
    ultimately show ?thesis using IH(2,4) frames
      by (intro exI [of _ s'] exI [of _ "dropped @ [f]"]) simp
  qed
qed

lemma walk_change_first:
  "distinct (map key (map fn_value xs)) \<Longrightarrow>
   map fn_value (walk_mut (change_first (\<lambda>a. key a = k) change) xs) =
   map (\<lambda>a. if key a = k then change a else a) (map fn_value xs)"
proof (induction xs)
  case (Cons node xs)
  have "map (\<lambda>a. if key a = k then change a else a) (map fn_value xs) = map fn_value xs"
    if "key (fn_value node) = k"
    using Cons.prems that by (intro map_idI) (auto simp: image_def)
  then show ?case using Cons by (auto simp: change_first_def)
qed simp

lemma settle_loop_frames:
  assumes "lq_ok (rs_pending s)"
  shows "\<exists>s' prefix. settle_loop up_to s settled =
      Some (s', map (\<lambda>c. (c, Inr ())) (concat (map waiting prefix)), settled + length prefix) \<and>
    lq_ok (rs_pending s') \<and> same_session s s' \<and> rs_next_seq s' = rs_next_seq s \<and>
    rs_frames s = prefix @ rs_frames s' \<and> prefix = takeWhile (\<lambda>f. pf_sent f \<and> pf_seq f \<le> up_to) (rs_frames s)"
  using assms
proof (induction "length (lq_list (rs_pending s))" arbitrary: s settled rule: less_induct)
  case less
  let ?q = "lq_merge (rs_pending s)"
  have unfold: "settle_loop up_to s settled =
      (case map fn_value (lq_list (rs_pending s)) of
         [] \<Rightarrow> Some (s\<lparr>rs_pending := ?q\<rparr>, [], settled)
       | frame # _ \<Rightarrow>
          if \<not> (pf_sent frame \<and> pf_seq frame \<le> up_to) then Some (s\<lparr>rs_pending := ?q\<rparr>, [], settled)
          else (case resolve (Inr ()) frame of
                  (resolved, replies) \<Rightarrow>
                    (case lq_pop_front (lq_iter_mut (\<lambda>_. (resolved, False)) ?q) of
                       None \<Rightarrow> None
                     | Some (pending, None) \<Rightarrow> Some (s\<lparr>rs_pending := pending\<rparr>, replies, settled + 1)
                     | Some (pending, Some (popped, _)) \<Rightarrow>
                         (case settle_loop up_to (s\<lparr>rs_pending := pending\<rparr>) (settled + 1) of
                            None \<Rightarrow> None
                          | Some (s, rest, settled) \<Rightarrow> Some (s, replies @ frame_drop popped @ rest, settled)))))"
    by (subst settle_loop.simps) (simp only: lq_iter_list prod.case)
  show ?case
  proof (cases "lq_list (rs_pending s)")
    case Nil
    then show ?thesis using unfold less.prems
      by (intro exI [of _ "s\<lparr>rs_pending := ?q\<rparr>"] exI [of _ "[]"]) (auto simp: rs_frames_def)
  next
    case (Cons node rest)
    let ?f = "fn_value node"
    show ?thesis
    proof (cases "pf_sent ?f \<and> pf_seq ?f \<le> up_to")
      case False
      then show ?thesis using unfold less.prems Cons
        by (intro exI [of _ "s\<lparr>rs_pending := ?q\<rparr>"] exI [of _ "[]"]) (auto simp: rs_frames_def)
    next
      case True
      obtain resolved replies where res: "resolve (Inr ()) ?f = (resolved, replies)" by fastforce
      then have waits: "replies = map (\<lambda>c. (c, Inr ())) (waiting ?f)" "frame_drop resolved = []"
        by (auto simp: resolve_def waiting_def frame_drop_def split: option.splits)
      let ?r = "lq_iter_mut (\<lambda>_. (resolved, False)) ?q"
      have okr: "lq_ok ?r" and r: "lq_list ?r = node\<lparr>fn_value := resolved\<rparr> # rest" using less.prems Cons by simp_all
      obtain q' where pop: "lq_pop_front ?r = Some (q', if lq_list ?r = [] then None else Some (into_value (hd (lq_list ?r))))"
          and q': "lq_ok q'" "lq_list q' = tl (lq_list ?r)"
        by (rule lq_pop_front_list [OF okr])
      let ?s = "s\<lparr>rs_pending := q'\<rparr>"
      have "length (lq_list (rs_pending ?s)) < length (lq_list (rs_pending s))" "lq_ok (rs_pending ?s)"
        using q' r Cons by simp_all
      from less.hyps [OF this, of "settled + 1"] obtain s' prefix where
        IH: "settle_loop up_to ?s (settled + 1) =
            Some (s', map (\<lambda>c. (c, Inr ())) (concat (map waiting prefix)), settled + 1 + length prefix)"
          "lq_ok (rs_pending s')" "same_session ?s s'" "rs_next_seq s' = rs_next_seq ?s"
          "rs_frames ?s = prefix @ rs_frames s'" "prefix = takeWhile (\<lambda>f. pf_sent f \<and> pf_seq f \<le> up_to) (rs_frames ?s)"
        by blast
      have frames: "rs_frames s = ?f # rs_frames ?s" using Cons q' r by (simp add: rs_frames_def)
      have "settle_loop up_to s settled =
          Some (s', map (\<lambda>c. (c, Inr ())) (concat (map waiting (?f # prefix))), settled + length (?f # prefix))"
        using unfold Cons True res pop IH(1) r waits by (simp add: into_value_def)
      moreover have "?f # prefix = takeWhile (\<lambda>f. pf_sent f \<and> pf_seq f \<le> up_to) (rs_frames s)"
        using IH(6) frames True by simp
      ultimately show ?thesis using IH(2,3,4,5) frames
        by (intro exI [of _ s'] exI [of _ "?f # prefix"]) (simp add: same_session_def)
    qed
  qed
qed

section \<open>The contents of a stream\<close>

definition stream_frame :: "u64 \<Rightarrow> ('c, 'p) submission list \<Rightarrow> nat \<Rightarrow> 'p channel_seq" where
  "stream_frame stream ns k =
     \<lparr>cs_stream = stream, cs_seq = word_of_nat k, cs_channel = fst (snd (ns ! (k - 1))),
      cs_payload = snd (snd (ns ! (k - 1)))\<rparr>"

definition frame_ok ::
    "('p channel_seq \<Rightarrow> byte list option) \<Rightarrow> u64 \<Rightarrow> ('c, 'p) submission list \<Rightarrow> nat \<Rightarrow> ('c, 'l) pending_frame \<Rightarrow> bool" where
  "frame_ok to_json stream ns handed f \<longleftrightarrow>
     0 < unat (pf_seq f) \<and> unat (pf_seq f) \<le> length ns \<and>
     to_json (stream_frame stream ns (unat (pf_seq f))) = Some (pf_frame f) \<and> length (pf_frame f) < 2 ^ 64 \<and>
     pf_reply f = Some (fst (ns ! (unat (pf_seq f) - 1))) \<and>
     (pf_handed_out f \<longleftrightarrow> unat (pf_seq f) \<le> handed) \<and> (pf_sent f \<longrightarrow> pf_handed_out f)"

definition sends ::
    "('p channel_seq \<Rightarrow> byte list option) \<Rightarrow> ('c, 'l) reliable_state \<Rightarrow> ('c, 'p) submission list \<Rightarrow> nat \<Rightarrow> bool" where
  "sends to_json s ns handed \<longleftrightarrow>
     lq_ok (rs_pending s) \<and> length ns = unat (rs_next_seq s) \<and> handed \<le> length ns \<and>
     sorted_wrt (<) (map pf_seq (rs_frames s)) \<and>
     (\<forall>f \<in> set (rs_frames s). frame_ok to_json (rs_stream s) ns handed f) \<and>
     {handed<..length ns} \<subseteq> (unat \<circ> pf_seq) ` set (rs_frames s)"

lemma sendsD:
  assumes "sends to_json s ns handed"
  shows "lq_ok (rs_pending s)" "length ns = unat (rs_next_seq s)" "handed \<le> length ns"
    "sorted_wrt (<) (map pf_seq (rs_frames s))"
    "\<And>f. f \<in> set (rs_frames s) \<Longrightarrow> frame_ok to_json (rs_stream s) ns handed f"
    "{handed<..length ns} \<subseteq> (unat \<circ> pf_seq) ` set (rs_frames s)"
  using assms unfolding sends_def by blast+

lemma sendsI:
  assumes "lq_ok (rs_pending s)" "length ns = unat (rs_next_seq s)" "handed \<le> length ns"
    "sorted_wrt (<) (map pf_seq (rs_frames s))"
    "\<And>f. f \<in> set (rs_frames s) \<Longrightarrow> frame_ok to_json (rs_stream s) ns handed f"
    "{handed<..length ns} \<subseteq> (unat \<circ> pf_seq) ` set (rs_frames s)"
  shows "sends to_json s ns handed"
  using assms unfolding sends_def by blast

lemma sends_merge [simp]: "sends to_json (s\<lparr>rs_pending := lq_merge (rs_pending s)\<rparr>) = sends to_json s"
  by (intro ext) (simp add: sends_def rs_frames_def)

lemma sends_new: "sends to_json (reliable_new random) [] 0"
  by (simp add: sends_def reliable_new_def rs_frames_def)

lemma stream_frame_take: "\<lbrakk>0 < k; k \<le> n\<rbrakk> \<Longrightarrow> stream_frame stream (take n ns) k = stream_frame stream ns k"
  by (simp add: stream_frame_def)

lemma stream_frame_append: "\<lbrakk>0 < k; k \<le> length ns\<rbrakk> \<Longrightarrow> stream_frame stream (ns @ later) k = stream_frame stream ns k"
  by (cases k) (simp_all add: stream_frame_def nth_append)

lemma frame_ok_take:
  "\<lbrakk>frame_ok to_json stream ns handed f; unat (pf_seq f) \<le> n; n \<le> length ns\<rbrakk> \<Longrightarrow>
   frame_ok to_json stream (take n ns) handed f"
  by (auto simp: frame_ok_def stream_frame_take)

lemma subseq_subset: "subseq xs ys \<Longrightarrow> set xs \<subseteq> set ys"
  by (induction rule: list_emb.induct) auto

lemma sorted_wrt_subseq: "subseq xs ys \<Longrightarrow> sorted_wrt P ys \<Longrightarrow> sorted_wrt P xs"
  by (induction rule: list_emb.induct) (auto dest: subseq_subset)

lemma sends_subseq:
  assumes "sends to_json s ns handed" and "lq_ok (rs_pending s')" "same_session s s'" "rs_next_seq s' = rs_next_seq s"
    and sub: "subseq (rs_frames s') (rs_frames s)"
    and kept: "\<And>f. \<lbrakk>f \<in> set (rs_frames s); \<not> pf_handed_out f\<rbrakk> \<Longrightarrow> f \<in> set (rs_frames s')"
  shows "sends to_json s' ns handed"
proof -
  have set: "set (rs_frames s') \<subseteq> set (rs_frames s)" using sub by (rule subseq_subset)
  have "k \<in> (unat \<circ> pf_seq) ` set (rs_frames s')" if "k \<in> {handed<..length ns}" for k
  proof -
    have "k \<in> (unat \<circ> pf_seq) ` set (rs_frames s)" using that assms(1) unfolding sends_def by blast
    then obtain f where f: "f \<in> set (rs_frames s)" "unat (pf_seq f) = k" by auto
    then have "\<not> pf_handed_out f" using assms(1) that by (auto simp: sends_def frame_ok_def)
    then show ?thesis using kept f by auto
  qed
  moreover have "sorted_wrt (<) (map pf_seq (rs_frames s'))"
    using assms(1) sorted_wrt_subseq [OF subseq_map [OF sub, of pf_seq]] by (simp add: sends_def)
  ultimately show ?thesis using assms(1-4) set by (auto simp: sends_def same_session_def)
qed

lemma sends_truncate:
  assumes "sends to_json s ns handed" and "lq_ok (rs_pending s')" "same_session s s'"
    and frames: "rs_frames s = rs_frames s' @ dropped" and new: "\<And>f. f \<in> set dropped \<Longrightarrow> \<not> pf_handed_out f"
    and seq: "rs_next_seq s' = (if dropped = [] then rs_next_seq s else saturating_sub (pf_seq (hd dropped)) 1)"
  shows "\<exists>k. handed \<le> k \<and> sends to_json s' (take k ns) handed"
proof (cases dropped)
  case Nil
  then have "sends to_json s' ns handed"
    using sends_subseq [OF assms(1-3)] frames seq by simp
  moreover have "handed \<le> length ns" using assms(1) by (simp add: sends_def)
  ultimately show ?thesis by (intro exI [of _ "length ns"]) simp
next
  case (Cons f later)
  let ?k = "unat (pf_seq f) - 1"
  have ok: "frame_ok to_json (rs_stream s) ns handed g" if "g \<in> set (rs_frames s)" for g
    using assms(1) that by (simp add: sends_def)
  have sorted: "sorted_wrt (<) (map pf_seq (rs_frames s') @ map pf_seq (f # later))"
    using assms(1) frames Cons by (simp add: sends_def)
  have f: "frame_ok to_json (rs_stream s) ns handed f" using ok frames Cons by simp
  then have k: "handed \<le> ?k" "?k \<le> length ns" "0 < unat (pf_seq f)"
    using new [of f] Cons by (auto simp: frame_ok_def)
  have below: "unat (pf_seq g) \<le> ?k" if "g \<in> set (rs_frames s')" for g
  proof -
    have "pf_seq g < pf_seq f" using sorted that by (auto simp: sorted_wrt_append)
    then show ?thesis by (simp add: word_less_nat_alt)
  qed
  have cover: "j \<in> (unat \<circ> pf_seq) ` set (rs_frames s')" if "j \<in> {handed<..?k}" for j
  proof -
    have "j \<in> (unat \<circ> pf_seq) ` set (rs_frames s)" using assms(1) that k unfolding sends_def by auto
    then obtain g where g: "g \<in> set (rs_frames s)" "unat (pf_seq g) = j" by auto
    have "pf_seq f \<le> pf_seq g" if "g \<in> set (f # later)"
      using that sorted by (auto simp: sorted_wrt_append)
    then have "g \<in> set (rs_frames s')" using g that k(3) frames Cons by (auto simp: word_le_nat_alt)
    then show ?thesis using g by auto
  qed
  have "unat (rs_next_seq s') = ?k" using seq Cons k(3) by (simp add: unat_saturating_sub)
  then have "sends to_json s' (take ?k ns) handed"
    using assms(2,3) k below cover ok sorted frames
    by (auto simp: sends_def same_session_def sorted_wrt_append intro!: frame_ok_take)
  then show ?thesis using k(1) by blast
qed

lemma waiting_split:
  "mset (concat (map waiting [f \<leftarrow> fs. P f])) + mset (concat (map waiting [f \<leftarrow> fs. \<not> P f])) =
   mset (concat (map waiting fs))"
  by (induction fs) auto

lemma frame_drops: "concat (map frame_drop fs) = map (\<lambda>c. (c, Inl SessionGone)) (concat (map waiting fs))"
  by (induction fs) (simp_all add: frame_drop_waiting)

lemma fst_answers [simp]: "map fst (map (\<lambda>c. (c, a)) cs) = cs"
  by (induction cs) simp_all

lemma fst_frame_drops: "map fst (concat (map frame_drop fs)) = concat (map waiting fs)"
  unfolding frame_drops by (rule fst_answers)

lemma waiting_rev: "mset (concat (map waiting (rev fs))) = mset (concat (map waiting fs))"
  by (induction fs) auto

text \<open>
  The sweep: it never fails, returns a state with the same handed-out frames, and tells every caller
  whose frame it drops that the session is gone.
\<close>

lemma release_abandoned_sends:
  assumes "sends to_json s ns handed"
  obtains s' replies k where "release_abandoned closed s = Some (s', replies)" "handed \<le> k"
    "sends to_json s' (take k ns) handed" "same_session s s'" "set (rs_frames s') \<subseteq> set (rs_frames s)"
    "mset (map fst replies) + mset (rs_waiting s') = mset (rs_waiting s)" "snd ` set replies \<subseteq> {Inl SessionGone}"
proof -
  have "lq_ok (rs_pending s)" using assms by (simp add: sends_def)
  from release_tail_frames [OF this, of closed] obtain s1 dropped where
    tail: "release_tail closed s = Some (s1, concat (map frame_drop (rev dropped)))" "lq_ok (rs_pending s1)"
      "same_session s s1" "rs_frames s = rs_frames s1 @ dropped" "\<forall>f \<in> set dropped. \<not> pf_handed_out f \<and> abandoned closed f"
      "rs_next_seq s1 = (if dropped = [] then rs_next_seq s else saturating_sub (pf_seq (hd dropped)) 1)"
    by blast
  from sends_truncate [OF assms tail(2,3,4) _ tail(6)] tail(5) obtain k where
    k: "handed \<le> k" "sends to_json s1 (take k ns) handed" by blast
  let ?keep = "\<lambda>f. \<not> (pf_sent f \<and> abandoned closed f)"
  obtain q where q: "lq_retain ?keep (rs_pending s1) = (q, filter (Not \<circ> ?keep \<circ> fn_value) (lq_list (rs_pending s1)))"
      "lq_ok q" "lq_list q = filter (?keep \<circ> fn_value) (lq_list (rs_pending s1))"
    by (rule lq_retain_list [OF tail(2)])
  let ?s = "s1\<lparr>rs_pending := q\<rparr>"
  let ?gone = "[f \<leftarrow> rs_frames s1. \<not> ?keep f]"
  have frames: "rs_frames ?s = [f \<leftarrow> rs_frames s1. ?keep f]"
    using q(3) by (simp add: rs_frames_def filter_map comp_def)
  have gone: "map fn_value (filter (Not \<circ> ?keep \<circ> fn_value) (lq_list (rs_pending s1))) = ?gone"
    by (simp add: rs_frames_def filter_map comp_def)
  have run: "release_abandoned closed s =
      Some (?s, concat (map frame_drop (rev dropped)) @ concat (map frame_drop ?gone))"
    using tail(1) q(1) gone by (simp add: release_abandoned_def flip: map_map)
  have "sends to_json ?s (take k ns) handed"
  proof (rule sends_subseq [OF k(2)])
    show "subseq (rs_frames ?s) (rs_frames s1)" unfolding frames by (rule subseq_filter_left)
    show "f \<in> set (rs_frames ?s)" if "f \<in> set (rs_frames s1)" "\<not> pf_handed_out f" for f
      using that k(2) unfolding frames by (auto simp: sends_def frame_ok_def)
  qed (use q in simp_all)
  moreover have "mset (map fst (concat (map frame_drop (rev dropped)) @ concat (map frame_drop ?gone))) + mset (rs_waiting ?s) =
      mset (rs_waiting s)"
    using waiting_split [of ?keep "rs_frames s1"] tail(4) frames
    unfolding map_append fst_frame_drops rs_waiting_def frames mset_append waiting_rev tail(4) concat_append
    by (simp only: ac_simps)
  moreover have "snd ` set (concat (map frame_drop (rev dropped)) @ concat (map frame_drop ?gone)) \<subseteq> {Inl SessionGone}"
    unfolding frame_drops set_append by auto
  moreover have "same_session s ?s" "set (rs_frames ?s) \<subseteq> set (rs_frames s)"
    using tail(3,4) frames by (auto simp: same_session_def)
  ultimately show ?thesis using that run k(1) by blast
qed

lemma sends_distinct: "sends to_json s ns handed \<Longrightarrow> distinct (map pf_seq (rs_frames s))"
  by (simp add: sends_def strict_sorted_iff)

lemma sends_length:
  assumes "sends to_json s ns handed"
  shows "length (rs_frames s) \<le> length ns"
proof -
  have "inj_on unat (set (map pf_seq (rs_frames s)))" by (auto simp: inj_on_def word_unat_eq_iff)
  then have "distinct (map unat (map pf_seq (rs_frames s)))"
    using sends_distinct [OF assms] by (simp only: distinct_map simp_thms)
  then have "length (rs_frames s) = card (set (map unat (map pf_seq (rs_frames s))))"
    using distinct_card by fastforce
  also have "\<dots> \<le> card {1..length ns}"
    using assms by (intro card_mono) (auto simp: sends_def frame_ok_def Suc_le_eq)
  finally show ?thesis by simp
qed

lemma submit_cases:
  obtains e where "submit to_json node_size reserve_frame reserve_node channel payload reply s = Some (s, [(reply, Inl e)])"
  | seq encoded retention node where
    "checked_add (rs_next_seq s) 1 = Some seq"
    "to_json \<lparr>cs_stream = rs_stream s, cs_seq = seq, cs_channel = channel, cs_payload = payload\<rparr> = Some encoded"
    "length encoded < 2 ^ 64"
    "submit to_json node_size reserve_frame reserve_node channel payload reply s =
      map_option (\<lambda>pending. (s\<lparr>rs_next_seq := seq, rs_pending := pending\<rparr>, []))
       (lq_push \<lparr>pf_seq = seq, pf_frame = encoded, pf_sent = False, pf_handed_out = False,
          pf_reply = Some reply, pf_retention = retention\<rparr> node (rs_pending s))"
proof -
  let ?s = "submit to_json node_size reserve_frame reserve_node channel payload reply s"
  let ?frame = "\<lambda>seq. \<lparr>cs_stream = rs_stream s, cs_seq = seq, cs_channel = channel, cs_payload = payload\<rparr>"
  note unfold = submit_def encoded_json_len_def encode_json_exact_def
  show ?thesis
  proof (cases "\<exists>e. ?s = Some (s, [(reply, Inl e)])")
    case False
    then obtain seq where seq: "checked_add (rs_next_seq s) 1 = Some seq"
      by (cases "checked_add (rs_next_seq s) 1") (auto simp: unfold)
    with False obtain encoded where enc: "to_json (?frame seq) = Some encoded" "length encoded < 2 ^ 64"
      by (cases "to_json (?frame seq)") (auto simp: unfold Let_def split: if_splits)
    with False seq obtain claim where claim: "retained_frame_claim (length encoded) = Inr claim"
      by (cases "retained_frame_claim (length encoded)") (auto simp: unfold Let_def)
    with False seq enc obtain retention where ret: "reserve_frame claim = Inr retention"
      by (cases "reserve_frame claim") (auto simp: unfold Let_def)
    with False seq enc claim obtain node_claim where nc: "lq_entry_claim node_size = Inr node_claim"
      by (cases "lq_entry_claim node_size") (auto simp: unfold Let_def)
    with False seq enc claim ret obtain node where node: "reserve_node node_claim = Inr node"
      by (cases "reserve_node node_claim") (auto simp: unfold Let_def)
    show ?thesis
      by (rule that(2) [of seq encoded retention node])
         (use seq enc claim ret nc node in \<open>simp_all add: unfold Let_def map_option_case\<close>)
  qed (use that(1) in blast)
qed

lemma submit_sends:
  assumes "sends to_json s ns handed"
  obtains e where "submit to_json node_size reserve_frame reserve_node channel payload reply s = Some (s, [(reply, Inl e)])"
  | s' where "submit to_json node_size reserve_frame reserve_node channel payload reply s = Some (s', [])"
    "sends to_json s' (ns @ [(reply, channel, payload)]) handed" "same_session s s'"
    "rs_waiting s' = rs_waiting s @ [reply]"
    "\<And>f. f \<in> set (rs_frames s') \<Longrightarrow> f \<in> set (rs_frames s) \<or> unat (pf_seq f) = length ns + 1"
proof (cases rule: submit_cases [of to_json node_size reserve_frame reserve_node channel payload reply s])
  case (1 e)
  then show ?thesis using that(1) by blast
next
  case (2 seq encoded retention node)
  let ?f = "\<lparr>pf_seq = seq, pf_frame = encoded, pf_sent = False, pf_handed_out = False,
      pf_reply = Some reply, pf_retention = retention\<rparr>"
  let ?ns = "ns @ [(reply, channel, payload)]"
  have seq: "unat seq = length ns + 1" using 2(1) assms by (simp add: checked_add_Some_iff sends_def)
  have "length (lq_list (rs_pending s)) \<le> length ns" using sends_length [OF assms] by (simp add: rs_frames_def)
  then have room: "length (lq_list (rs_pending s)) + 1 < 2 ^ 64" using unat_bound [of seq] seq by linarith
  have okq: "lq_ok (rs_pending s)" using assms by (simp add: sends_def)
  obtain q where push: "lq_push ?f node (rs_pending s) = Some q" "lq_ok q"
      "lq_list q = lq_list (rs_pending s) @ [\<lparr>fn_value = ?f, fn_entry = node\<rparr>]"
    by (rule lq_push_list [OF okq room])
  let ?s = "s\<lparr>rs_next_seq := seq, rs_pending := q\<rparr>"
  have frames: "rs_frames ?s = rs_frames s @ [?f]" using push(3) by (simp add: rs_frames_def)
  have handed: "handed \<le> length ns" using assms by (simp add: sends_def)
  have "1 + word_of_nat (length ns) = seq" using arg_cong [OF seq, of "word_of_nat :: nat \<Rightarrow> u64"] by simp
  then have "frame_ok to_json (rs_stream s) ?ns handed ?f"
    using 2(2,3) seq handed by (simp add: frame_ok_def stream_frame_def)
  moreover have "frame_ok to_json (rs_stream s) ?ns handed f" if "f \<in> set (rs_frames s)" for f
    using that assms by (auto simp: sends_def frame_ok_def stream_frame_append nth_append)
  ultimately have ok: "frame_ok to_json (rs_stream ?s) ?ns handed f" if "f \<in> set (rs_frames ?s)" for f
    using that unfolding frames by auto
  have sorted: "pf_seq f < seq" if "f \<in> set (rs_frames s)" for f
    using that assms seq by (auto simp: sends_def frame_ok_def word_less_nat_alt)
  have cover: "{handed<..length ?ns} \<subseteq> (unat \<circ> pf_seq) ` set (rs_frames ?s)"
  proof
    fix j assume "j \<in> {handed<..length ?ns}"
    then have "j \<in> {handed<..length ns} \<or> j = length ns + 1" by auto
    moreover note sendsD(6) [OF assms]
    ultimately show "j \<in> (unat \<circ> pf_seq) ` set (rs_frames ?s)" using frames seq by auto
  qed
  have "sends to_json ?s ?ns handed"
  proof (rule sendsI [OF _ _ _ _ ok cover])
    show "sorted_wrt (<) (map pf_seq (rs_frames ?s))"
      unfolding frames using sorted sendsD(4) [OF assms] by (simp add: sorted_wrt_append)
  qed (use push(2) seq handed in simp_all)
  then show ?thesis
    by (rule that(2) [of ?s, rotated]) (use 2(4) push(1) seq in \<open>auto simp: rs_waiting_def waiting_def frames\<close>)
qed

lemma sends_change:
  assumes "sends to_json s ns handed" and "lq_ok q" and "handed' \<le> length ns" "handed \<le> handed'"
    and "map fn_value (lq_list q) = map change (rs_frames s)" and "\<And>f. pf_seq (change f) = pf_seq f"
    and "\<And>f. f \<in> set (rs_frames s) \<Longrightarrow> frame_ok to_json (rs_stream s) ns handed' (change f)"
  shows "sends to_json (s\<lparr>rs_pending := q\<rparr>) ns handed'"
proof -
  have "map pf_seq (rs_frames (s\<lparr>rs_pending := q\<rparr>)) = map pf_seq (rs_frames s)" using assms(5,6) by (simp add: rs_frames_update)
  moreover have "(unat \<circ> pf_seq) ` set (rs_frames (s\<lparr>rs_pending := q\<rparr>)) = (unat \<circ> pf_seq) ` set (rs_frames s)"
    using arg_cong [OF calculation, of "\<lambda>xs. unat ` set xs"] by (simp add: image_comp)
  moreover have "{handed'<..length ns} \<subseteq> {handed<..length ns}" using assms(4) by auto
  moreover have "frame_ok to_json (rs_stream s) ns handed' f" if "f \<in> set (rs_frames (s\<lparr>rs_pending := q\<rparr>))" for f
    using that assms(5,7) by (auto simp: rs_frames_update)
  ultimately show ?thesis using assms(2,3) sendsD [OF assms(1)] by (intro sendsI) auto
qed

lemma mark_sent_sends:
  assumes "sends to_json s ns handed" "unat seq \<le> handed"
  shows "sends to_json (mark_sent seq s) ns handed" "same_session s (mark_sent seq s)"
    "rs_waiting (mark_sent seq s) = rs_waiting s"
    "rs_frames (mark_sent seq s) = map (\<lambda>f. if pf_seq f = seq then f\<lparr>pf_sent := True\<rparr> else f) (rs_frames s)"
proof -
  show frames: "rs_frames (mark_sent seq s) = map (\<lambda>f. if pf_seq f = seq then f\<lparr>pf_sent := True\<rparr> else f) (rs_frames s)"
    using walk_change_first [of pf_seq "lq_list (rs_pending s)" seq] sends_distinct [OF assms(1)]
    by (simp add: mark_sent_def rs_frames_def)
  show "sends to_json (mark_sent seq s) ns handed"
    unfolding mark_sent_def
  proof (rule sends_change [OF assms(1)])
    show "map fn_value (lq_list (lq_iter_mut (change_first (\<lambda>f. pf_seq f = seq) (pf_sent_update (\<lambda>_. True))) (rs_pending s))) =
        map (\<lambda>f. if pf_seq f = seq then f\<lparr>pf_sent := True\<rparr> else f) (rs_frames s)"
      using frames by (simp add: mark_sent_def rs_frames_update)
  qed (use assms in \<open>auto simp: sends_def frame_ok_def\<close>)
  show "rs_waiting (mark_sent seq s) = rs_waiting s"
    unfolding rs_waiting_def frames by (rule arg_cong [where f = concat]) (simp add: waiting_def)
  show "same_session s (mark_sent seq s)" by (simp add: mark_sent_def)
qed

text \<open>The first unsent frame is handed out already, or it is the one right after the mark.\<close>

lemma first_unsent:
  assumes "sends to_json s ns handed" "find (\<lambda>f. \<not> pf_sent f) (rs_frames s) = Some f"
  shows "f \<in> set (rs_frames s)" "\<not> pf_sent f" "unat (pf_seq f) \<le> handed + 1"
proof -
  obtain i where i: "i < length (rs_frames s)" "\<not> pf_sent (rs_frames s ! i)" "f = rs_frames s ! i"
      "\<forall>j < i. pf_sent (rs_frames s ! j)"
    using assms(2) by (auto simp: find_Some_iff)
  then show f: "f \<in> set (rs_frames s)" "\<not> pf_sent f" by simp_all
  show "unat (pf_seq f) \<le> handed + 1"
  proof (rule ccontr)
    assume "\<not> unat (pf_seq f) \<le> handed + 1"
    moreover have "unat (pf_seq f) \<le> length ns" using assms(1) f(1) by (auto simp: sends_def frame_ok_def)
    ultimately have "handed + 1 \<in> {handed<..length ns}" by simp
    then have "handed + 1 \<in> (unat \<circ> pf_seq) ` set (rs_frames s)" using assms(1) unfolding sends_def by blast
    then obtain j where j: "j < length (rs_frames s)" "unat (pf_seq (rs_frames s ! j)) = handed + 1"
      by (auto simp: in_set_conv_nth)
    have "frame_ok to_json (rs_stream s) ns handed (rs_frames s ! j)" using assms(1) j(1) by (simp add: sends_def)
    then have "\<not> pf_sent (rs_frames s ! j)" using j(2) by (auto simp: frame_ok_def)
    then have "i < j \<or> i = j" using i(4) by (cases i j rule: linorder_cases) auto
    moreover have "pf_seq (rs_frames s ! i) < pf_seq (rs_frames s ! j)" if "i < j"
      using sorted_wrt_nth_less [of "(<)" "map pf_seq (rs_frames s)" i j] assms(1) that j(1) by (simp add: sends_def)
    ultimately show False using i(3) j(2) \<open>\<not> unat (pf_seq f) \<le> handed + 1\<close> by (auto simp: word_less_nat_alt)
  qed
qed

text \<open>
  Handing a frame out: the frame is the first unsent one, its bytes are the encoding of the submission
  that holds its number, and the mark covers it.
\<close>

lemma hand_out_sends:
  assumes "sends to_json s ns handed" and "find (\<lambda>f. \<not> pf_sent f) (rs_frames s) = Some f"
  defines "s' \<equiv> s\<lparr>rs_pending := lq_iter_mut (change_first (\<lambda>g. pf_seq g = pf_seq f) (\<lambda>g. g\<lparr>pf_handed_out := True\<rparr>)) (rs_pending s)\<rparr>"
  shows "sends to_json s' ns (max handed (unat (pf_seq f)))"
    "rs_frames s' = map (\<lambda>g. if pf_seq g = pf_seq f then g\<lparr>pf_handed_out := True\<rparr> else g) (rs_frames s)"
    "rs_waiting s' = rs_waiting s" "find (\<lambda>g. pf_seq g = pf_seq f) (rs_frames s) = Some f"
proof -
  note f = first_unsent [OF assms(1,2)]
  show frames: "rs_frames s' = map (\<lambda>g. if pf_seq g = pf_seq f then g\<lparr>pf_handed_out := True\<rparr> else g) (rs_frames s)"
    using walk_change_first [of pf_seq "lq_list (rs_pending s)" "pf_seq f"] sends_distinct [OF assms(1)]
    by (simp add: s'_def rs_frames_def)
  have "frame_ok to_json (rs_stream s) ns handed f" using assms(1) f(1) by (simp add: sends_def)
  then have fs: "unat (pf_seq f) \<le> length ns" by (simp add: frame_ok_def)
  show "sends to_json s' ns (max handed (unat (pf_seq f)))"
    unfolding s'_def
  proof (rule sends_change [OF assms(1)])
    show "map fn_value (lq_list (lq_iter_mut (change_first (\<lambda>g. pf_seq g = pf_seq f) (pf_handed_out_update (\<lambda>_. True))) (rs_pending s))) =
        map (\<lambda>g. if pf_seq g = pf_seq f then g\<lparr>pf_handed_out := True\<rparr> else g) (rs_frames s)"
      using frames by (simp add: s'_def rs_frames_update)
    fix g assume "g \<in> set (rs_frames s)"
    then have g: "frame_ok to_json (rs_stream s) ns handed g" using assms(1) by (simp add: sends_def)
    moreover have "pf_seq g = pf_seq f \<longleftrightarrow> unat (pf_seq g) = unat (pf_seq f)" by (simp add: word_unat_eq_iff)
    ultimately show "frame_ok to_json (rs_stream s) ns (max handed (unat (pf_seq f)))
        (if pf_seq g = pf_seq f then g\<lparr>pf_handed_out := True\<rparr> else g)"
      using f(3) by (auto simp: frame_ok_def)
  qed (use assms(1) fs in \<open>auto simp: sends_def\<close>)
  show "rs_waiting s' = rs_waiting s"
    unfolding rs_waiting_def frames by (rule arg_cong [where f = concat]) (simp add: waiting_def)
  show "find (\<lambda>g. pf_seq g = pf_seq f) (rs_frames s) = Some f"
  proof -
    obtain i where i: "i < length (rs_frames s)" "rs_frames s ! i = f" using f(1) by (auto simp: in_set_conv_nth)
    have "pf_seq (rs_frames s ! j) \<noteq> pf_seq f" if "j < i" for j
      using nth_eq_iff_index_eq [OF sends_distinct [OF assms(1)], of j i] i that by simp
    then show ?thesis using i by (auto simp: find_Some_iff)
  qed
qed

lemma next_unsent_sends:
  assumes "sends to_json s ns handed"
  shows "\<exists>s' replies unsent k handed'. next_unsent closed reserve s = Some (s', replies, unsent) \<and> handed \<le> k \<and>
    handed \<le> handed' \<and> sends to_json s' (take k ns) handed' \<and> same_session s s' \<and>
    mset (map fst replies) + mset (rs_waiting s') = mset (rs_waiting s) \<and> snd ` set replies \<subseteq> {Inl SessionGone} \<and>
    (\<forall>u. unsent = Some u \<longrightarrow> 0 < unat (uf_seq u) \<and> unat (uf_seq u) \<le> handed' \<and>
       to_json (stream_frame (rs_stream s) (take k ns) (unat (uf_seq u))) = Some (uf_bytes u) \<and>
       (\<exists>f \<in> set (rs_frames s). pf_seq f = uf_seq u \<and> \<not> pf_sent f)) \<and>
    (\<forall>f \<in> set (rs_frames s'). \<exists>g \<in> set (rs_frames s). pf_seq f = pf_seq g \<and> pf_sent f = pf_sent g)"
    (is "\<exists>s' replies unsent k handed'. ?P s' replies unsent k handed'")
proof -
  obtain s1 replies k where rel: "release_abandoned closed s = Some (s1, replies)" "handed \<le> k"
    "sends to_json s1 (take k ns) handed" "same_session s s1" "set (rs_frames s1) \<subseteq> set (rs_frames s)"
    "mset (map fst replies) + mset (rs_waiting s1) = mset (rs_waiting s)" "snd ` set replies \<subseteq> {Inl SessionGone}"
    by (rule release_abandoned_sends [OF assms])
  let ?s1 = "s1\<lparr>rs_pending := lq_merge (rs_pending s1)\<rparr>"
  have f1: "rs_frames ?s1 = rs_frames s1" by (simp add: rs_frames_def)
  have s1: "sends to_json ?s1 (take k ns) handed" "same_session s ?s1" "rs_waiting ?s1 = rs_waiting s1"
    using rel(3,4) f1 by (simp_all add: same_session_def rs_waiting_def)
  have stop: "?P ?s1 replies None k handed" if "next_unsent closed reserve s = Some (?s1, replies, None)"
    using that rel(2,5-7) s1 f1 by auto
  note step = next_unsent_def rel(1) lq_iter_list
  show ?thesis
  proof (cases "find (\<lambda>f. \<not> pf_sent f) (rs_frames s1)")
    case None
    then have "next_unsent closed reserve s = Some (?s1, replies, None)" by (simp add: step rs_frames_def)
    from stop [OF this] show ?thesis by blast
  next
    case (Some f)
    then have found: "find (\<lambda>f. \<not> pf_sent f) (rs_frames ?s1) = Some f" unfolding f1 .
    define s2 where "s2 = ?s1\<lparr>rs_pending := lq_iter_mut (change_first (\<lambda>g. pf_seq g = pf_seq f)
      (\<lambda>g. g\<lparr>pf_handed_out := True\<rparr>)) (rs_pending ?s1)\<rparr>"
    note out = hand_out_sends [OF s1(1) found, folded s2_def]
    note first = first_unsent [OF s1(1) found]
    have find: "find (\<lambda>g. pf_seq g = pf_seq f) (map fn_value (lq_list (rs_pending s1))) = Some f"
      using out(4) f1 by (simp add: rs_frames_def)
    note step = step Some [unfolded rs_frames_def] find
    show ?thesis
    proof (cases "\<exists>claim lease. transient_frame_claim (length (pf_frame f)) = Inr claim \<and> reserve claim = Inr lease")
      case False
      then have "next_unsent closed reserve s = Some (?s1, replies, None)"
        by (auto simp: step split: sum.splits)
      from stop [OF this] show ?thesis by blast
    next
      case True
      then obtain claim lease where r: "transient_frame_claim (length (pf_frame f)) = Inr claim" "reserve claim = Inr lease"
        by blast
      let ?u = "\<lparr>uf_seq = pf_seq f, uf_bytes = pf_frame f, uf_lease = lease\<rparr>"
      have "next_unsent closed reserve s = Some (s2, replies, Some ?u)" using r by (simp add: step s2_def)
      moreover have "same_session s s2" using s1(2) by (simp add: s2_def same_session_def)
      moreover have "frame_ok to_json (rs_stream s) (take k ns) handed f"
        using sendsD(5) [OF s1(1) first(1)] s1(2) by (simp add: same_session_def)
      moreover have "f \<in> set (rs_frames s)" using first(1) rel(5) unfolding f1 by blast
      moreover have "\<exists>g \<in> set (rs_frames s). pf_seq h = pf_seq g \<and> pf_sent h = pf_sent g" if h: "h \<in> set (rs_frames s2)" for h
      proof -
        obtain g where "g \<in> set (rs_frames s1)" "h = (if pf_seq g = pf_seq f then g\<lparr>pf_handed_out := True\<rparr> else g)"
          using h unfolding out(2) f1 by auto
        then show ?thesis using rel(5) by (intro bexI [of _ g]) auto
      qed
      ultimately have "?P s2 replies (Some ?u) k (max handed (unat (pf_seq f)))"
        using rel(2,6,7) out(1,3) s1(3) first(2) unfolding frame_ok_def by auto
      then show ?thesis by blast
    qed
  qed
qed

text \<open>
  An acknowledgement: on another stream it does nothing; on this one it answers \<open>Ok\<close> only to callers
  whose frames were handed out and are numbered up to the acknowledged mark.
\<close>

lemma acknowledge_sends:
  assumes "sends to_json s ns handed"
  shows "\<exists>s' replies settled k. acknowledge closed stream up_to s = Some (s', replies, settled) \<and> handed \<le> k \<and>
    sends to_json s' (take k ns) handed \<and> same_session s s' \<and>
    mset (map fst replies) + mset (rs_waiting s') = mset (rs_waiting s) \<and>
    (\<forall>c. (c, Inr ()) \<in> set replies \<longrightarrow> stream = rs_stream s \<and>
       (\<exists>j. 0 < j \<and> j \<le> unat up_to \<and> j \<le> handed \<and> c = fst (ns ! (j - 1)))) \<and>
    set (rs_frames s') \<subseteq> set (rs_frames s)"
    (is "\<exists>s' replies settled k. ?P s' replies settled k")
proof (cases "stream = rs_stream s")
  case False
  then have "?P s [] 0 (length ns)" using assms sendsD(3) [OF assms] by (simp add: acknowledge_def)
  then show ?thesis by blast
next
  case True
  obtain s1 replies k where rel: "release_abandoned closed s = Some (s1, replies)" "handed \<le> k"
    "sends to_json s1 (take k ns) handed" "same_session s s1" "set (rs_frames s1) \<subseteq> set (rs_frames s)"
    "mset (map fst replies) + mset (rs_waiting s1) = mset (rs_waiting s)" "snd ` set replies \<subseteq> {Inl SessionGone}"
    by (rule release_abandoned_sends [OF assms])
  from settle_loop_frames [OF sendsD(1) [OF rel(3)], of up_to 0] obtain s2 prefix where
    settle: "settle_loop up_to s1 0 = Some (s2, map (\<lambda>c. (c, Inr ())) (concat (map waiting prefix)), 0 + length prefix)"
      "lq_ok (rs_pending s2)" "same_session s1 s2" "rs_next_seq s2 = rs_next_seq s1"
      "rs_frames s1 = prefix @ rs_frames s2" "prefix = takeWhile (\<lambda>f. pf_sent f \<and> pf_seq f \<le> up_to) (rs_frames s1)"
    by blast
  have sent: "pf_sent f \<and> pf_seq f \<le> up_to \<and> frame_ok to_json (rs_stream s1) (take k ns) handed f" if "f \<in> set prefix" for f
    using that settle(5,6) sendsD(5) [OF rel(3), of f] by (metis (no_types, lifting) Un_iff set_append set_takeWhileD)
  have waits1: "mset (rs_waiting s1) = mset (concat (map waiting prefix)) + mset (rs_waiting s2)"
    using settle(5) by (simp add: rs_waiting_def)
  have "sends to_json s2 (take k ns) handed"
  proof (rule sends_subseq [OF rel(3) settle(2-4)])
    show "subseq (rs_frames s2) (rs_frames s1)" unfolding settle(5) by (rule list_emb_append2) simp
    show "f \<in> set (rs_frames s2)" if "f \<in> set (rs_frames s1)" "\<not> pf_handed_out f" for f
      using that settle(5) sent [of f] by (auto simp: frame_ok_def)
  qed
  moreover have "\<exists>j. 0 < j \<and> j \<le> unat up_to \<and> j \<le> handed \<and> c = fst (ns ! (j - 1))"
    if "(c, Inr ()) \<in> set (replies @ map (\<lambda>c. (c, Inr ())) (concat (map waiting prefix)))" for c
  proof -
    have "c \<in> set (concat (map waiting prefix))" using that rel(7) by auto
    then obtain f where f: "f \<in> set prefix" "pf_reply f = Some c" by (auto simp: waiting_def split: option.splits)
    note ok = sent [OF f(1)]
    then have "unat (pf_seq f) \<le> handed" "0 < unat (pf_seq f)" "c = fst (ns ! (unat (pf_seq f) - 1))"
      using f(2) rel(2) by (auto simp: frame_ok_def)
    then show ?thesis using ok by (intro exI [of _ "unat (pf_seq f)"]) (simp add: word_le_nat_alt)
  qed
  moreover have "mset (map fst (replies @ map (\<lambda>c. (c, Inr ())) (concat (map waiting prefix)))) + mset (rs_waiting s2) =
      mset (rs_waiting s)"
    using rel(6) waits1 by (simp add: comp_def add.assoc)
  moreover have "same_session s s2" using rel(4) settle(3) by (rule same_session_trans)
  moreover have "set (rs_frames s2) \<subseteq> set (rs_frames s)" using rel(5) settle(5) by auto
  moreover have "acknowledge closed stream up_to s =
      Some (s2, replies @ map (\<lambda>c. (c, Inr ())) (concat (map waiting prefix)), length prefix)"
    using True rel(1) settle(1) by (simp add: acknowledge_def)
  ultimately have "?P s2 (replies @ map (\<lambda>c. (c, Inr ())) (concat (map waiting prefix))) (length prefix) k"
    using True rel(2) by blast
  then show ?thesis by blast
qed

lemma reliable_drop_waiting:
  "map fst (reliable_drop s) = rs_waiting s" "snd ` set (reliable_drop s) \<subseteq> {Inl SessionGone}"
proof -
  have d: "reliable_drop s = concat (map frame_drop (rs_frames s))"
    by (simp add: reliable_drop_def rs_frames_def)
  show "map fst (reliable_drop s) = rs_waiting s" unfolding d fst_frame_drops rs_waiting_def ..
  show "snd ` set (reliable_drop s) \<subseteq> {Inl SessionGone}" unfolding d frame_drops by auto
qed

text \<open>With every caller still there the sweep changes nothing.\<close>

lemma lq_merge_merged: "lq_newest q = [] \<Longrightarrow> lq_merge q = q"
  by (simp add: lq_merge_def)

lemma lq_retain_all:
  assumes "lq_ok q" "\<And>f. f \<in> set (lq_list q) \<Longrightarrow> keep (fn_value f)"
  shows "lq_retain keep q = (lq_merge q, [])"
proof -
  have "filter (keep \<circ> fn_value) (lq_list q) = lq_list q" "filter (Not \<circ> keep \<circ> fn_value) (lq_list q) = []"
    using assms(2) by (auto simp: filter_empty_conv filter_id_conv)
  then have "lq_retain keep q = ((lq_merge q)\<lparr>lq_oldest := lq_list q, lq_len := length (lq_list q)\<rparr>, [])"
    by (simp add: lq_retain_def Let_def retain_loop_filter)
  also have "(lq_merge q)\<lparr>lq_oldest := lq_list q, lq_len := length (lq_list q)\<rparr> = lq_merge q"
    using assms(1) by (intro leased_queue.equality) (simp_all add: lq_ok_def)
  finally show ?thesis .
qed

lemma release_abandoned_live:
  assumes "lq_ok (rs_pending s)" and live: "\<And>f. f \<in> set (rs_frames s) \<Longrightarrow> \<not> abandoned closed f"
  shows "release_abandoned closed s = Some (s\<lparr>rs_pending := lq_merge (rs_pending s)\<rparr>, [])"
proof -
  have "rs_frames s \<noteq> [] \<Longrightarrow> \<not> abandoned closed (last (rs_frames s))" using live [OF last_in_set] by simp
  then have "\<not> (map fn_value (lq_list (rs_pending s)) \<noteq> [] \<and> \<not> pf_handed_out (last (map fn_value (lq_list (rs_pending s)))) \<and>
      abandoned closed (last (map fn_value (lq_list (rs_pending s)))))"
    unfolding rs_frames_def by blast
  then have "release_tail closed s = Some (s\<lparr>rs_pending := lq_merge (rs_pending s)\<rparr>, [])"
    by (subst release_tail.simps) (simp only: lq_iter_list prod.case if_False)
  moreover have "lq_retain (\<lambda>f. \<not> (pf_sent f \<and> abandoned closed f)) (lq_merge (rs_pending s)) = (lq_merge (rs_pending s), [])"
    using lq_retain_all [of "lq_merge (rs_pending s)" "\<lambda>f. \<not> (pf_sent f \<and> abandoned closed f)"] assms
    by (auto simp: rs_frames_def lq_merge_merged)
  ultimately show ?thesis by (simp add: release_abandoned_def)
qed

end
