(* ===== verification/Reliable_Stream.thy ===== *)
theory Reliable_Stream
  imports Reliable_Sender
begin

text \<open>
  Two sessions joined by a network (\<open>engine/reliable.rs\<close>): submission, the flush with its write outside
  the fence, the sweep, inbound frames and acknowledgements, callers that go away, and the end of
  either session, as a step relation. The network may lose, duplicate and reorder frames and
  acknowledgements, a write may fail with its bytes on the wire, any number of writes may be under
  way, and frames and acknowledgements of other streams may arrive at any time. The JSON codec, the
  size of a queue node and the answers of the provider and the gateway are parameters of the steps.
\<close>

section \<open>The system\<close>

record ('c, 'l, 'p) link_state =
  ls_sender :: "('c, 'l) reliable_state"
  ls_sending :: bool
  ls_gone :: "'c set"
  ls_writing :: "'l unsent_frame list"
  ls_wire :: "byte list set"
  ls_acks :: "(u64 \<times> u64) set"
  ls_receiver :: "('c, 'l) reliable_state"
  ls_receiving :: bool
  ls_log :: "(string \<times> 'p) list"
  ls_submitted :: "('c, 'p) submission list"
  ls_replies :: "'c reply list"

definition link_start :: "u64 \<Rightarrow> u64 \<Rightarrow> ('c, 'l, 'p) link_state" where
  "link_start random random' =
     \<lparr>ls_sender = reliable_new random, ls_sending = True, ls_gone = {}, ls_writing = [], ls_wire = {},
      ls_acks = {}, ls_receiver = reliable_new random', ls_receiving = True, ls_log = [],
      ls_submitted = [], ls_replies = []\<rparr>"

definition log_accept ::
    "gateway_refusal option \<Rightarrow> string \<Rightarrow> 'p \<Rightarrow> (string \<times> 'p) list \<Rightarrow> gateway_refusal + (string \<times> 'p) list" where
  "log_accept refusal channel payload log =
     (case refusal of None \<Rightarrow> Inr (log @ [(channel, payload)]) | Some e \<Rightarrow> Inl e)"

inductive link_step ::
    "('p channel_seq \<Rightarrow> byte list option) \<Rightarrow> (byte list \<Rightarrow> 'p channel_seq option) \<Rightarrow> nat \<Rightarrow>
     ('c, 'l, 'p) link_state \<Rightarrow> ('c, 'l, 'p) link_state \<Rightarrow> bool"
  for to_json from_json node_size where
  submits: "\<lbrakk>ls_sending st; c \<notin> fst ` set (ls_submitted st);
     submit to_json node_size reserve_frame reserve_node channel payload c (ls_sender st) = Some (s, replies)\<rbrakk> \<Longrightarrow>
   link_step to_json from_json node_size st
     (st\<lparr>ls_sender := s, ls_submitted := ls_submitted st @ [(c, channel, payload)],
         ls_replies := ls_replies st @ replies\<rparr>)"
| caller_goes: "link_step to_json from_json node_size st (st\<lparr>ls_gone := insert c (ls_gone st)\<rparr>)"
| ticks: "\<lbrakk>ls_sending st; has_unsent (\<lambda>c. c \<in> ls_gone st) (ls_sender st) = Some (s, replies, unsent)\<rbrakk> \<Longrightarrow>
   link_step to_json from_json node_size st (st\<lparr>ls_sender := s, ls_replies := ls_replies st @ replies\<rparr>)"
| hands_out: "\<lbrakk>ls_sending st; next_unsent (\<lambda>c. c \<in> ls_gone st) reserve (ls_sender st) = Some (s, replies, unsent)\<rbrakk> \<Longrightarrow>
   link_step to_json from_json node_size st
     (st\<lparr>ls_sender := s, ls_replies := ls_replies st @ replies,
         ls_writing := (case unsent of None \<Rightarrow> [] | Some u \<Rightarrow> [u]) @ ls_writing st\<rparr>)"
| reaches_wire: "u \<in> set (ls_writing st) \<Longrightarrow>
   link_step to_json from_json node_size st (st\<lparr>ls_wire := insert (uf_bytes u) (ls_wire st)\<rparr>)"
| write_done: "\<lbrakk>ls_sending st; u \<in> set (ls_writing st)\<rbrakk> \<Longrightarrow>
   link_step to_json from_json node_size st
     (st\<lparr>ls_sender := mark_sent (uf_seq u) (ls_sender st), ls_writing := remove1 u (ls_writing st)\<rparr>)"
| write_failed: "u \<in> set (ls_writing st) \<Longrightarrow>
   link_step to_json from_json node_size st (st\<lparr>ls_writing := remove1 u (ls_writing st)\<rparr>)"
| receives: "\<lbrakk>ls_receiving st; bytes \<in> ls_wire st; from_json bytes = Some frame;
     on_channel_seq (log_accept refusal) frame (ls_receiver st) (ls_log st) = (r, log, effect)\<rbrakk> \<Longrightarrow>
   link_step to_json from_json node_size st
     (st\<lparr>ls_receiver := r, ls_log := log, ls_receiving := (effect \<noteq> RetireSession),
         ls_acks := (case effect of AckPeer stream up_to \<Rightarrow> insert (stream, up_to) (ls_acks st) | _ \<Rightarrow> ls_acks st)\<rparr>)"
| acknowledged: "\<lbrakk>ls_sending st; (stream, up_to) \<in> ls_acks st;
     acknowledge (\<lambda>c. c \<in> ls_gone st) stream up_to (ls_sender st) = Some (s, replies, settled)\<rbrakk> \<Longrightarrow>
   link_step to_json from_json node_size st (st\<lparr>ls_sender := s, ls_replies := ls_replies st @ replies\<rparr>)"
| stray_frame: "\<lbrakk>from_json bytes = Some frame; cs_stream frame \<noteq> rs_stream (ls_sender st)\<rbrakk> \<Longrightarrow>
   link_step to_json from_json node_size st (st\<lparr>ls_wire := insert bytes (ls_wire st)\<rparr>)"
| stray_ack: "stream \<noteq> rs_stream (ls_sender st) \<Longrightarrow>
   link_step to_json from_json node_size st (st\<lparr>ls_acks := insert (stream, up_to) (ls_acks st)\<rparr>)"
| sender_ends: "ls_sending st \<Longrightarrow>
   link_step to_json from_json node_size st
     (st\<lparr>ls_sending := False, ls_replies := ls_replies st @ reliable_drop (ls_sender st)\<rparr>)"
| receiver_ends: "link_step to_json from_json node_size st (st\<lparr>ls_receiving := False\<rparr>)"

inductive link_reach ::
    "('p channel_seq \<Rightarrow> byte list option) \<Rightarrow> (byte list \<Rightarrow> 'p channel_seq option) \<Rightarrow> nat \<Rightarrow>
     ('c, 'l, 'p) link_state \<Rightarrow> ('c, 'l, 'p) link_state \<Rightarrow> bool"
  for to_json from_json node_size start where
  reach_start: "link_reach to_json from_json node_size start start"
| reach_step: "\<lbrakk>link_reach to_json from_json node_size start st; link_step to_json from_json node_size st st'\<rbrakk> \<Longrightarrow>
   link_reach to_json from_json node_size start st'"

section \<open>The invariant\<close>

text \<open>
  What the receiver has of the sender's stream: nothing unless it is bound to it.
\<close>

definition received :: "('c, 'l, 'p) link_state \<Rightarrow> nat" where
  "received st =
     (if im_stream (rs_inbound (ls_receiver st)) = Some (rs_stream (ls_sender st))
      then unat (im_last_seq (rs_inbound (ls_receiver st))) else 0)"

lemma received_update [simp]:
  "received (st\<lparr>ls_gone := g\<rparr>) = received st" "received (st\<lparr>ls_writing := w\<rparr>) = received st"
  "received (st\<lparr>ls_wire := b\<rparr>) = received st" "received (st\<lparr>ls_acks := a\<rparr>) = received st"
  "received (st\<lparr>ls_sending := p\<rparr>) = received st" "received (st\<lparr>ls_receiving := p\<rparr>) = received st"
  "received (st\<lparr>ls_replies := rs\<rparr>) = received st" "received (st\<lparr>ls_submitted := sub\<rparr>) = received st"
  "received (st\<lparr>ls_log := l\<rparr>) = received st"
  "rs_stream s = rs_stream (ls_sender st) \<Longrightarrow> received (st\<lparr>ls_sender := s\<rparr>) = received st"
  by (simp_all add: received_def)

definition wire_ok ::
    "('p channel_seq \<Rightarrow> byte list option) \<Rightarrow> (byte list \<Rightarrow> 'p channel_seq option) \<Rightarrow> u64 \<Rightarrow> ('c, 'p) submission list \<Rightarrow>
     nat \<Rightarrow> byte list \<Rightarrow> bool" where
  "wire_ok to_json from_json stream ns handed bytes \<longleftrightarrow>
     (\<forall>frame. from_json bytes = Some frame \<longrightarrow> cs_stream frame = stream \<longrightarrow>
        (\<exists>k. 0 < k \<and> k \<le> handed \<and> k \<le> length ns \<and> frame = stream_frame stream ns k))"

definition receiver_ok :: "('c, 'l, 'p) link_state \<Rightarrow> ('c, 'p) submission list \<Rightarrow> nat \<Rightarrow> bool" where
  "receiver_ok st ns handed \<longleftrightarrow>
     received st \<le> handed \<and> received st \<le> length ns \<and>
     (im_stream (rs_inbound (ls_receiver st)) = None \<longrightarrow> im_last_seq (rs_inbound (ls_receiver st)) = 0 \<and> ls_log st = []) \<and>
     (im_stream (rs_inbound (ls_receiver st)) = Some (rs_stream (ls_sender st)) \<longrightarrow>
        ls_log st = map snd (take (received st) ns))"

definition unanswered :: "('c, 'l, 'p) link_state \<Rightarrow> 'c multiset" where
  "unanswered st = (if ls_sending st then mset (rs_waiting (ls_sender st)) else {#})"

lemma unanswered_update [simp]:
  "unanswered (st\<lparr>ls_gone := g\<rparr>) = unanswered st" "unanswered (st\<lparr>ls_writing := w\<rparr>) = unanswered st"
  "unanswered (st\<lparr>ls_wire := b\<rparr>) = unanswered st" "unanswered (st\<lparr>ls_acks := a\<rparr>) = unanswered st"
  "unanswered (st\<lparr>ls_receiver := r\<rparr>) = unanswered st" "unanswered (st\<lparr>ls_receiving := p\<rparr>) = unanswered st"
  "unanswered (st\<lparr>ls_replies := rs\<rparr>) = unanswered st" "unanswered (st\<lparr>ls_submitted := sub\<rparr>) = unanswered st"
  "unanswered (st\<lparr>ls_log := l\<rparr>) = unanswered st" "unanswered (st\<lparr>ls_sending := False\<rparr>) = {#}"
  "ls_sending st \<Longrightarrow> unanswered (st\<lparr>ls_sender := s\<rparr>) = mset (rs_waiting s)"
  "rs_waiting s = rs_waiting (ls_sender st) \<Longrightarrow> unanswered (st\<lparr>ls_sender := s\<rparr>) = unanswered st"
  by (simp_all add: unanswered_def)

lemma unanswered_sending: "ls_sending st \<Longrightarrow> unanswered st = mset (rs_waiting (ls_sender st))"
  by (simp add: unanswered_def)

definition answers_ok :: "('c, 'l, 'p) link_state \<Rightarrow> ('c, 'p) submission list \<Rightarrow> bool" where
  "answers_ok st ns \<longleftrightarrow>
     distinct (map fst (ls_submitted st)) \<and> subseq ns (ls_submitted st) \<and>
     mset (map fst (ls_replies st)) + unanswered st = mset (map fst (ls_submitted st)) \<and>
     (\<forall>c. (c, Inr ()) \<in> set (ls_replies st) \<longrightarrow> c \<in> fst ` set (take (received st) ns))"

definition link_ok ::
    "('p channel_seq \<Rightarrow> byte list option) \<Rightarrow> (byte list \<Rightarrow> 'p channel_seq option) \<Rightarrow> ('c, 'l, 'p) link_state \<Rightarrow>
     ('c, 'p) submission list \<Rightarrow> nat \<Rightarrow> bool" where
  "link_ok to_json from_json st ns handed \<longleftrightarrow>
     sends to_json (ls_sender st) ns handed \<and>
     (\<forall>u \<in> set (ls_writing st). 0 < unat (uf_seq u) \<and> unat (uf_seq u) \<le> handed \<and>
        to_json (stream_frame (rs_stream (ls_sender st)) ns (unat (uf_seq u))) = Some (uf_bytes u)) \<and>
     (\<forall>bytes \<in> ls_wire st. wire_ok to_json from_json (rs_stream (ls_sender st)) ns handed bytes) \<and>
     (\<forall>(stream, up_to) \<in> ls_acks st. stream = rs_stream (ls_sender st) \<longrightarrow> unat up_to \<le> received st) \<and>
     receiver_ok st ns handed \<and> answers_ok st ns"

lemma link_okD:
  assumes "link_ok to_json from_json st ns handed"
  shows "sends to_json (ls_sender st) ns handed"
    "\<And>u. u \<in> set (ls_writing st) \<Longrightarrow> 0 < unat (uf_seq u) \<and> unat (uf_seq u) \<le> handed \<and>
        to_json (stream_frame (rs_stream (ls_sender st)) ns (unat (uf_seq u))) = Some (uf_bytes u)"
    "\<And>bytes. bytes \<in> ls_wire st \<Longrightarrow> wire_ok to_json from_json (rs_stream (ls_sender st)) ns handed bytes"
    "\<And>up_to. (rs_stream (ls_sender st), up_to) \<in> ls_acks st \<Longrightarrow> unat up_to \<le> received st"
    "receiver_ok st ns handed" "answers_ok st ns"
  using assms unfolding link_ok_def by blast+

lemma link_okI:
  assumes "sends to_json (ls_sender st) ns handed"
    "\<And>u. u \<in> set (ls_writing st) \<Longrightarrow> 0 < unat (uf_seq u) \<and> unat (uf_seq u) \<le> handed \<and>
        to_json (stream_frame (rs_stream (ls_sender st)) ns (unat (uf_seq u))) = Some (uf_bytes u)"
    "\<And>bytes. bytes \<in> ls_wire st \<Longrightarrow> wire_ok to_json from_json (rs_stream (ls_sender st)) ns handed bytes"
    "\<And>up_to. (rs_stream (ls_sender st), up_to) \<in> ls_acks st \<Longrightarrow> unat up_to \<le> received st"
    "receiver_ok st ns handed" "answers_ok st ns"
  shows "link_ok to_json from_json st ns handed"
  using assms unfolding link_ok_def by blast

lemma wire_ok_extend:
  assumes "wire_ok to_json from_json stream ns handed bytes" "handed \<le> handed'"
    and "\<And>k. \<lbrakk>0 < k; k \<le> handed; k \<le> length ns\<rbrakk> \<Longrightarrow> k \<le> length ns' \<and> stream_frame stream ns' k = stream_frame stream ns k"
  shows "wire_ok to_json from_json stream ns' handed' bytes"
  unfolding wire_ok_def
proof (intro allI impI)
  fix frame assume "from_json bytes = Some frame" "cs_stream frame = stream"
  then obtain k where k: "0 < k" "k \<le> handed" "k \<le> length ns" "frame = stream_frame stream ns k"
    using assms(1) by (auto simp: wire_ok_def)
  then show "\<exists>k. 0 < k \<and> k \<le> handed' \<and> k \<le> length ns' \<and> frame = stream_frame stream ns' k"
    using assms(2) assms(3) [OF k(1-3)] by (intro exI [of _ k]) simp
qed

lemma receiver_okD:
  "receiver_ok st ns handed \<Longrightarrow> received st \<le> handed" "receiver_ok st ns handed \<Longrightarrow> received st \<le> length ns"
  by (simp_all add: receiver_ok_def)

text \<open>Steps of the sender that keep the frames up to the mark.\<close>

lemma link_ok_sender:
  assumes ok: "link_ok to_json from_json st ns handed" and sending: "ls_sending st"
    and s: "sends to_json s (take k ns) handed'" "handed \<le> k" "handed \<le> handed'" "same_session (ls_sender st) s"
    and replies: "mset (map fst replies) + mset (rs_waiting s) = mset (rs_waiting (ls_sender st))"
      "\<And>c. (c, Inr ()) \<in> set replies \<Longrightarrow> c \<in> fst ` set (take (received st) ns)"
    and us: "\<And>u. u \<in> set us \<Longrightarrow> 0 < unat (uf_seq u) \<and> unat (uf_seq u) \<le> handed' \<and>
        to_json (stream_frame (rs_stream (ls_sender st)) (take k ns) (unat (uf_seq u))) = Some (uf_bytes u)"
  shows "link_ok to_json from_json
    (st\<lparr>ls_sender := s, ls_replies := ls_replies st @ replies, ls_writing := us @ ls_writing st\<rparr>) (take k ns) handed'"
    (is "link_ok to_json from_json ?st (take k ns) handed'")
proof -
  note d = link_okD [OF ok]
  have len: "handed \<le> length ns" using sendsD(3) [OF d(1)] .
  have stream: "rs_stream s = rs_stream (ls_sender st)" using s(4) by (simp add: same_session_def)
  have rec: "received ?st = received st" by (simp add: received_def stream)
  have "received st \<le> k" using receiver_okD(1) [OF d(5)] s(2) by linarith
  then have taken: "take (received st) (take k ns) = take (received st) ns" by (simp add: min_def)
  show ?thesis
  proof (rule link_okI)
    show "sends to_json (ls_sender ?st) (take k ns) handed'" using s(1) by simp
    show "0 < unat (uf_seq u) \<and> unat (uf_seq u) \<le> handed' \<and>
        to_json (stream_frame (rs_stream (ls_sender ?st)) (take k ns) (unat (uf_seq u))) = Some (uf_bytes u)"
      if "u \<in> set (ls_writing ?st)" for u
      using that us [of u] d(2) [of u] s(2,3) by (auto simp: stream stream_frame_take)
    show "wire_ok to_json from_json (rs_stream (ls_sender ?st)) (take k ns) handed' bytes" if "bytes \<in> ls_wire ?st" for bytes
    proof -
      have "bytes \<in> ls_wire st" using that by simp
      from wire_ok_extend [OF d(3) [OF this] s(3), of "take k ns"] show ?thesis
        using s(2) len by (simp add: stream stream_frame_take)
    qed
    show "unat up_to \<le> received ?st" if "(rs_stream (ls_sender ?st), up_to) \<in> ls_acks ?st" for up_to
      using that d(4) [of up_to] rec by (simp add: stream)
    show "receiver_ok ?st (take k ns) handed'"
      using d(5) s(2,3) len rec taken by (simp add: receiver_ok_def stream)
    have "subseq (take k ns) (ls_submitted st)"
      using d(6) subseq_order.trans [of "take k ns" ns] by (simp add: answers_ok_def take_is_prefix prefix_imp_subseq)
    then show "answers_ok ?st (take k ns)"
      using d(6) sending replies rec taken by (auto simp: answers_ok_def add.assoc unanswered_sending)
  qed
qed

lemma link_ok_submit:
  assumes ok: "link_ok to_json from_json st ns handed" and sending: "ls_sending st"
    and fresh: "c \<notin> fst ` set (ls_submitted st)"
    and run: "submit to_json node_size reserve_frame reserve_node channel payload c (ls_sender st) = Some (s, replies)"
  shows "\<exists>ns. link_ok to_json from_json
    (st\<lparr>ls_sender := s, ls_submitted := ls_submitted st @ [(c, channel, payload)], ls_replies := ls_replies st @ replies\<rparr>) ns handed"
proof -
  note d = link_okD [OF ok]
  let ?st = "st\<lparr>ls_sender := s, ls_submitted := ls_submitted st @ [(c, channel, payload)], ls_replies := ls_replies st @ replies\<rparr>"
  show ?thesis
  proof (cases rule: submit_sends [OF d(1), of node_size reserve_frame reserve_node channel payload c])
    case (1 e)
    then have s: "s = ls_sender st" "replies = [(c, Inl e)]" using run by simp_all
    have "received ?st = received st" by (simp add: received_def s)
    moreover have "subseq ns (ls_submitted st @ [(c, channel, payload)])"
      using d(6) by (simp add: answers_ok_def subseq_rev_drop_many)
    ultimately have "link_ok to_json from_json ?st ns handed"
      using d fresh sending by (auto simp: s link_ok_def receiver_ok_def answers_ok_def unanswered_sending)
    then show ?thesis by blast
  next
    case (2 s')
    let ?ns = "ns @ [(c, channel, payload)]"
    have s: "s' = s" "replies = []" using run 2(1) by simp_all
    have stream: "rs_stream s = rs_stream (ls_sender st)" using 2(3) s by (simp add: same_session_def)
    have rec: "received ?st = received st" by (simp add: received_def stream)
    have taken: "take (received st) ?ns = take (received st) ns" using receiver_okD(2) [OF d(5)] by simp
    have len: "handed \<le> length ns" using sendsD(3) [OF d(1)] .
    have "link_ok to_json from_json ?st ?ns handed"
    proof (rule link_okI)
      show "sends to_json (ls_sender ?st) ?ns handed" using 2(2) s by simp
      show "0 < unat (uf_seq u) \<and> unat (uf_seq u) \<le> handed \<and>
          to_json (stream_frame (rs_stream (ls_sender ?st)) ?ns (unat (uf_seq u))) = Some (uf_bytes u)"
        if "u \<in> set (ls_writing ?st)" for u
        using that d(2) [of u] len by (auto simp: stream stream_frame_append)
      show "wire_ok to_json from_json (rs_stream (ls_sender ?st)) ?ns handed bytes" if "bytes \<in> ls_wire ?st" for bytes
      proof -
        have "bytes \<in> ls_wire st" using that by simp
        from wire_ok_extend [OF d(3) [OF this] order_refl, of ?ns] show ?thesis
          by (simp add: stream stream_frame_append)
      qed
      show "unat up_to \<le> received ?st" if "(rs_stream (ls_sender ?st), up_to) \<in> ls_acks ?st" for up_to
        using that d(4) [of up_to] rec by (simp add: stream)
      show "receiver_ok ?st ?ns handed" using d(5) rec taken by (simp add: receiver_ok_def stream)
      have "subseq ?ns (ls_submitted st @ [(c, channel, payload)])"
        using d(6) by (simp add: answers_ok_def list_emb_append_mono)
      then show "answers_ok ?st ?ns"
        using d(6) sending fresh 2(4) rec taken by (auto simp: answers_ok_def s unanswered_sending)
    qed
    then show ?thesis by blast
  qed
qed

text \<open>
  A received frame: on a stream the receiver is not bound to it does nothing. Otherwise the receiver is
  bound to its stream, and either the mark and the log stay, or the frame is the next one and both move.
\<close>

lemma try_receive_bound:
  assumes "im_stream (rs_inbound r) = None \<or> im_stream (rs_inbound r) = Some stream"
  shows "try_receive stream seq payload deliver r d =
    (let r1 = r\<lparr>rs_inbound := (rs_inbound r)\<lparr>im_stream := Some stream\<rparr>\<rparr>; mark = im_last_seq (rs_inbound r) in
     case checked_add mark 1 of
       None \<Rightarrow> (r1, d, Inr (Gap mark))
     | Some expected \<Rightarrow>
         if seq = expected
         then (case deliver payload d of
                 Inl e \<Rightarrow> (r1, d, Inl e)
               | Inr d \<Rightarrow> (r1\<lparr>rs_inbound := (rs_inbound r1)\<lparr>im_last_seq := seq\<rparr>\<rparr>, d, Inr (Delivered seq)))
         else if seq < expected then (r1, d, Inr (Duplicate mark)) else (r1, d, Inr (Gap mark)))"
proof -
  have "\<not> (im_stream (rs_inbound r) \<noteq> None \<and> im_stream (rs_inbound r) \<noteq> Some stream)" using assms by argo
  then show ?thesis unfolding try_receive_def Let_def by (simp only: if_False simp_thms)
qed

lemma on_channel_seq_bound:
  fixes frame :: "'p channel_seq" and r :: "('c, 'l) reliable_state"
  assumes "on_channel_seq (log_accept refusal) frame r log = (r', log', effect)"
    and bound: "im_stream (rs_inbound r) = None \<or> im_stream (rs_inbound r) = Some (cs_stream frame)"
  defines "r1 \<equiv> r\<lparr>rs_inbound := (rs_inbound r)\<lparr>im_stream := Some (cs_stream frame)\<rparr>\<rparr>"
    and "mark \<equiv> im_last_seq (rs_inbound r)"
  shows "r' = r1 \<and> log' = log \<and> effect \<in> {NoEffect, RetireSession, AckPeer (cs_stream frame) mark} \<or>
    checked_add mark 1 = Some (cs_seq frame) \<and> r' = r1\<lparr>rs_inbound := (rs_inbound r1)\<lparr>im_last_seq := cs_seq frame\<rparr>\<rparr> \<and>
    log' = log @ [(cs_channel frame, cs_payload frame)] \<and> effect = AckPeer (cs_stream frame) (cs_seq frame)"
proof -
  note run = assms(1) [unfolded on_channel_seq_def try_receive_bound [OF bound] Let_def, folded r1_def mark_def]
  show ?thesis
  proof (cases "checked_add mark 1")
    case None
    then show ?thesis using run by simp
  next
    case (Some expected)
    show ?thesis
    proof (cases "cs_seq frame = expected")
      case True
      then show ?thesis using run Some
        by (cases refusal) (auto simp: log_accept_def split: gateway_refusal.splits)
    next
      case False
      then show ?thesis using run Some by (cases "cs_seq frame < expected") simp_all
    qed
  qed
qed

lemma on_channel_seq_cases:
  assumes "on_channel_seq (log_accept refusal) frame r log = (r', log', effect)"
  obtains (unbound) "im_stream (rs_inbound r) \<noteq> None" "im_stream (rs_inbound r) \<noteq> Some (cs_stream frame)"
    "r' = r" "log' = log" "effect = NoEffect"
  | (stays) "im_stream (rs_inbound r) = None \<or> im_stream (rs_inbound r) = Some (cs_stream frame)"
    "im_stream (rs_inbound r') = Some (cs_stream frame)" "im_last_seq (rs_inbound r') = im_last_seq (rs_inbound r)"
    "log' = log" "effect \<in> {NoEffect, RetireSession, AckPeer (cs_stream frame) (im_last_seq (rs_inbound r))}"
  | (moves) "im_stream (rs_inbound r) = None \<or> im_stream (rs_inbound r) = Some (cs_stream frame)"
    "im_stream (rs_inbound r') = Some (cs_stream frame)"
    "unat (cs_seq frame) = unat (im_last_seq (rs_inbound r)) + 1" "im_last_seq (rs_inbound r') = cs_seq frame"
    "log' = log @ [(cs_channel frame, cs_payload frame)]" "effect = AckPeer (cs_stream frame) (cs_seq frame)"
proof (cases "im_stream (rs_inbound r) \<noteq> None \<and> im_stream (rs_inbound r) \<noteq> Some (cs_stream frame)")
  case True
  then have "try_receive (cs_stream frame) (cs_seq frame) (cs_payload frame) (log_accept refusal (cs_channel frame)) r log =
      (r, log, Inr ForeignStream)"
    unfolding try_receive_def Let_def by (simp only: if_True simp_thms)
  then show ?thesis using assms True by (intro unbound) (simp_all add: on_channel_seq_def)
next
  case False
  then have bound: "im_stream (rs_inbound r) = None \<or> im_stream (rs_inbound r) = Some (cs_stream frame)" by argo
  from on_channel_seq_bound [OF assms this] show ?thesis
  proof (elim disjE conjE)
    assume "r' = r\<lparr>rs_inbound := (rs_inbound r)\<lparr>im_stream := Some (cs_stream frame)\<rparr>\<rparr>" "log' = log"
      "effect \<in> {NoEffect, RetireSession, AckPeer (cs_stream frame) (im_last_seq (rs_inbound r))}"
    then show ?thesis by (intro stays [OF bound]) simp_all
  next
    assume "checked_add (im_last_seq (rs_inbound r)) 1 = Some (cs_seq frame)"
      "r' = r\<lparr>rs_inbound := (rs_inbound r)\<lparr>im_stream := Some (cs_stream frame)\<rparr>,
        rs_inbound := (rs_inbound (r\<lparr>rs_inbound := (rs_inbound r)\<lparr>im_stream := Some (cs_stream frame)\<rparr>\<rparr>))\<lparr>im_last_seq := cs_seq frame\<rparr>\<rparr>"
      "log' = log @ [(cs_channel frame, cs_payload frame)]" "effect = AckPeer (cs_stream frame) (cs_seq frame)"
    then show ?thesis by (intro moves [OF bound]) (simp_all add: checked_add_Some_iff)
  qed
qed

lemma link_ok_receive:
  assumes ok: "link_ok to_json from_json st ns handed"
    and bytes: "bytes \<in> ls_wire st" "from_json bytes = Some frame"
    and run: "on_channel_seq (log_accept refusal) frame (ls_receiver st) (ls_log st) = (r, log, effect)"
  shows "link_ok to_json from_json
    (st\<lparr>ls_receiver := r, ls_log := log, ls_receiving := (effect \<noteq> RetireSession),
        ls_acks := (case effect of AckPeer stream up_to \<Rightarrow> insert (stream, up_to) (ls_acks st) | _ \<Rightarrow> ls_acks st)\<rparr>) ns handed"
    (is "link_ok to_json from_json ?st ns handed")
proof -
  note d = link_okD [OF ok]
  let ?ours = "rs_stream (ls_sender st)"
  have rest: "received st \<le> received ?st \<Longrightarrow> receiver_ok ?st ns handed \<Longrightarrow>
      (\<And>up_to. effect = AckPeer ?ours up_to \<Longrightarrow> unat up_to \<le> received ?st) \<Longrightarrow> link_ok to_json from_json ?st ns handed"
  proof (rule link_okI)
    assume le: "received st \<le> received ?st" and ack: "\<And>up_to. effect = AckPeer ?ours up_to \<Longrightarrow> unat up_to \<le> received ?st"
    show "unat up_to \<le> received ?st" if "(rs_stream (ls_sender ?st), up_to) \<in> ls_acks ?st" for up_to
      using that ack [of up_to] d(4) [of up_to] le by (cases effect) (auto split: if_splits)
    have "fst ` set (take (received st) ns) \<subseteq> fst ` set (take (received ?st) ns)"
      using set_take_subset_set_take [OF le] by (rule image_mono)
    then show "answers_ok ?st ns" using d(6) unfolding answers_ok_def by (simp add: subset_iff)
  qed (use d in simp_all)
  from run show ?thesis
  proof (cases rule: on_channel_seq_cases)
    case unbound
    then have "received ?st = received st" by (simp add: received_def)
    then show ?thesis using unbound d(5) by (intro rest) (simp_all add: receiver_ok_def)
  next
    case stays
    have last0: "im_stream (rs_inbound (ls_receiver st)) = None \<Longrightarrow> im_last_seq (rs_inbound (ls_receiver st)) = 0 \<and> ls_log st = []"
      using d(5) by (simp add: receiver_ok_def)
    then have rec: "received ?st = received st" using stays by (auto simp: received_def)
    show ?thesis
    proof (rule rest)
      show "receiver_ok ?st ns handed" using d(5) stays rec last0 by (auto simp: receiver_ok_def received_def)
      show "unat up_to \<le> received ?st" if "effect = AckPeer ?ours up_to" for up_to
        using that stays by (auto simp: received_def)
    qed (use rec in simp)
  next
    case moves
    show ?thesis
    proof (cases "cs_stream frame = ?ours")
      case False
      then have "received ?st = 0" "received st = 0" using moves by (auto simp: received_def)
      then show ?thesis using moves False d(5) by (intro rest) (simp_all add: receiver_ok_def)
    next
      case True
      then obtain k where k: "0 < k" "k \<le> handed" "k \<le> length ns" "frame = stream_frame ?ours ns k"
        using d(3) [OF bytes(1)] bytes(2) by (auto simp: wire_ok_def)
      have "length ns < 2 ^ 64" using sendsD(2) [OF d(1)] unat_bound [of "rs_next_seq (ls_sender st)"] by simp
      then have "k < 2 ^ 64" using k(3) by linarith
      then have seq: "unat (cs_seq frame) = k" using k(4) by (simp add: stream_frame_def unat_of_nat)
      have last: "received st = k - 1" "ls_log st = map snd (take (k - 1) ns)"
        using moves(1,3) d(5) True seq by (auto simp: received_def receiver_ok_def)
      have rec: "received ?st = k" using moves(2,4) True seq by (simp add: received_def)
      have "take k ns = take (k - 1) ns @ [ns ! (k - 1)]" using k(1,3) by (simp flip: take_Suc_conv_app_nth)
      then have "log = map snd (take k ns)" using moves(5) last(2) k(4) by (simp add: stream_frame_def)
      then have "receiver_ok ?st ns handed" using moves(2) k rec by (simp add: receiver_ok_def)
      then show ?thesis using moves(6) rec seq last(1) by (intro rest) auto
    qed
  qed
qed

lemma link_ok_tick:
  assumes ok: "link_ok to_json from_json st ns handed" and sending: "ls_sending st"
    and run: "has_unsent (\<lambda>c. c \<in> ls_gone st) (ls_sender st) = Some (s, replies, unsent)"
  shows "\<exists>k. link_ok to_json from_json (st\<lparr>ls_sender := s, ls_replies := ls_replies st @ replies\<rparr>) (take k ns) handed"
proof -
  obtain s1 replies1 k where rel: "release_abandoned (\<lambda>c. c \<in> ls_gone st) (ls_sender st) = Some (s1, replies1)" "handed \<le> k"
    "sends to_json s1 (take k ns) handed" "same_session (ls_sender st) s1" "set (rs_frames s1) \<subseteq> set (rs_frames (ls_sender st))"
    "mset (map fst replies1) + mset (rs_waiting s1) = mset (rs_waiting (ls_sender st))" "snd ` set replies1 \<subseteq> {Inl SessionGone}"
    by (rule release_abandoned_sends [OF link_okD(1) [OF ok]])
  have s: "s = s1\<lparr>rs_pending := lq_merge (rs_pending s1)\<rparr>" "replies = replies1"
    using run rel(1) by (simp_all add: has_unsent_def lq_iter_list)
  have w: "rs_waiting s = rs_waiting s1" by (simp add: s rs_waiting_def rs_frames_def)
  have "link_ok to_json from_json (st\<lparr>ls_sender := s, ls_replies := ls_replies st @ replies, ls_writing := [] @ ls_writing st\<rparr>)
      (take k ns) handed"
  proof (rule link_ok_sender [OF ok sending])
    show "mset (map fst replies) + mset (rs_waiting s) = mset (rs_waiting (ls_sender st))" using rel(6) w s(2) by simp
    show "c \<in> fst ` set (take (received st) ns)" if "(c, Inr ()) \<in> set replies" for c using that rel(7) s(2) by auto
  qed (use rel(2-4) in \<open>simp_all add: s same_session_def\<close>)
  then show ?thesis by auto
qed

lemma link_ok_hand_out:
  assumes ok: "link_ok to_json from_json st ns handed" and sending: "ls_sending st"
    and run: "next_unsent (\<lambda>c. c \<in> ls_gone st) reserve (ls_sender st) = Some (s, replies, unsent)"
  shows "\<exists>k handed'. link_ok to_json from_json
    (st\<lparr>ls_sender := s, ls_replies := ls_replies st @ replies,
        ls_writing := (case unsent of None \<Rightarrow> [] | Some u \<Rightarrow> [u]) @ ls_writing st\<rparr>) (take k ns) handed'"
proof -
  from next_unsent_sends [OF link_okD(1) [OF ok], of "\<lambda>c. c \<in> ls_gone st" reserve] obtain k handed' where
    n: "handed \<le> k" "handed \<le> handed'" "sends to_json s (take k ns) handed'" "same_session (ls_sender st) s"
      "mset (map fst replies) + mset (rs_waiting s) = mset (rs_waiting (ls_sender st))" "snd ` set replies \<subseteq> {Inl SessionGone}"
      "\<forall>u. unsent = Some u \<longrightarrow> 0 < unat (uf_seq u) \<and> unat (uf_seq u) \<le> handed' \<and>
        to_json (stream_frame (rs_stream (ls_sender st)) (take k ns) (unat (uf_seq u))) = Some (uf_bytes u)"
    unfolding run option.inject prod.inject by blast
  have "link_ok to_json from_json
    (st\<lparr>ls_sender := s, ls_replies := ls_replies st @ replies,
        ls_writing := (case unsent of None \<Rightarrow> [] | Some u \<Rightarrow> [u]) @ ls_writing st\<rparr>) (take k ns) handed'"
  proof (rule link_ok_sender [OF ok sending n(3,1,2,4,5)])
    show "c \<in> fst ` set (take (received st) ns)" if "(c, Inr ()) \<in> set replies" for c using that n(6) by auto
    show "0 < unat (uf_seq u) \<and> unat (uf_seq u) \<le> handed' \<and>
        to_json (stream_frame (rs_stream (ls_sender st)) (take k ns) (unat (uf_seq u))) = Some (uf_bytes u)"
      if "u \<in> set (case unsent of None \<Rightarrow> [] | Some u \<Rightarrow> [u])" for u
      using that n(7) by (cases unsent) simp_all
  qed
  then show ?thesis by blast
qed

lemma link_ok_acknowledge:
  assumes ok: "link_ok to_json from_json st ns handed" and sending: "ls_sending st" and ack: "(stream, up_to) \<in> ls_acks st"
    and run: "acknowledge (\<lambda>c. c \<in> ls_gone st) stream up_to (ls_sender st) = Some (s, replies, settled)"
  shows "\<exists>k. link_ok to_json from_json (st\<lparr>ls_sender := s, ls_replies := ls_replies st @ replies\<rparr>) (take k ns) handed"
proof -
  from acknowledge_sends [OF link_okD(1) [OF ok], of "\<lambda>c. c \<in> ls_gone st" stream up_to] obtain k where
    a: "handed \<le> k" "sends to_json s (take k ns) handed" "same_session (ls_sender st) s"
      "mset (map fst replies) + mset (rs_waiting s) = mset (rs_waiting (ls_sender st))"
      "\<forall>c. (c, Inr ()) \<in> set replies \<longrightarrow> stream = rs_stream (ls_sender st) \<and>
         (\<exists>j. 0 < j \<and> j \<le> unat up_to \<and> j \<le> handed \<and> c = fst (ns ! (j - 1)))"
    unfolding run option.inject prod.inject by blast
  have "c \<in> fst ` set (take (received st) ns)" if "(c, Inr ()) \<in> set replies" for c
  proof -
    obtain j where j: "stream = rs_stream (ls_sender st)" "0 < j" "j \<le> unat up_to" "c = fst (ns ! (j - 1))"
      using a(5) \<open>(c, Inr ()) \<in> set replies\<close> by blast
    then have "j \<le> received st" using link_okD(4) [OF ok, of up_to] ack by simp
    then have "ns ! (j - 1) = take (received st) ns ! (j - 1)" "j - 1 < length (take (received st) ns)"
      using j(2) receiver_okD(2) [OF link_okD(5) [OF ok]] by simp_all
    then have "ns ! (j - 1) \<in> set (take (received st) ns)" using nth_mem by metis
    then show ?thesis using j(4) by simp
  qed
  from link_ok_sender [OF ok sending a(2,1) order_refl a(3,4) this, of "[]"]
  have "link_ok to_json from_json (st\<lparr>ls_sender := s, ls_replies := ls_replies st @ replies, ls_writing := [] @ ls_writing st\<rparr>)
      (take k ns) handed" by simp
  then show ?thesis by auto
qed

lemma link_ok_write:
  assumes codec: "\<And>frame bytes. to_json frame = Some bytes \<Longrightarrow> from_json bytes = Some frame"
    and ok: "link_ok to_json from_json st ns handed" and u: "u \<in> set (ls_writing st)"
  shows "link_ok to_json from_json (st\<lparr>ls_wire := insert (uf_bytes u) (ls_wire st)\<rparr>) ns handed"
    "link_ok to_json from_json (st\<lparr>ls_writing := remove1 u (ls_writing st)\<rparr>) ns handed"
    "link_ok to_json from_json
       (st\<lparr>ls_sender := mark_sent (uf_seq u) (ls_sender st), ls_writing := remove1 u (ls_writing st)\<rparr>) ns handed"
proof -
  note w = link_okD(2) [OF ok u]
  then have "from_json (uf_bytes u) = Some (stream_frame (rs_stream (ls_sender st)) ns (unat (uf_seq u)))"
    using codec by blast
  then have "wire_ok to_json from_json (rs_stream (ls_sender st)) ns handed (uf_bytes u)"
    using w sendsD(3) [OF link_okD(1) [OF ok]] by (auto simp: wire_ok_def intro: order_trans)
  then show "link_ok to_json from_json (st\<lparr>ls_wire := insert (uf_bytes u) (ls_wire st)\<rparr>) ns handed"
    using ok by (simp add: link_ok_def receiver_ok_def answers_ok_def)
  have sub: "v \<in> set (ls_writing st)" if "v \<in> set (remove1 u (ls_writing st))" for v
    using that notin_set_remove1 by fast
  then show rem: "link_ok to_json from_json (st\<lparr>ls_writing := remove1 u (ls_writing st)\<rparr>) ns handed"
    using ok by (simp add: link_ok_def receiver_ok_def answers_ok_def)
  have "unat (uf_seq u) \<le> handed" using w by simp
  note m = mark_sent_sends [OF link_okD(1) [OF ok] this]
  have "rs_stream (mark_sent (uf_seq u) (ls_sender st)) = rs_stream (ls_sender st)" using m(2) by (simp add: same_session_def)
  then show "link_ok to_json from_json
       (st\<lparr>ls_sender := mark_sent (uf_seq u) (ls_sender st), ls_writing := remove1 u (ls_writing st)\<rparr>) ns handed"
    using rem m(1,3) by (simp add: link_ok_def receiver_ok_def answers_ok_def)
qed

lemma link_ok_ends:
  assumes "link_ok to_json from_json st ns handed" "ls_sending st"
  shows "link_ok to_json from_json
    (st\<lparr>ls_sending := False, ls_replies := ls_replies st @ reliable_drop (ls_sender st)\<rparr>) ns handed"
proof -
  note drop = reliable_drop_waiting [of "ls_sender st"]
  have "mset (map fst (ls_replies st @ reliable_drop (ls_sender st))) =
      mset (map fst (ls_replies st)) + mset (rs_waiting (ls_sender st))"
    unfolding map_append drop(1) by simp
  moreover have "(c, Inr ()) \<notin> set (reliable_drop (ls_sender st))" for c using drop(2) by auto
  ultimately show ?thesis using assms by (simp add: link_ok_def receiver_ok_def answers_ok_def unanswered_sending)
qed

lemma link_ok_step:
  assumes codec: "\<And>frame bytes. to_json frame = Some bytes \<Longrightarrow> from_json bytes = Some frame"
    and step: "link_step to_json from_json node_size st st'" and ok: "link_ok to_json from_json st ns handed"
  shows "\<exists>ns handed. link_ok to_json from_json st' ns handed"
  using step
proof (cases rule: link_step.cases)
  case submits
  then show ?thesis using link_ok_submit [OF ok] by blast
next
  case ticks
  then show ?thesis using link_ok_tick [OF ok] by blast
next
  case hands_out
  then show ?thesis using link_ok_hand_out [OF ok] by blast
next
  case receives
  then show ?thesis using link_ok_receive [OF ok] by blast
next
  case acknowledged
  then show ?thesis using link_ok_acknowledge [OF ok] by blast
next
  case stray_frame
  then have "link_ok to_json from_json st' ns handed"
    using ok by (simp add: link_ok_def receiver_ok_def answers_ok_def wire_ok_def)
  then show ?thesis by blast
next
  case stray_ack
  then have "link_ok to_json from_json st' ns handed"
    using ok by (simp add: link_ok_def receiver_ok_def answers_ok_def)
  then show ?thesis by blast
next
  case sender_ends
  then show ?thesis using link_ok_ends [OF ok] by blast
next
  case reaches_wire
  then show ?thesis using link_ok_write(1) [OF codec ok] by blast
next
  case write_failed
  then show ?thesis using link_ok_write(2) [OF codec ok] by blast
next
  case write_done
  then show ?thesis using link_ok_write(3) [OF codec ok] by blast
next
  case caller_goes
  then have "link_ok to_json from_json st' ns handed"
    using ok by (simp add: link_ok_def receiver_ok_def answers_ok_def)
  then show ?thesis by blast
next
  case receiver_ends
  then have "link_ok to_json from_json st' ns handed"
    using ok by (simp add: link_ok_def receiver_ok_def answers_ok_def)
  then show ?thesis by blast
qed

lemma link_ok_start: "link_ok to_json from_json (link_start random random') [] 0"
  using sends_new [of to_json random]
  by (simp add: link_ok_def link_start_def receiver_ok_def answers_ok_def received_def unanswered_def
      rs_waiting_def rs_frames_def reliable_new_def)

lemma link_reach_ok:
  assumes codec: "\<And>frame bytes. to_json frame = Some bytes \<Longrightarrow> from_json bytes = Some frame"
    and "link_reach to_json from_json node_size (link_start random random') st"
  shows "\<exists>ns handed. link_ok to_json from_json st ns handed"
  using assms(2)
proof (induction rule: link_reach.induct)
  case reach_start
  show ?case using link_ok_start by blast
next
  case (reach_step st st')
  then obtain ns handed where "link_ok to_json from_json st ns handed" by blast
  from link_ok_step [OF codec reach_step(2) this] show ?case by blast
qed

section \<open>Exactly-once delivery\<close>

text \<open>
  C30: delivery on a reliable stream is exactly once and in order, over a network that loses, duplicates
  and reorders. In every reachable state some of the submissions, in the order of submission and each
  at most once, are what the receiver's application got from this session, and every caller that was
  told \<open>Ok\<close> is among them. Every submission is answered exactly once or still waiting, and once the
  session has ended none is waiting. No operation of the record panics.
\<close>

theorem reliable_exactly_once:
  assumes codec: "\<And>frame bytes. to_json frame = Some bytes \<Longrightarrow> from_json bytes = Some frame"
    and reach: "link_reach to_json from_json node_size (link_start random random') st"
  shows "(\<exists>delivered. subseq delivered (ls_submitted st) \<and> distinct (map fst (ls_submitted st)) \<and>
      (\<forall>c. (c, Inr ()) \<in> set (ls_replies st) \<longrightarrow> c \<in> fst ` set delivered) \<and>
      (if im_stream (rs_inbound (ls_receiver st)) = Some (rs_stream (ls_sender st))
       then ls_log st = map snd delivered else delivered = [])) \<and>
    mset (map fst (ls_replies st)) + (if ls_sending st then mset (rs_waiting (ls_sender st)) else {#}) =
      mset (map fst (ls_submitted st)) \<and>
    submit to_json node_size reserve_frame reserve_node channel payload c (ls_sender st) \<noteq> None \<and>
    next_unsent closed reserve (ls_sender st) \<noteq> None \<and> has_unsent closed (ls_sender st) \<noteq> None \<and>
    acknowledge closed stream up_to (ls_sender st) \<noteq> None"
proof (intro conjI)
  obtain ns handed where ok: "link_ok to_json from_json st ns handed" using link_reach_ok [OF assms] by blast
  note d = link_okD [OF ok]
  let ?d = "take (received st) ns"
  have "subseq ?d (ls_submitted st)"
    using d(6) subseq_order.trans [of ?d ns] by (simp add: answers_ok_def take_is_prefix prefix_imp_subseq)
  then show "\<exists>delivered. subseq delivered (ls_submitted st) \<and> distinct (map fst (ls_submitted st)) \<and>
      (\<forall>c. (c, Inr ()) \<in> set (ls_replies st) \<longrightarrow> c \<in> fst ` set delivered) \<and>
      (if im_stream (rs_inbound (ls_receiver st)) = Some (rs_stream (ls_sender st))
       then ls_log st = map snd delivered else delivered = [])"
    using d(5,6) by (intro exI [of _ ?d]) (simp add: answers_ok_def receiver_ok_def received_def)
  show "mset (map fst (ls_replies st)) + (if ls_sending st then mset (rs_waiting (ls_sender st)) else {#}) =
     mset (map fst (ls_submitted st))"
    using d(6) by (simp add: answers_ok_def unanswered_def)
  show "submit to_json node_size reserve_frame reserve_node channel payload c (ls_sender st) \<noteq> None"
    by (cases rule: submit_sends [OF d(1), of node_size reserve_frame reserve_node channel payload c]) simp_all
  show "next_unsent closed reserve (ls_sender st) \<noteq> None" using next_unsent_sends [OF d(1), of closed reserve] by auto
  show "has_unsent closed (ls_sender st) \<noteq> None"
    by (rule release_abandoned_sends [OF d(1), of closed]) (simp add: has_unsent_def lq_iter_list)
  show "acknowledge closed stream up_to (ls_sender st) \<noteq> None"
    using acknowledge_sends [OF d(1), of closed stream up_to] by auto
qed

definition demo_frame :: "u64 \<Rightarrow> bool channel_seq" where
  "demo_frame seq = \<lparr>cs_stream = 1, cs_seq = seq, cs_channel = ''x'', cs_payload = True\<rparr>"

definition demo_to_json :: "bool channel_seq \<Rightarrow> byte list option" where
  "demo_to_json frame = (if frame = demo_frame 1 then Some [7] else if frame = demo_frame 2 then Some [8] else None)"

definition demo_from_json :: "byte list \<Rightarrow> bool channel_seq option" where
  "demo_from_json bytes = (if bytes = [7] then Some (demo_frame 1) else if bytes = [8] then Some (demo_frame 2) else None)"

definition demo_pending :: "bool \<Rightarrow> bool \<Rightarrow> (nat, nat) pending_frame" where
  "demo_pending handed sent =
     \<lparr>pf_seq = 1, pf_frame = [7], pf_sent = sent, pf_handed_out = handed, pf_reply = Some 0, pf_retention = 0\<rparr>"

definition demo_sender :: "bool \<Rightarrow> bool \<Rightarrow> (nat, nat) reliable_state" where
  "demo_sender handed sent =
     \<lparr>rs_stream = 1, rs_next_seq = 1,
      rs_pending = \<lparr>lq_oldest = [\<lparr>fn_value = demo_pending handed sent, fn_entry = 0\<rparr>], lq_newest = [], lq_len = 1\<rparr>,
      rs_inbound = \<lparr>im_stream = None, im_last_seq = 0\<rparr>\<rparr>"

lemma demo_claims:
  "retained_frame_claim (Suc 0) = Inr (zero_claim(AccountedMemoryBytes := 1, OpaqueDependencyResidual := 2))"
  "transient_frame_claim (Suc 0) = Inr (zero_claim(AccountedMemoryBytes := 1, OpaqueDependencyResidual := 2))"
  "lq_entry_claim 8 = Inr (zero_claim(AccountedMemoryBytes := 8, OpaqueDependencyResidual := 1))"
  by (simp_all add: retained_frame_claim_def transient_frame_claim_def lq_entry_claim_def try_from_entries_def
      checked_add_def zero_claim_def)

definition demo_submitted :: "(nat, nat) reliable_state" where
  "demo_submitted = (demo_sender False False)\<lparr>rs_pending :=
     \<lparr>lq_oldest = [], lq_newest = [\<lparr>fn_value = demo_pending False False, fn_entry = 0\<rparr>], lq_len = 1\<rparr>\<rparr>"

lemma demo_submit:
  "submit demo_to_json 8 (\<lambda>_. Inr 0) (\<lambda>_. Inr 0) ''x'' True 0 (reliable_new 1) = Some (demo_submitted, [])"
  by (simp add: submit_def reliable_new_def checked_add_def encoded_json_len_def encode_json_exact_def demo_to_json_def
      demo_frame_def demo_claims lq_push_def lq_new_def demo_submitted_def demo_sender_def demo_pending_def)

lemma demo_release:
  "release_abandoned (\<lambda>c. False) demo_submitted = Some (demo_sender False False, [])"
  "release_abandoned (\<lambda>c. False) (demo_sender True True) = Some (demo_sender True True, [])"
  by (subst release_abandoned_live; simp add: demo_submitted_def demo_sender_def demo_pending_def lq_ok_def lq_list_def
      rs_frames_def abandoned_def lq_merge_def)+

lemma demo_next: "next_unsent (\<lambda>c. False) (\<lambda>_. Inr 0) demo_submitted =
    Some (demo_sender True False, [], Some \<lparr>uf_seq = 1, uf_bytes = [7], uf_lease = 0\<rparr>)"
  by (simp add: next_unsent_def demo_release lq_iter_list)
     (simp add: demo_sender_def demo_pending_def demo_claims lq_list_def lq_merge_def lq_iter_mut_def change_first_def)

lemma demo_mark: "mark_sent 1 (demo_sender True False) = demo_sender True True"
  by (simp add: mark_sent_def demo_sender_def demo_pending_def lq_iter_mut_def lq_merge_def change_first_def)

lemma demo_receive:
  "on_channel_seq (log_accept None) (demo_frame 1) (reliable_new 3) [] =
   ((reliable_new 3)\<lparr>rs_inbound := \<lparr>im_stream = Some 1, im_last_seq = 1\<rparr>\<rparr>, [(''x'', True)], AckPeer 1 1)"
  by (simp add: on_channel_seq_def try_receive_def demo_frame_def reliable_new_def checked_add_def log_accept_def)

lemma demo_ack:
  "acknowledge (\<lambda>c. False) 1 1 (demo_sender True True) =
   Some ((demo_sender True True)\<lparr>rs_pending := lq_new\<rparr>, [(0, Inr ())], 1)"
proof -
  have s: "rs_stream (demo_sender True True) = 1" by (simp add: demo_sender_def)
  have "settle_loop 1 (demo_sender True True) 0 = Some ((demo_sender True True)\<lparr>rs_pending := lq_new\<rparr>, [(0, Inr ())], 1)"
    by (subst settle_loop.simps, simp add: lq_iter_def demo_sender_def demo_pending_def lq_merge_def resolve_def
        lq_iter_mut_def lq_pop_front_def expose_front_def into_value_def frame_drop_def)
       (subst settle_loop.simps, simp add: lq_iter_def lq_merge_def lq_new_def frame_drop_def resolve_def)
  then show ?thesis by (simp add: acknowledge_def s demo_release)
qed

lemma demo_codec: "demo_to_json frame = Some bytes \<Longrightarrow> demo_from_json bytes = Some frame"
  by (auto simp: demo_to_json_def demo_from_json_def split: if_splits)

definition demo_link :: "(nat, nat, bool) link_state" where
  "demo_link = (link_start 1 3)\<lparr>ls_sender := demo_submitted, ls_submitted := [(0, ''x'', True)]\<rparr>"

definition demo_sent :: "(nat, nat, bool) link_state" where
  "demo_sent = demo_link\<lparr>ls_sender := demo_sender True True, ls_wire := {[7]}\<rparr>"

abbreviation demo_step :: "(nat, nat, bool) link_state \<Rightarrow> (nat, nat, bool) link_state \<Rightarrow> bool" where
  "demo_step \<equiv> link_step demo_to_json demo_from_json 8"

abbreviation demo_reach :: "(nat, nat, bool) link_state \<Rightarrow> (nat, nat, bool) link_state \<Rightarrow> bool" where
  "demo_reach \<equiv> link_reach demo_to_json demo_from_json 8"

lemma demo_link_reach: "demo_reach (link_start 1 3) demo_link"
proof (rule reach_step [OF reach_start])
  show "demo_step (link_start 1 3) demo_link"
    using link_step.submits [of "link_start 1 3" 0 demo_to_json 8 "\<lambda>_. Inr 0" "\<lambda>_. Inr 0" "''x''" True demo_submitted "[]"] demo_submit
    by (simp add: link_start_def demo_link_def)
qed

lemma demo_sent_reach: "demo_reach (link_start 1 3) demo_sent"
proof -
  let ?u = "\<lparr>uf_seq = 1, uf_bytes = [7], uf_lease = 0\<rparr>"
  define st2 where "st2 = demo_link\<lparr>ls_sender := demo_sender True False, ls_writing := [?u]\<rparr>"
  define st3 where "st3 = st2\<lparr>ls_wire := {[7]}\<rparr>"
  note states = demo_link_def demo_sent_def st2_def st3_def link_start_def
  have "demo_step demo_link st2"
    using link_step.hands_out [of demo_link "\<lambda>_. Inr 0"] demo_next by (simp add: states)
  with demo_link_reach have "demo_reach (link_start 1 3) st2" by (rule reach_step)
  moreover have "demo_step st2 st3" using link_step.reaches_wire [of ?u st2] by (simp add: states)
  ultimately have "demo_reach (link_start 1 3) st3" by (rule reach_step)
  moreover have "demo_step st3 demo_sent"
    using link_step.write_done [of st3 ?u] demo_mark by (simp add: states)
  ultimately show ?thesis by (rule reach_step)
qed

lemma demo_run:
  obtains st where "demo_reach (link_start 1 3) st"
    "ls_sending st" "ls_log st = [(''x'', True)]" "ls_replies st = [(0, Inr ())]" "ls_submitted st = [(0, ''x'', True)]"
proof -
  define st5 where "st5 = demo_sent\<lparr>ls_receiver := (reliable_new 3)\<lparr>rs_inbound := \<lparr>im_stream = Some 1, im_last_seq = 1\<rparr>\<rparr>,
    ls_log := [(''x'', True)], ls_receiving := True, ls_acks := {(1, 1)}\<rparr>"
  define st6 where "st6 = st5\<lparr>ls_sender := (demo_sender True True)\<lparr>rs_pending := lq_new\<rparr>, ls_replies := [(0, Inr ())]\<rparr>"
  note states = demo_link_def demo_sent_def st5_def st6_def link_start_def
  have "demo_step demo_sent st5"
    using link_step.receives [of demo_sent "[7]" demo_from_json "demo_frame 1" None _ _ "AckPeer 1 1"] demo_receive
    by (simp add: states demo_from_json_def)
  with demo_sent_reach have "demo_reach (link_start 1 3) st5" by (rule reach_step)
  moreover have "demo_step st5 st6" using link_step.acknowledged [of st5 1 1] demo_ack by (simp add: states)
  ultimately have "demo_reach (link_start 1 3) st6" by (rule reach_step)
  then show ?thesis by (rule that) (simp_all add: states)
qed

theorem reliable_exactly_once_witness:
  "\<exists>st :: (nat, nat, bool) link_state. link_reach demo_to_json demo_from_json 8 (link_start 1 3) st \<and>
     ls_replies st = [(0, Inr ())] \<and> ls_log st = [(''x'', True)] \<and>
     (\<exists>delivered. subseq delivered [(0, ''x'', True)] \<and> 0 \<in> fst ` set delivered)"
proof -
  obtain st :: "(nat, nat, bool) link_state" where st: "link_reach demo_to_json demo_from_json 8 (link_start 1 3) st"
    "ls_sending st" "ls_log st = [(''x'', True)]" "ls_replies st = [(0, Inr ())]" "ls_submitted st = [(0, ''x'', True)]"
    by (rule demo_run)
  have "\<exists>delivered. subseq delivered (ls_submitted st) \<and> (\<forall>c. (c, Inr ()) \<in> set (ls_replies st) \<longrightarrow> c \<in> fst ` set delivered)"
    using reliable_exactly_once [OF demo_codec st(1)] by blast
  then show ?thesis using st by (intro exI [of _ st]) auto
qed

end
