(* ===== verification/Reliable_Flush.thy ===== *)
theory Reliable_Flush
  imports Reliable_Stream
begin

text \<open>
  Progress of a reliable stream (\<open>engine/reliable.rs\<close>). A flush whose copies are funded and whose
  writes succeed ends, and writes every frame owed in order; a receiver that missed nothing and
  accepts them reaches the sender's last number, and its acknowledgement settles every caller. On the
  other hand a frame that was marked as sent is never written again.
\<close>

section \<open>The flush\<close>

lemma transient_claim_exists: "n < 2 ^ 64 \<Longrightarrow> \<exists>claim. transient_frame_claim n = Inr claim"
  by (simp add: transient_frame_claim_def try_from_entries_def checked_add_def zero_claim_def)

lemma live_frames: "\<not> abandoned (\<lambda>_. False) f"
  by (simp add: abandoned_def split: option.splits)

definition flushed :: "('c, 'l) pending_frame \<Rightarrow> ('c, 'l) pending_frame" where
  "flushed f = f\<lparr>pf_handed_out := True, pf_sent := True\<rparr>"

lemma next_unsent_live:
  assumes ok: "sends to_json s ns handed" and funded: "\<And>claim. \<exists>lease. reserve claim = Inr lease"
  shows "case find (\<lambda>f. \<not> pf_sent f) (rs_frames s) of
      None \<Rightarrow> next_unsent (\<lambda>_. False) reserve s = Some (s\<lparr>rs_pending := lq_merge (rs_pending s)\<rparr>, [], None)
    | Some f \<Rightarrow> \<exists>s' u. next_unsent (\<lambda>_. False) reserve s = Some (s', [], Some u) \<and> uf_seq u = pf_seq f \<and> uf_bytes u = pf_frame f \<and>
        sends to_json s' ns (max handed (unat (pf_seq f))) \<and> same_session s s' \<and> rs_next_seq s' = rs_next_seq s \<and>
        rs_frames s' = map (\<lambda>g. if pf_seq g = pf_seq f then g\<lparr>pf_handed_out := True\<rparr> else g) (rs_frames s)"
proof -
  let ?s1 = "s\<lparr>rs_pending := lq_merge (rs_pending s)\<rparr>"
  have rel: "release_abandoned (\<lambda>_. False) s = Some (?s1, [])"
    by (rule release_abandoned_live [OF sendsD(1) [OF ok] live_frames])
  have f1: "rs_frames ?s1 = rs_frames s" by (simp add: rs_frames_def)
  have s1: "sends to_json ?s1 ns handed" using ok by simp
  show ?thesis
  proof (cases "find (\<lambda>f. \<not> pf_sent f) (rs_frames s)")
    case None
    then show ?thesis using rel by (simp add: next_unsent_def lq_iter_list rs_frames_def lq_merge_merged)
  next
    case (Some f)
    then have found: "find (\<lambda>f. \<not> pf_sent f) (rs_frames ?s1) = Some f" unfolding f1 .
    note out = hand_out_sends [OF s1 found]
    have "frame_ok to_json (rs_stream s) ns handed f"
      using sendsD(5) [OF ok] first_unsent(1) [OF ok Some] .
    then obtain claim lease where r: "transient_frame_claim (length (pf_frame f)) = Inr claim" "reserve claim = Inr lease"
      using transient_claim_exists funded by (metis frame_ok_def)
    have find: "find (\<lambda>g. pf_seq g = pf_seq f) (map fn_value (lq_list (rs_pending s))) = Some f"
      using out(4) f1 by (simp add: rs_frames_def)
    have "next_unsent (\<lambda>_. False) reserve s = Some (?s1\<lparr>rs_pending := lq_iter_mut (change_first (\<lambda>g. pf_seq g = pf_seq f)
          (\<lambda>g. g\<lparr>pf_handed_out := True\<rparr>)) (rs_pending ?s1)\<rparr>, [], Some \<lparr>uf_seq = pf_seq f, uf_bytes = pf_frame f, uf_lease = lease\<rparr>)"
      using Some r find by (simp add: next_unsent_def rel lq_iter_list rs_frames_def lq_merge_merged)
    then show ?thesis using Some out(1,2) f1 by (simp add: same_session_def)
  qed
qed

lemma find_split: "find P xs = Some x \<Longrightarrow> \<exists>pre post. xs = pre @ x # post \<and> (\<forall>y \<in> set pre. \<not> P y) \<and> P x"
proof (induction xs)
  case (Cons y xs)
  show ?case
  proof (cases "P y")
    case True
    then show ?thesis using Cons.prems by (intro exI [of _ "[]"] exI [of _ xs]) simp
  next
    case False
    then obtain pre post where "xs = pre @ x # post" "\<forall>y \<in> set pre. \<not> P y" "P x" using Cons by auto
    then show ?thesis using False by (intro exI [of _ "y # pre"] exI [of _ post]) simp
  qed
qed simp

lemma first_unsent_split:
  assumes "find (\<lambda>f. \<not> pf_sent f) fs = Some f" "distinct (map pf_seq fs)"
  shows "[g \<leftarrow> fs. \<not> pf_sent g] =
    f # [g \<leftarrow> map (\<lambda>g. if pf_seq g = pf_seq f then flushed g else g) fs. \<not> pf_sent g]"
proof -
  obtain pre post where fs: "fs = pre @ f # post" "\<forall>g \<in> set pre. pf_sent g" "\<not> pf_sent f"
    using find_split [OF assms(1)] by auto
  then have "map (\<lambda>g. if pf_seq g = pf_seq f then flushed g else g) pre = pre"
      "map (\<lambda>g. if pf_seq g = pf_seq f then flushed g else g) post = post"
    using assms(2) by (auto intro!: map_idI simp: image_iff)
  then show ?thesis using fs by (simp add: flushed_def)
qed

lemma flush_owner_live:
  assumes "sends to_json s ns handed" and funded: "\<And>claim. \<exists>lease. reserve claim = Inr lease"
  shows "\<exists>s' handed'. flush_owner (\<lambda>_. False) reserve (\<lambda>_. True) s =
      Some (s', [], map pf_frame [f \<leftarrow> rs_frames s. \<not> pf_sent f]) \<and>
    sends to_json s' ns handed' \<and> same_session s s' \<and> rs_next_seq s' = rs_next_seq s \<and>
    map pf_seq (rs_frames s') = map pf_seq (rs_frames s) \<and> rs_waiting s' = rs_waiting s \<and> (\<forall>f \<in> set (rs_frames s'). pf_sent f)"
  using assms(1)
proof (induction "length [f \<leftarrow> rs_frames s. \<not> pf_sent f]" arbitrary: s handed)
  case 0
  then have all: "\<forall>f \<in> set (rs_frames s). pf_sent f" by (simp add: filter_empty_conv)
  then have "find (\<lambda>f. \<not> pf_sent f) (rs_frames s) = None" by (auto simp: find_None_iff)
  then have "flush_owner (\<lambda>_. False) reserve (\<lambda>_. True) s = Some (s\<lparr>rs_pending := lq_merge (rs_pending s)\<rparr>, [], [])"
    using next_unsent_live [where reserve = reserve, OF 0(2) funded] by (simp add: flush_owner.simps)
  moreover have "rs_frames (s\<lparr>rs_pending := lq_merge (rs_pending s)\<rparr>) = rs_frames s" by (simp add: rs_frames_def)
  ultimately show ?case using 0 all
    by (intro exI [of _ "s\<lparr>rs_pending := lq_merge (rs_pending s)\<rparr>"] exI [of _ handed]) (simp add: rs_waiting_def)
next
  case (Suc n)
  obtain f where f: "find (\<lambda>f. \<not> pf_sent f) (rs_frames s) = Some f"
    using Suc(2) by (cases "find (\<lambda>f. \<not> pf_sent f) (rs_frames s)") (auto simp: find_None_iff filter_empty_conv)
  obtain s1 u where n: "next_unsent (\<lambda>_. False) reserve s = Some (s1, [], Some u)" "uf_seq u = pf_seq f" "uf_bytes u = pf_frame f"
      "sends to_json s1 ns (max handed (unat (pf_seq f)))" "same_session s s1" "rs_next_seq s1 = rs_next_seq s"
      "rs_frames s1 = map (\<lambda>g. if pf_seq g = pf_seq f then g\<lparr>pf_handed_out := True\<rparr> else g) (rs_frames s)"
    using next_unsent_live [where reserve = reserve, OF Suc(3) funded] f by auto
  have "unat (pf_seq f) \<le> max handed (unat (pf_seq f))" by simp
  note m = mark_sent_sends [OF n(4) this]
  have frames: "rs_frames (mark_sent (pf_seq f) s1) = map (\<lambda>g. if pf_seq g = pf_seq f then flushed g else g) (rs_frames s)"
    unfolding m(4) n(7) by (simp add: flushed_def)
  note split = first_unsent_split [OF f sends_distinct [OF Suc(3)]]
  have "n = length [g \<leftarrow> rs_frames (mark_sent (pf_seq f) s1). \<not> pf_sent g]" using Suc(2) split frames by simp
  from Suc(1) [OF this m(1)] obtain s' handed' where
    IH: "flush_owner (\<lambda>_. False) reserve (\<lambda>_. True) (mark_sent (pf_seq f) s1) =
        Some (s', [], map pf_frame [g \<leftarrow> rs_frames (mark_sent (pf_seq f) s1). \<not> pf_sent g])"
      "sends to_json s' ns handed'" "same_session (mark_sent (pf_seq f) s1) s'"
      "rs_next_seq s' = rs_next_seq (mark_sent (pf_seq f) s1)"
      "map pf_seq (rs_frames s') = map pf_seq (rs_frames (mark_sent (pf_seq f) s1))"
      "rs_waiting s' = rs_waiting (mark_sent (pf_seq f) s1)" "\<forall>f \<in> set (rs_frames s'). pf_sent f"
    by blast
  have "flush_owner (\<lambda>_. False) reserve (\<lambda>_. True) s = Some (s', [], map pf_frame [f \<leftarrow> rs_frames s. \<not> pf_sent f])"
    unfolding split using n(1,2,3) IH(1) frames by (subst flush_owner.simps) simp
  moreover have "same_session s s'" using n(5) m(2) IH(3) by (simp add: same_session_def)
  moreover have "rs_next_seq s' = rs_next_seq s" using n(6) IH(4) by (simp add: mark_sent_def)
  moreover have "map pf_seq (rs_frames s') = map pf_seq (rs_frames s)" unfolding IH(5) frames by (simp add: flushed_def)
  moreover have "rs_waiting (mark_sent (pf_seq f) s1) = rs_waiting s"
    unfolding rs_waiting_def frames by (rule arg_cong [where f = concat]) (simp add: flushed_def waiting_def)
  ultimately show ?case using IH(2,6,7) by auto
qed

section \<open>Receiving what was written\<close>

fun receive_all ::
    "(byte list \<Rightarrow> 'p channel_seq option) \<Rightarrow> byte list list \<Rightarrow> ('c, 'l) reliable_state \<Rightarrow> (string \<times> 'p) list \<Rightarrow>
     ('c, 'l) reliable_state \<times> (string \<times> 'p) list" where
  "receive_all from_json [] r log = (r, log)"
| "receive_all from_json (bytes # rest) r log =
     (case from_json bytes of
        None \<Rightarrow> receive_all from_json rest r log
      | Some frame \<Rightarrow>
          (case on_channel_seq (log_accept None) frame r log of
             (r, log, effect) \<Rightarrow> receive_all from_json rest r log))"

lemma on_channel_seq_order:
  assumes bound: "im_stream (rs_inbound r) = None \<or> im_stream (rs_inbound r) = Some (cs_stream frame)"
    and "unat (cs_seq frame) \<le> unat (im_last_seq (rs_inbound r)) + 1"
  obtains r' effect where
    "on_channel_seq (log_accept None) frame r log =
       (r', if cs_seq frame \<le> im_last_seq (rs_inbound r) then log else log @ [(cs_channel frame, cs_payload frame)], effect)"
    "rs_inbound r' = \<lparr>im_stream = Some (cs_stream frame), im_last_seq = max (im_last_seq (rs_inbound r)) (cs_seq frame)\<rparr>"
proof -
  let ?m = "im_last_seq (rs_inbound r)"
  let ?r = "r\<lparr>rs_inbound := \<lparr>im_stream = Some (cs_stream frame), im_last_seq = max ?m (cs_seq frame)\<rparr>\<rparr>"
  have stay: "(rs_inbound r)\<lparr>im_stream := Some s\<rparr> = \<lparr>im_stream = Some s, im_last_seq = ?m\<rparr>" for s by simp
  note run = on_channel_seq_def try_receive_bound [OF bound] Let_def stay
  have "\<exists>effect. on_channel_seq (log_accept None) frame r log =
       (?r, if cs_seq frame \<le> ?m then log else log @ [(cs_channel frame, cs_payload frame)], effect)"
  proof (cases "checked_add ?m 1")
    case None
    moreover have "unat (1 :: u64) = 1" by simp
    ultimately have "cs_seq frame \<le> ?m"
      using unat_u64_le [of "cs_seq frame"] unfolding checked_add_None_iff word_le_nat_alt by linarith
    then show ?thesis using None by (simp add: run max_def)
  next
    case (Some e)
    then have e: "unat e = unat ?m + 1" by (simp add: checked_add_Some_iff)
    show ?thesis
    proof (cases "cs_seq frame = e")
      case True
      then have "\<not> cs_seq frame \<le> ?m" using e by (simp add: word_le_nat_alt)
      then show ?thesis using Some True by (simp add: run log_accept_def max_def)
    next
      case False
      then have "unat (cs_seq frame) \<noteq> unat e" by (simp add: word_unat_eq_iff)
      then have "cs_seq frame \<le> ?m" "cs_seq frame < e" using e assms(2) by (simp_all add: word_le_nat_alt word_less_nat_alt)
      then show ?thesis using Some False by (simp add: run max_def)
    qed
  qed
  then show ?thesis using that by auto
qed

text \<open>
  A receiver that gets, in order, frames that cover everything beyond its mark ends with the whole
  stream: frames at or below the mark are duplicates, and the first other frame is always the next one.
\<close>

lemma receive_all_frames:
  assumes "sorted_wrt (<) (map pf_seq fs)"
    and "\<And>f. f \<in> set fs \<Longrightarrow> 0 < unat (pf_seq f) \<and> unat (pf_seq f) \<le> length ns \<and>
      from_json (pf_frame f) = Some (stream_frame stream ns (unat (pf_seq f)))"
    and "{unat (im_last_seq (rs_inbound r))<..length ns} \<subseteq> (unat \<circ> pf_seq) ` set fs"
    and "im_stream (rs_inbound r) = None \<or> im_stream (rs_inbound r) = Some stream"
    and "unat (im_last_seq (rs_inbound r)) \<le> length ns" "length ns < 2 ^ 64"
    and "log = map snd (take (unat (im_last_seq (rs_inbound r))) ns)"
  shows "\<exists>r'. receive_all from_json (map pf_frame fs) r log = (r', map snd ns) \<and> unat (im_last_seq (rs_inbound r')) = length ns"
  using assms
proof (induction fs arbitrary: r log)
  case Nil
  then have "unat (im_last_seq (rs_inbound r)) = length ns" by (simp add: subset_eq) (metis le_neq_implies_less order_refl)
  then show ?case using Nil by simp
next
  case (Cons f fs)
  let ?m = "im_last_seq (rs_inbound r)"
  let ?k = "unat (pf_seq f)"
  let ?frame = "stream_frame stream ns ?k"
  have f: "0 < ?k" "?k \<le> length ns" "from_json (pf_frame f) = Some ?frame" using Cons.prems(2) [of f] by simp_all
  have seq: "cs_seq ?frame = pf_seq f" "cs_stream ?frame = stream" by (simp_all add: stream_frame_def)
  have above: "?k < unat (pf_seq g)" if "g \<in> set fs" for g
    using Cons.prems(1) that by (auto simp: word_less_nat_alt)
  have next_one: "?k \<le> unat ?m + 1"
  proof (rule ccontr)
    assume "\<not> ?k \<le> unat ?m + 1"
    then have "unat ?m + 1 \<in> {unat ?m<..length ns}" using f(2) by simp
    then have "unat ?m + 1 \<in> (unat \<circ> pf_seq) ` set (f # fs)" using Cons.prems(3) by blast
    then obtain g where "g \<in> set (f # fs)" "unat (pf_seq g) = unat ?m + 1" by (metis comp_apply imageE)
    then show False using above [of g] \<open>\<not> ?k \<le> unat ?m + 1\<close> by auto
  qed
  obtain r' effect where r':
    "on_channel_seq (log_accept None) ?frame r log =
       (r', if cs_seq ?frame \<le> ?m then log else log @ [(cs_channel ?frame, cs_payload ?frame)], effect)"
    "rs_inbound r' = \<lparr>im_stream = Some (cs_stream ?frame), im_last_seq = max ?m (cs_seq ?frame)\<rparr>"
    using on_channel_seq_order [of r ?frame log] Cons.prems(4) next_one seq by metis
  let ?log = "if pf_seq f \<le> ?m then log else log @ [(cs_channel ?frame, cs_payload ?frame)]"
  have mark: "unat (im_last_seq (rs_inbound r')) = max (unat ?m) ?k"
    using r'(2) seq by (simp add: max_def word_le_nat_alt)
  have "\<exists>r''. receive_all from_json (map pf_frame fs) r' ?log = (r'', map snd ns) \<and> unat (im_last_seq (rs_inbound r'')) = length ns"
  proof (rule Cons.IH)
    show "{unat (im_last_seq (rs_inbound r'))<..length ns} \<subseteq> (unat \<circ> pf_seq) ` set fs"
    proof
      fix j assume j: "j \<in> {unat (im_last_seq (rs_inbound r'))<..length ns}"
      then have "j \<in> (unat \<circ> pf_seq) ` set (f # fs)" using Cons.prems(3) mark by (auto simp: subset_eq)
      then show "j \<in> (unat \<circ> pf_seq) ` set fs" using j mark by auto
    qed
    show "?log = map snd (take (unat (im_last_seq (rs_inbound r'))) ns)"
    proof (cases "pf_seq f \<le> ?m")
      case True
      then show ?thesis using Cons.prems(7) mark by (simp add: max_def word_le_nat_alt)
    next
      case False
      then have k: "?k = unat ?m + 1" using next_one by (simp add: word_le_nat_alt)
      then have "take ?k ns = take (unat ?m) ns @ [ns ! unat ?m]" using f(2) by (simp add: take_Suc_conv_app_nth)
      then show ?thesis using Cons.prems(7) mark k False by (simp add: stream_frame_def max_def)
    qed
  qed (use Cons.prems f r'(2) seq mark in auto)
  then show ?case using f(3) r'(1) seq by simp
qed

section \<open>Settling the callers\<close>

lemma acknowledge_all:
  assumes ok: "sends to_json s ns handed" and sent: "\<forall>f \<in> set (rs_frames s). pf_sent f" and "unat up_to = length ns"
  shows "\<exists>s'. acknowledge (\<lambda>_. False) (rs_stream s) up_to s =
      Some (s', map (\<lambda>c. (c, Inr ())) (rs_waiting s), length (rs_frames s)) \<and> rs_frames s' = [] \<and> rs_pending_count s' = 0"
proof -
  let ?s1 = "s\<lparr>rs_pending := lq_merge (rs_pending s)\<rparr>"
  have rel: "release_abandoned (\<lambda>_. False) s = Some (?s1, [])"
    by (rule release_abandoned_live [OF sendsD(1) [OF ok] live_frames])
  have f1: "rs_frames ?s1 = rs_frames s" by (simp add: rs_frames_def)
  have "lq_ok (rs_pending ?s1)" using sendsD(1) [OF ok] by simp
  from settle_loop_frames [OF this, of up_to 0] obtain s' prefix where
    settle: "settle_loop up_to ?s1 0 = Some (s', map (\<lambda>c. (c, Inr ())) (concat (map waiting prefix)), 0 + length prefix)"
      "lq_ok (rs_pending s')" "rs_frames ?s1 = prefix @ rs_frames s'"
      "prefix = takeWhile (\<lambda>f. pf_sent f \<and> pf_seq f \<le> up_to) (rs_frames ?s1)"
    by blast
  have "pf_seq f \<le> up_to" if "f \<in> set (rs_frames s)" for f
    using sendsD(5) [OF ok that] assms(3) by (simp add: frame_ok_def word_le_nat_alt)
  then have all: "prefix = rs_frames s" using settle(4) sent unfolding f1 by (simp add: takeWhile_eq_all_conv)
  then have "rs_frames s' = []" using settle(3) f1 by simp
  moreover from this have "rs_pending_count s' = 0" using settle(2) by (simp add: rs_pending_count_def lq_ok_def rs_frames_def)
  ultimately show ?thesis using rel settle(1) all by (simp add: acknowledge_def rs_waiting_def)
qed

text \<open>
  C31: a stream that has lost nothing drains. From any reachable state in which every number beyond the
  receiver's mark is held by a frame still to be sent, and in which the copies are funded, the writes
  succeed and the application accepts: the flush ends and writes every unsent frame in order, the
  receiver reaches the sender's last number with all payloads in its log in order, and the
  acknowledgement of that mark answers \<open>Ok\<close> to every waiting caller and leaves nothing retained.
\<close>

theorem flush_delivers_all:
  assumes codec: "\<And>frame bytes. to_json frame = Some bytes \<Longrightarrow> from_json bytes = Some frame"
    and reach: "link_reach to_json from_json node_size (link_start random random') st"
    and bound: "im_stream (rs_inbound (ls_receiver st)) = None \<or> im_stream (rs_inbound (ls_receiver st)) = Some (rs_stream (ls_sender st))"
    and lossless: "{unat (im_last_seq (rs_inbound (ls_receiver st)))<..unat (rs_next_seq (ls_sender st))} \<subseteq>
      (unat \<circ> pf_seq) ` {f \<in> set (rs_frames (ls_sender st)). \<not> pf_sent f}"
    and funded: "\<And>claim. \<exists>lease. reserve claim = Inr lease"
  shows "\<exists>s' r s''. 
    flush_owner (\<lambda>_. False) reserve (\<lambda>_. True) (ls_sender st) =
      Some (s', [], map pf_frame [f \<leftarrow> rs_frames (ls_sender st). \<not> pf_sent f]) \<and>
    (\<exists>rest. receive_all from_json (map pf_frame [f \<leftarrow> rs_frames (ls_sender st). \<not> pf_sent f]) (ls_receiver st) (ls_log st) =
       (r, ls_log st @ rest) \<and> subseq rest (map snd (ls_submitted st))) \<and>
    im_last_seq (rs_inbound r) = rs_next_seq (ls_sender st) \<and>
    acknowledge (\<lambda>_. False) (rs_stream (ls_sender st)) (im_last_seq (rs_inbound r)) s' =
      Some (s'', map (\<lambda>c. (c, Inr ())) (rs_waiting (ls_sender st)), length (rs_frames (ls_sender st))) \<and>
    rs_pending_count s'' = 0"
proof -
  let ?s = "ls_sender st" and ?m = "unat (im_last_seq (rs_inbound (ls_receiver st)))"
  let ?unsent = "[f \<leftarrow> rs_frames (ls_sender st). \<not> pf_sent f]"
  obtain ns handed where ok: "link_ok to_json from_json st ns handed" using link_reach_ok [OF codec reach] by blast
  note d = link_okD [OF ok] and s = sendsD [OF link_okD(1) [OF ok]]
  obtain s' handed' where flush: "flush_owner (\<lambda>_. False) reserve (\<lambda>_. True) ?s = Some (s', [], map pf_frame ?unsent)"
      "sends to_json s' ns handed'" "same_session ?s s'" "map pf_seq (rs_frames s') = map pf_seq (rs_frames ?s)"
      "rs_waiting s' = rs_waiting ?s" "\<forall>f \<in> set (rs_frames s'). pf_sent f"
    using flush_owner_live [where reserve = reserve, OF d(1) funded] by blast
  have mark: "?m = received st" "ls_log st = map snd (take ?m ns)" "?m \<le> length ns"
    using bound d(5) by (auto simp: receiver_ok_def received_def)
  have "\<exists>r. receive_all from_json (map pf_frame ?unsent) (ls_receiver st) (ls_log st) = (r, map snd ns) \<and>
      unat (im_last_seq (rs_inbound r)) = length ns"
  proof (rule receive_all_frames)
    show "sorted_wrt (<) (map pf_seq ?unsent)" using sorted_wrt_subseq [OF subseq_map [OF subseq_filter_left] s(4)] .
    show "0 < unat (pf_seq f) \<and> unat (pf_seq f) \<le> length ns \<and>
        from_json (pf_frame f) = Some (stream_frame (rs_stream ?s) ns (unat (pf_seq f)))" if "f \<in> set ?unsent" for f
      using s(5) [of f] that codec by (simp add: frame_ok_def)
    show "{?m<..length ns} \<subseteq> (unat \<circ> pf_seq) ` set ?unsent" using lossless s(2) by simp
  qed (use bound mark s(2) unat_bound [of "rs_next_seq ?s"] in simp_all)
  then obtain r where r: "receive_all from_json (map pf_frame ?unsent) (ls_receiver st) (ls_log st) = (r, map snd ns)"
      "unat (im_last_seq (rs_inbound r)) = length ns" by blast
  have "map snd ns = ls_log st @ map snd (drop ?m ns)" unfolding mark(2) by (metis append_take_drop_id map_append)
  moreover have "subseq (drop ?m ns) (ls_submitted st)"
    using d(6) subseq_order.trans [of "drop ?m ns" ns] by (simp add: answers_ok_def suffix_drop suffix_imp_subseq)
  moreover have "im_last_seq (rs_inbound r) = rs_next_seq ?s" using r(2) s(2) by (simp add: word_unat_eq_iff)
  moreover have "length (rs_frames s') = length (rs_frames ?s)" using map_eq_imp_length_eq [OF flush(4)] .
  moreover have "rs_stream s' = rs_stream ?s" using flush(3) by (simp add: same_session_def)
  ultimately show ?thesis
    using flush(1,5) r acknowledge_all [OF flush(2,6) r(2)] subseq_map [of "drop ?m ns" "ls_submitted st" snd] by auto
qed

theorem flush_delivers_all_witness:
  "\<exists>s' s''. flush_owner (\<lambda>_. False) (\<lambda>_. Inr 0) (\<lambda>_. True) demo_submitted = Some (s', [], [[7]]) \<and>
     acknowledge (\<lambda>_. False) 1 1 s' = Some (s'', [(0, Inr ())], 1)"
proof -
  let ?st = demo_link
  have st: "ls_sender ?st = demo_submitted" "rs_inbound (ls_receiver ?st) = \<lparr>im_stream = None, im_last_seq = 0\<rparr>"
    by (simp_all add: demo_link_def link_start_def reliable_new_def)
  have s: "rs_frames demo_submitted = [demo_pending False False]" "rs_next_seq demo_submitted = 1" "rs_stream demo_submitted = 1"
    by (simp_all add: demo_submitted_def demo_sender_def rs_frames_def lq_list_def)
  have f: "pf_frame (demo_pending False False) = [7]" "\<not> pf_sent (demo_pending False False)" "pf_seq (demo_pending False False) = 1"
    by (simp_all add: demo_pending_def)
  have "{unat (im_last_seq (rs_inbound (ls_receiver ?st)))<..unat (rs_next_seq (ls_sender ?st))} \<subseteq>
      (unat \<circ> pf_seq) ` {f \<in> set (rs_frames (ls_sender ?st)). \<not> pf_sent f}"
    unfolding st s using f by auto
  moreover have "im_stream (rs_inbound (ls_receiver ?st)) = None" unfolding st by simp
  moreover have "rs_waiting demo_submitted = [0]" unfolding rs_waiting_def s by (simp add: demo_pending_def waiting_def)
  ultimately show ?thesis
    using flush_delivers_all [OF demo_codec demo_link_reach, of "\<lambda>_. Inr 0"] unfolding st s by (auto simp: f s)
qed

section \<open>No second write\<close>

text \<open>
  The numbers that the sender has done with: handed out, and sent if still retained.
\<close>

definition done_with :: "('p channel_seq \<Rightarrow> byte list option) \<Rightarrow> ('c, 'l, 'p) link_state \<Rightarrow> nat \<Rightarrow> bool" where
  "done_with to_json st n \<longleftrightarrow>
     (\<exists>ns handed. sends to_json (ls_sender st) ns handed \<and> n \<le> handed \<and>
        (\<forall>u \<in> set (ls_writing st). unat (uf_seq u) \<le> handed) \<and>
        (\<forall>f \<in> set (rs_frames (ls_sender st)). unat (pf_seq f) = n \<longrightarrow> pf_sent f))"

lemma done_withI:
  assumes "sends to_json (ls_sender st) ns handed" "n \<le> handed" "\<And>u. u \<in> set (ls_writing st) \<Longrightarrow> unat (uf_seq u) \<le> handed"
    "\<And>f. \<lbrakk>f \<in> set (rs_frames (ls_sender st)); unat (pf_seq f) = n\<rbrakk> \<Longrightarrow> pf_sent f"
  shows "done_with to_json st n"
  using assms unfolding done_with_def by blast

lemma done_with_step:
  assumes step: "link_step to_json from_json node_size st st'" and "done_with to_json st n"
  shows "done_with to_json st' n"
proof -
  obtain ns handed where d: "sends to_json (ls_sender st) ns handed" "n \<le> handed"
      "\<forall>u \<in> set (ls_writing st). unat (uf_seq u) \<le> handed"
      "\<forall>f \<in> set (rs_frames (ls_sender st)). unat (pf_seq f) = n \<longrightarrow> pf_sent f"
    using assms(2) unfolding done_with_def by blast
  have same: "done_with to_json st' n" if "ls_sender st' = ls_sender st" "set (ls_writing st') \<subseteq> set (ls_writing st)"
    using that d by (intro done_withI [of to_json st' ns handed]) auto
  from step show ?thesis
  proof (cases rule: link_step.cases)
    case (submits c reserve_frame reserve_node channel payload s replies)
    show ?thesis
    proof (cases rule: submit_sends [OF d(1), of node_size reserve_frame reserve_node channel payload c])
      case 1
      then show ?thesis using submits same by simp
    next
      case (2 s')
      have "n \<le> length ns" using d(2) sendsD(3) [OF d(1)] by simp
      then have "pf_sent f" if "f \<in> set (rs_frames s')" "unat (pf_seq f) = n" for f
        using that 2(5) [of f] d(4) by auto
      then show ?thesis using 2(1,2) submits d by (intro done_withI [of to_json st' "ns @ [(c, channel, payload)]" handed]) auto
    qed
  next
    case (ticks s replies unsent)
    obtain s1 replies1 k where rel: "release_abandoned (\<lambda>c. c \<in> ls_gone st) (ls_sender st) = Some (s1, replies1)" "handed \<le> k"
      "sends to_json s1 (take k ns) handed" "same_session (ls_sender st) s1" "set (rs_frames s1) \<subseteq> set (rs_frames (ls_sender st))"
      "mset (map fst replies1) + mset (rs_waiting s1) = mset (rs_waiting (ls_sender st))" "snd ` set replies1 \<subseteq> {Inl SessionGone}"
      by (rule release_abandoned_sends [OF d(1)])
    have "s = s1\<lparr>rs_pending := lq_merge (rs_pending s1)\<rparr>" using ticks(3) rel(1) by (simp add: has_unsent_def lq_iter_list)
    then have "sends to_json s (take k ns) handed" "rs_frames s = rs_frames s1" using rel(3) by (simp_all add: rs_frames_def)
    then show ?thesis using ticks(1) d rel(5) by (intro done_withI [of to_json st' "take k ns" handed]) auto
  next
    case (hands_out reserve s replies unsent)
    from next_unsent_sends [OF d(1), of "\<lambda>c. c \<in> ls_gone st" reserve] obtain k handed' where
      n: "handed \<le> handed'" "sends to_json s (take k ns) handed'" "\<forall>u. unsent = Some u \<longrightarrow> unat (uf_seq u) \<le> handed'"
        "\<forall>f \<in> set (rs_frames s). \<exists>g \<in> set (rs_frames (ls_sender st)). pf_seq f = pf_seq g \<and> pf_sent f = pf_sent g"
      unfolding hands_out(3) option.inject prod.inject by blast
    show ?thesis
    proof (rule done_withI [of to_json st' "take k ns" handed'])
      show "unat (uf_seq u) \<le> handed'" if "u \<in> set (ls_writing st')" for u
        using that hands_out(1) n(1,3) d(3) by (auto split: option.splits)
      show "pf_sent f" if "f \<in> set (rs_frames (ls_sender st'))" "unat (pf_seq f) = n" for f
        using that hands_out(1) n(4) d(4) by fastforce
    qed (use hands_out(1) n(1,2) d(2) in simp_all)
  next
    case (write_done u)
    then have "unat (uf_seq u) \<le> handed" using d(3) by blast
    note m = mark_sent_sends [OF d(1) this]
    have "v \<in> set (ls_writing st)" if "v \<in> set (remove1 u (ls_writing st))" for v using that notin_set_remove1 by fast
    then show ?thesis using write_done(1) d m(1,4) by (intro done_withI [of to_json st' ns handed]) (auto simp: m(4))
  next
    case (acknowledged stream up_to s replies settled)
    from acknowledge_sends [OF d(1), of "\<lambda>c. c \<in> ls_gone st" stream up_to] obtain k where
      "sends to_json s (take k ns) handed" "set (rs_frames s) \<subseteq> set (rs_frames (ls_sender st))"
      unfolding acknowledged(4) option.inject prod.inject by blast
    then show ?thesis using acknowledged(1) d by (intro done_withI [of to_json st' "take k ns" handed]) auto
  next
    case (write_failed u)
    then show ?thesis using same set_remove1_subset [of u "ls_writing st"] by simp
  qed (use same in simp_all)
qed

text \<open>
  C32: a frame whose write was recorded as done is never written again. From any reachable state in
  which a retained frame is marked as sent, no later flush hands out its number, whether the frame
  was acknowledged, refused by the receiver's application, or lost.
\<close>

theorem sent_never_rewritten:
  assumes codec: "\<And>frame bytes. to_json frame = Some bytes \<Longrightarrow> from_json bytes = Some frame"
    and reach: "link_reach to_json from_json node_size (link_start random random') st"
    and f: "f \<in> set (rs_frames (ls_sender st))" "pf_sent f"
    and later: "link_reach to_json from_json node_size st st'"
    and run: "next_unsent closed reserve (ls_sender st') = Some (s, replies, Some u)"
  shows "uf_seq u \<noteq> pf_seq f"
proof -
  obtain ns handed where ok: "link_ok to_json from_json st ns handed" using link_reach_ok [OF codec reach] by blast
  note d = link_okD [OF ok]
  have "done_with to_json st (unat (pf_seq f))"
  proof (rule done_withI [OF d(1)])
    show "unat (pf_seq f) \<le> handed" using sendsD(5) [OF d(1) f(1)] f(2) by (auto simp: frame_ok_def)
    show "pf_sent g" if "g \<in> set (rs_frames (ls_sender st))" "unat (pf_seq g) = unat (pf_seq f)" for g
    proof -
      have "pf_seq g = pf_seq f" using that(2) by (simp add: word_unat_eq_iff)
      then have "g = f" using sends_distinct [OF d(1)] that(1) f(1) by (simp add: distinct_map inj_on_def)
      then show ?thesis using f(2) by simp
    qed
  qed (use d(2) in blast)
  with later have "done_with to_json st' (unat (pf_seq f))"
    by (induction rule: link_reach.induct) (use done_with_step in blast)+
  then obtain ns' handed' where "sends to_json (ls_sender st') ns' handed'"
      "\<forall>g \<in> set (rs_frames (ls_sender st')). unat (pf_seq g) = unat (pf_seq f) \<longrightarrow> pf_sent g"
    unfolding done_with_def by blast
  moreover from this(1) next_unsent_sends [OF this(1), of closed reserve] obtain g where
    "g \<in> set (rs_frames (ls_sender st'))" "pf_seq g = uf_seq u" "\<not> pf_sent g"
    unfolding run option.inject prod.inject by blast
  ultimately show ?thesis by auto
qed

lemma demo_second:
  obtains s where "submit demo_to_json 8 (\<lambda>_. Inr 0) (\<lambda>_. Inr 0) ''x'' True 1 (demo_sender True True) = Some (s, [])"
    "\<exists>s' u. next_unsent (\<lambda>_. False) (\<lambda>_. Inr 0) s = Some (s', [], Some u) \<and> uf_seq u = 2"
proof -
  define p where "p = \<lparr>pf_seq = 2, pf_frame = [8], pf_sent = False, pf_handed_out = False, pf_reply = Some (1 :: nat), pf_retention = (0 :: nat)\<rparr>"
  define s where "s = (demo_sender True True)\<lparr>rs_next_seq := 2,
    rs_pending := \<lparr>lq_oldest = [\<lparr>fn_value = demo_pending True True, fn_entry = 0\<rparr>], lq_newest = [\<lparr>fn_value = p, fn_entry = 0\<rparr>], lq_len = 2\<rparr>\<rparr>"
  have sub: "submit demo_to_json 8 (\<lambda>_. Inr 0) (\<lambda>_. Inr 0) ''x'' True 1 (demo_sender True True) = Some (s, [])"
    by (simp add: submit_def checked_add_def encoded_json_len_def encode_json_exact_def demo_to_json_def
        demo_frame_def demo_claims lq_push_def demo_sender_def s_def p_def)
  have "release_abandoned (\<lambda>_. False) s = Some (s\<lparr>rs_pending := lq_merge (rs_pending s)\<rparr>, [])"
    by (rule release_abandoned_live) (simp_all add: s_def lq_ok_def lq_list_def live_frames)
  then have "\<exists>s' u. next_unsent (\<lambda>_. False) (\<lambda>_. Inr 0) s = Some (s', [], Some u) \<and> uf_seq u = 2"
    by (simp add: next_unsent_def lq_iter_list s_def lq_list_def lq_merge_def demo_pending_def p_def demo_claims)
  then show ?thesis using that sub by blast
qed

theorem sent_never_rewritten_witness:
  "\<exists>st' s u. demo_reach demo_sent st' \<and> next_unsent (\<lambda>_. False) (\<lambda>_. Inr 0) (ls_sender st') = Some (s, [], Some u) \<and> uf_seq u \<noteq> 1"
proof -
  obtain s where s: "submit demo_to_json 8 (\<lambda>_. Inr 0) (\<lambda>_. Inr 0) ''x'' True 1 (demo_sender True True) = Some (s, [])"
    "\<exists>s' u. next_unsent (\<lambda>_. False) (\<lambda>_. Inr 0) s = Some (s', [], Some u) \<and> uf_seq u = 2" by (rule demo_second)
  define st' where "st' = demo_sent\<lparr>ls_sender := s, ls_submitted := [(0, ''x'', True), (1, ''x'', True)]\<rparr>"
  have "demo_step demo_sent st'"
    using link_step.submits [of demo_sent 1 demo_to_json 8 "\<lambda>_. Inr 0" "\<lambda>_. Inr 0" "''x''" True s "[]"] s(1)
    by (simp add: st'_def demo_sent_def demo_link_def link_start_def)
  then have later: "demo_reach demo_sent st'" by (rule reach_step [OF reach_start])
  obtain s' u where n: "next_unsent (\<lambda>_. False) (\<lambda>_. Inr 0) (ls_sender st') = Some (s', [], Some u)"
    using s(2) by (auto simp: st'_def)
  have "demo_pending True True \<in> set (rs_frames (ls_sender demo_sent))" "pf_sent (demo_pending True True)"
      "pf_seq (demo_pending True True) = 1"
    by (simp_all add: demo_sent_def demo_sender_def demo_pending_def rs_frames_def lq_list_def)
  then have "uf_seq u \<noteq> 1" using sent_never_rewritten [OF demo_codec demo_sent_reach _ _ later n] by metis
  then show ?thesis using later n by blast
qed

end
