(* ===== verification/Canonical_Ids.thy ===== *)
theory Canonical_Ids
  imports Mesh_Prelude
begin

text \<open>
  Canonical device identities (\<open>DeviceId\<close> of \<open>semantic/content.rs\<close>): the two parsers of the lowercase
  base32 spelling of an Ed25519 key, one that allocates and one that does not. The base32 codec of the
  \<open>data-encoding\<close> crate and the key check of \<open>ed25519-dalek\<close> are the fields of the parameter
  \<open>key_codec\<close>. A device identity is ordered by its spelling, so the rest of the development keeps
  an identity as that string and reads its key by \<open>id_bytes\<close>. Strings are ASCII; a letter outside
  ASCII is rejected by both parsers.
\<close>

record key_codec =
  kc_decode :: "string \<Rightarrow> byte list option"
  kc_encode :: "byte list \<Rightarrow> string"
  kc_valid :: "byte list \<Rightarrow> bool"

datatype id_error =
  NotLowercase | NotBase32 | NotThirtyTwoBytes | InvalidPublicKey | NotCanonicalSpelling | WrongIdLength

definition char_code :: "char \<Rightarrow> nat" where
  "char_code c = of_char c"

definition to_ascii_uppercase :: "char \<Rightarrow> char" where
  "to_ascii_uppercase c = (if 97 \<le> char_code c \<and> char_code c \<le> 122 then char_of (char_code c - 32) else c)"

definition to_ascii_lowercase :: "char \<Rightarrow> char" where
  "to_ascii_lowercase c = (if 65 \<le> char_code c \<and> char_code c \<le> 90 then char_of (char_code c + 32) else c)"


definition from_canonical_str :: "key_codec \<Rightarrow> string \<Rightarrow> id_error + (byte list \<times> string)" where
  "from_canonical_str kc spelling =
     (if spelling = [] \<or> map to_ascii_lowercase spelling \<noteq> spelling then Inl NotLowercase
      else case kc_decode kc (map to_ascii_uppercase spelling) of
             None \<Rightarrow> Inl NotBase32
           | Some bytes \<Rightarrow>
               if length bytes \<noteq> 32 then Inl NotThirtyTwoBytes
               else if \<not> kc_valid kc bytes then Inl InvalidPublicKey
               else let canonical = map to_ascii_lowercase (kc_encode kc bytes) in
                    if canonical \<noteq> spelling then Inl NotCanonicalSpelling else Inr (bytes, canonical))"


definition canonical_id :: "key_codec \<Rightarrow> string \<Rightarrow> bool" where
  "canonical_id kc spelling \<longleftrightarrow> (case from_canonical_str kc spelling of Inl _ \<Rightarrow> False | Inr _ \<Rightarrow> True)"

definition id_bytes :: "key_codec \<Rightarrow> string \<Rightarrow> byte list" where
  "id_bytes kc spelling = (case from_canonical_str kc spelling of Inl _ \<Rightarrow> [] | Inr (bytes, _) \<Rightarrow> bytes)"



section \<open>Agreement of the two parsers\<close>






lemma from_canonical_strD:
  assumes "from_canonical_str kc s = Inr (b, c)"
  shows "s \<noteq> []" "map to_ascii_lowercase s = s" "kc_decode kc (map to_ascii_uppercase s) = Some b"
    "length b = 32" "kc_valid kc b" "map to_ascii_lowercase (kc_encode kc b) = s" "c = s"
  using assms by (auto simp: from_canonical_str_def Let_def split: if_splits option.splits)

lemma canonical_id_iff: "canonical_id kc s \<longleftrightarrow> from_canonical_str kc s = Inr (id_bytes kc s, s)"
proof (cases "from_canonical_str kc s")
  case (Inr r)
  obtain b c where "r = (b, c)" by (cases r)
  then show ?thesis using Inr from_canonical_strD(7) [of kc s b c] by (simp add: canonical_id_def id_bytes_def)
qed (simp add: canonical_id_def)

lemma canonical_idD:
  assumes "canonical_id kc s"
  shows "from_canonical_str kc s = Inr (id_bytes kc s, s)"
  using assms unfolding canonical_id_iff .

lemmas canonical_id_facts = from_canonical_strD [OF canonical_idD]

lemma length_id_bytes: "canonical_id kc s \<Longrightarrow> length (id_bytes kc s) = 32"
  by (rule canonical_id_facts(4))

lemma id_bytes_inject:
  assumes "canonical_id kc s" "canonical_id kc t" "id_bytes kc s = id_bytes kc t"
  shows "s = t"
proof -
  have "s = map to_ascii_lowercase (kc_encode kc (id_bytes kc t))"
    using canonical_id_facts(6) [OF assms(1)] unfolding assms(3) by (rule sym)
  also have "\<dots> = t" by (rule canonical_id_facts(6) [OF assms(2)])
  finally show ?thesis .
qed



definition sample_codec :: key_codec where
  "sample_codec =
     \<lparr>kc_decode = (\<lambda>s. if s = replicate 52 CHR ''A'' then Some (replicate 32 0) else None),
      kc_encode = (\<lambda>_. replicate 52 CHR ''A''), kc_valid = (\<lambda>_. True)\<rparr>"


lemma sample_letters:
  "to_ascii_uppercase CHR ''a'' = CHR ''A''" "to_ascii_lowercase CHR ''A'' = CHR ''a''" "to_ascii_lowercase CHR ''a'' = CHR ''a''"
  by code_simp+

lemma sample_id: "from_canonical_str sample_codec (replicate 52 CHR ''a'') = Inr (replicate 32 0, replicate 52 CHR ''a'')"
  by (simp add: from_canonical_str_def sample_codec_def sample_letters)

lemma canonical_sample_id: "canonical_id sample_codec (replicate 52 CHR ''a'')"
  by (simp only: canonical_id_def sample_id sum.case)


end
