(* ===== verification/Hub_Protocol.thy ===== *)
theory Hub_Protocol
  imports Canonical_Ids
begin

text \<open>
  The hub messages (\<open>protocol/hub.rs\<close>): advertisements, directory requests and responses with their
  checked constructors, the bounds their deserialisers enforce, and the configuration digests of a hub
  tier and of a hub tree (\<open>protocol/parenting.rs\<close>). The JSON reader is third-party code: a deserialiser
  takes the fields it has read. SHA-256 is the parameter \<open>sha\<close>.
\<close>

section \<open>Messages\<close>

datatype hub_protocol_error =
  ZeroSequence | MaxPeersOutOfBounds | PageOutOfBounds | PeersNotSorted | CursorNotAdvanced
| EmptyPageContinues | NextAfterNotLast | PeerNotCanonical

definition hub_discovery_hard_max_peers :: nat where
  "hub_discovery_hard_max_peers = 64"

record hub_advertisement =
  ha_context_id :: "byte list"
  ha_origin :: string
  ha_sequence :: u64
  ha_configuration_digest :: "byte list"

definition deserialize_nonzero_sequence :: "u64 \<Rightarrow> hub_protocol_error + u64" where
  "deserialize_nonzero_sequence sequence = (if sequence = 0 then Inl ZeroSequence else Inr sequence)"

definition hub_advertisement_new ::
    "byte list \<Rightarrow> string \<Rightarrow> u64 \<Rightarrow> byte list \<Rightarrow> hub_protocol_error + hub_advertisement" where
  "hub_advertisement_new context_id origin sequence digest =
     (if sequence = 0 then Inl ZeroSequence
      else Inr \<lparr>ha_context_id = context_id, ha_origin = origin, ha_sequence = sequence,
                ha_configuration_digest = digest\<rparr>)"

record hub_discovery_request =
  dq_context_id :: "byte list"
  dq_request_sequence :: u64
  dq_after :: "string option"
  dq_max_peers :: u16

definition deserialize_nonzero_max_peers :: "u16 \<Rightarrow> hub_protocol_error + u16" where
  "deserialize_nonzero_max_peers max_peers =
     (if max_peers = 0 \<or> unat max_peers > hub_discovery_hard_max_peers then Inl MaxPeersOutOfBounds
      else Inr max_peers)"

definition hub_discovery_request_new ::
    "byte list \<Rightarrow> u64 \<Rightarrow> string option \<Rightarrow> u16 \<Rightarrow> hub_protocol_error + hub_discovery_request" where
  "hub_discovery_request_new context_id sequence after max_peers =
     (if sequence = 0 then Inl ZeroSequence
      else if max_peers = 0 \<or> unat max_peers > hub_discovery_hard_max_peers then Inl MaxPeersOutOfBounds
      else Inr \<lparr>dq_context_id = context_id, dq_request_sequence = sequence, dq_after = after,
                dq_max_peers = max_peers\<rparr>)"

record hub_discovery_response =
  ds_context_id :: "byte list"
  ds_request_sequence :: u64
  ds_peers :: "string list"
  ds_next_after :: "string option"

definition windows_ascend :: "string list \<Rightarrow> bool" where
  "windows_ascend peers \<longleftrightarrow> list_all (\<lambda>(a, b). a < b) (zip peers (tl peers))"

definition hub_discovery_response_new ::
    "byte list \<Rightarrow> u64 \<Rightarrow> string option \<Rightarrow> string list \<Rightarrow> string option \<Rightarrow> u16 \<Rightarrow>
     hub_protocol_error + hub_discovery_response" where
  "hub_discovery_response_new context_id sequence after peers next_after requested_max_peers =
     (if sequence = 0 then Inl ZeroSequence
      else if requested_max_peers = 0 \<or> unat requested_max_peers > hub_discovery_hard_max_peers \<or>
              length peers > unat requested_max_peers
      then Inl PageOutOfBounds
      else if \<not> windows_ascend peers then Inl PeersNotSorted
      else if (case (after, peers) of (Some after, first # _) \<Rightarrow> \<not> after < first | _ \<Rightarrow> False)
      then Inl CursorNotAdvanced
      else case next_after of
             Some next \<Rightarrow>
               if peers = [] then Inl EmptyPageContinues
               else if next \<noteq> last peers then Inl NextAfterNotLast
               else Inr \<lparr>ds_context_id = context_id, ds_request_sequence = sequence, ds_peers = peers,
                         ds_next_after = next_after\<rparr>
           | None \<Rightarrow>
               Inr \<lparr>ds_context_id = context_id, ds_request_sequence = sequence, ds_peers = peers,
                    ds_next_after = next_after\<rparr>)"

definition response_for_request ::
    "hub_discovery_request \<Rightarrow> string list \<Rightarrow> string option \<Rightarrow> hub_protocol_error + hub_discovery_response" where
  "response_for_request request peers next_after =
     hub_discovery_response_new (dq_context_id request) (dq_request_sequence request) (dq_after request) peers
       next_after (dq_max_peers request)"

section \<open>Reading a response\<close>

record hub_discovery_response_wire =
  rw_context_id :: "byte list"
  rw_request_sequence :: u64
  rw_peers :: "string list"
  rw_next_after :: "string option"

fun visit_seq :: "key_codec \<Rightarrow> string list \<Rightarrow> string list \<Rightarrow> hub_protocol_error + string list" where
  "visit_seq kc [] peers = Inr peers"
| "visit_seq kc (peer # elements) peers =
     (if \<not> canonical_id kc peer then Inl PeerNotCanonical
      else if length peers = hub_discovery_hard_max_peers then Inl PageOutOfBounds
      else if peers \<noteq> [] \<and> \<not> last peers < peer then Inl PeersNotSorted
      else visit_seq kc elements (peers @ [peer]))"

definition serialize_response :: "hub_discovery_response \<Rightarrow> hub_discovery_response_wire" where
  "serialize_response r =
     \<lparr>rw_context_id = ds_context_id r, rw_request_sequence = ds_request_sequence r, rw_peers = ds_peers r,
      rw_next_after = ds_next_after r\<rparr>"

definition deserialize_response ::
    "key_codec \<Rightarrow> hub_discovery_response_wire \<Rightarrow> hub_protocol_error + hub_discovery_response" where
  "deserialize_response kc w =
     (case deserialize_nonzero_sequence (rw_request_sequence w) of
        Inl e \<Rightarrow> Inl e
      | Inr sequence \<Rightarrow>
          (case visit_seq kc (rw_peers w) [] of
             Inl e \<Rightarrow> Inl e
           | Inr peers \<Rightarrow>
               if (case rw_next_after w of None \<Rightarrow> False | Some next \<Rightarrow> \<not> canonical_id kc next)
               then Inl PeerNotCanonical
               else hub_discovery_response_new (rw_context_id w) sequence None peers (rw_next_after w)
                      (word_of_nat hub_discovery_hard_max_peers)))"

section \<open>Configuration digests\<close>

record hub_trickle_profile =
  tf_imin_ms :: u64
  tf_imax_ms :: u64
  tf_k :: u64
  tf_reset_window_ms :: u64
  tf_max_resets_per_window :: u64

definition u64_to_le_bytes :: "u64 \<Rightarrow> byte list" where
  "u64_to_le_bytes w = map (\<lambda>i. ucast (drop_bit (8 * i) w)) [0..<8]"

definition u32_to_le_bytes :: "u32 \<Rightarrow> byte list" where
  "u32_to_le_bytes w = map (\<lambda>i. ucast (drop_bit (8 * i) w)) [0..<4]"

definition ascii_bytes :: "string \<Rightarrow> byte list" where
  "ascii_bytes s = map of_char s"

definition normalized_ids :: "string list \<Rightarrow> string list" where
  "normalized_ids ids = remdups_adj (sort ids)"

definition profile_bytes :: "hub_trickle_profile \<Rightarrow> byte list" where
  "profile_bytes t =
     u64_to_le_bytes (tf_imin_ms t) @ u64_to_le_bytes (tf_imax_ms t) @ u64_to_le_bytes (tf_k t) @
     u64_to_le_bytes (tf_reset_window_ms t) @ u64_to_le_bytes (tf_max_resets_per_window t)"

definition configuration_preimage ::
    "key_codec \<Rightarrow> string list \<Rightarrow> u32 \<Rightarrow> hub_trickle_profile \<Rightarrow> byte list" where
  "configuration_preimage kc hubs spoke_redundancy trickle =
     (let normalized = normalized_ids hubs in
      ascii_bytes ''myownmesh-hub-advertisement-configuration-v1'' @ [0] @ [1] @
      u64_to_le_bytes (word_of_nat (length normalized)) @ concat (map (id_bytes kc) normalized) @
      u32_to_le_bytes spoke_redundancy @ profile_bytes trickle)"

definition configuration_digest ::
    "(byte list \<Rightarrow> byte list) \<Rightarrow> key_codec \<Rightarrow> string list \<Rightarrow> u32 \<Rightarrow> hub_trickle_profile \<Rightarrow> byte list" where
  "configuration_digest sha kc hubs spoke_redundancy trickle =
     sha (configuration_preimage kc hubs spoke_redundancy trickle)"

definition tree_preimage ::
    "key_codec \<Rightarrow> byte list \<Rightarrow> string \<Rightarrow> string list \<Rightarrow> u32 \<Rightarrow> hub_trickle_profile \<Rightarrow> byte list" where
  "tree_preimage kc context_id root hubs configured_backup_count trickle =
     (let hubs = normalized_ids hubs in
      ascii_bytes ''myownmesh-hub-tree-configuration-v1'' @ [0] @ [1, 1, 2] @ context_id @ id_bytes kc root @
      u64_to_le_bytes (word_of_nat (length hubs)) @ concat (map (id_bytes kc) hubs) @
      u32_to_le_bytes configured_backup_count @ profile_bytes trickle)"

definition hub_tree_configuration_digest ::
    "(byte list \<Rightarrow> byte list) \<Rightarrow> key_codec \<Rightarrow> byte list \<Rightarrow> string \<Rightarrow> string list \<Rightarrow> u32 \<Rightarrow>
     hub_trickle_profile \<Rightarrow> byte list" where
  "hub_tree_configuration_digest sha kc context_id root hubs configured_backup_count trickle =
     sha (tree_preimage kc context_id root hubs configured_backup_count trickle)"

section \<open>Well-typed responses\<close>

definition page_typed :: "string list \<Rightarrow> string option \<Rightarrow> bool" where
  "page_typed peers next_after \<longleftrightarrow>
     sorted_wrt (<) peers \<and> (next_after = None \<or> peers \<noteq> [] \<and> next_after = Some (last peers))"

definition response_typed :: "key_codec \<Rightarrow> hub_discovery_response \<Rightarrow> bool" where
  "response_typed kc r \<longleftrightarrow>
     ds_request_sequence r \<noteq> 0 \<and> length (ds_peers r) \<le> 64 \<and> list_all (canonical_id kc) (ds_peers r) \<and>
     page_typed (ds_peers r) (ds_next_after r)"

lemma windows_ascend_iff: "windows_ascend peers \<longleftrightarrow> sorted_wrt (<) peers"
proof (induction peers)
  case (Cons a peers)
  then show ?case
  proof (cases peers)
    case (Cons b rest)
    have "sorted_wrt (<) (a # b # rest) \<longleftrightarrow> a < b \<and> sorted_wrt (<) (b # rest)"
      using sorted_wrt2 [OF transp_on_less] by blast
    then show ?thesis using Cons.IH Cons by (simp add: windows_ascend_def)
  qed (simp add: windows_ascend_def)
qed (simp add: windows_ascend_def)

lemma response_new_Inr:
  "hub_discovery_response_new ctx sequence after peers next_after requested = Inr r \<longleftrightarrow>
   sequence \<noteq> 0 \<and> requested \<noteq> 0 \<and> unat requested \<le> 64 \<and> length peers \<le> unat requested \<and>
   page_typed peers next_after \<and> (\<forall>a. after = Some a \<longrightarrow> peers = [] \<or> a < hd peers) \<and>
   r = \<lparr>ds_context_id = ctx, ds_request_sequence = sequence, ds_peers = peers, ds_next_after = next_after\<rparr>"
  by (auto simp: hub_discovery_response_new_def page_typed_def windows_ascend_iff hub_discovery_hard_max_peers_def
      not_less split: option.splits list.splits)

lemma visit_seq_Inr:
  assumes "sorted_wrt (<) peers" "length peers \<le> 64"
  shows "visit_seq kc elements peers = Inr ps \<longleftrightarrow>
    ps = peers @ elements \<and> list_all (canonical_id kc) elements \<and> sorted_wrt (<) ps \<and> length ps \<le> 64"
  using assms
proof (induction elements arbitrary: peers)
  case Nil
  then show ?case by auto
next
  case (Cons peer elements)
  have sorted: "sorted_wrt (<) (peers @ [peer]) \<longleftrightarrow> peers = [] \<or> last peers < peer"
    using Cons.prems(1) by (cases peers rule: rev_cases) (auto simp: sorted_wrt_append)
  show ?case
  proof (cases "length peers = 64 \<or> \<not> canonical_id kc peer \<or> \<not> (peers = [] \<or> last peers < peer)")
    case True
    then have "\<not> sorted_wrt (<) (peers @ [peer]) \<or> 64 < length (peers @ [peer]) \<or> \<not> canonical_id kc peer"
      unfolding sorted by auto
    then show ?thesis using True by (auto simp: hub_discovery_hard_max_peers_def sorted_wrt_append)
  next
    case False
    then have "sorted_wrt (<) (peers @ [peer])" "length (peers @ [peer]) \<le> 64"
      using sorted Cons.prems(2) by simp_all
    from Cons.IH [OF this] show ?thesis using False by (auto simp: hub_discovery_hard_max_peers_def)
  qed
qed

lemma visit_seq_typed:
  "\<lbrakk>list_all (canonical_id kc) ps; sorted_wrt (<) ps; length ps \<le> 64\<rbrakk> \<Longrightarrow> visit_seq kc ps [] = Inr ps"
  by (simp add: visit_seq_Inr)

text \<open>C38: reading a response back from its wire fields yields only well-typed responses: a nonzero request
  sequence, at most 64 strictly ascending canonical peers, and a continuation that names the last of
  them. Every well-typed response survives being written and read, and nothing else is accepted.\<close>

theorem response_wire_typed:
  "deserialize_response kc w = Inr r \<longleftrightarrow> response_typed kc r \<and> w = serialize_response r"
proof -
  have next_ok: "canonical_id kc (last ps)" if "list_all (canonical_id kc) ps" "ps \<noteq> []" for ps
    using that by (simp add: list_all_iff)
  show ?thesis
    by (cases w; cases r)
      (auto simp: deserialize_response_def deserialize_nonzero_sequence_def serialize_response_def response_typed_def
        visit_seq_typed visit_seq_Inr response_new_Inr hub_discovery_hard_max_peers_def page_typed_def next_ok
        split: sum.splits option.splits)
qed

section \<open>The hashed bytes determine the configuration\<close>

lemma length_u64_to_le_bytes [simp]: "length (u64_to_le_bytes w) = 8"
  by (simp add: u64_to_le_bytes_def)

lemma length_u32_to_le_bytes [simp]: "length (u32_to_le_bytes w) = 4"
  by (simp add: u32_to_le_bytes_def)

lemma length_profile_bytes [simp]: "length (profile_bytes t) = 40"
  by (simp add: profile_bytes_def)

lemma u64_to_le_bytes_inject [simp]: "u64_to_le_bytes v = u64_to_le_bytes w \<longleftrightarrow> v = w"
proof
  assume eq: "u64_to_le_bytes v = u64_to_le_bytes w"
  show "v = w"
  proof (rule bit_word_eqI)
    fix n assume "n < LENGTH(64)"
    then have n: "n div 8 < 8" "n = 8 * (n div 8) + n mod 8" "n mod 8 < 8" by simp_all
    from eq have "(ucast (drop_bit (8 * i) v) :: byte) = ucast (drop_bit (8 * i) w)" if "i < 8" for i
      using that by (simp add: u64_to_le_bytes_def)
    then have "bit (ucast (drop_bit (8 * (n div 8)) v) :: byte) (n mod 8) =
        bit (ucast (drop_bit (8 * (n div 8)) w) :: byte) (n mod 8)" using n(1) by simp
    then show "bit v n = bit w n" using n(3) by (simp add: bit_ucast_iff bit_drop_bit_eq)
  qed
qed simp

lemma u32_to_le_bytes_inject [simp]: "u32_to_le_bytes v = u32_to_le_bytes w \<longleftrightarrow> v = w"
proof
  assume eq: "u32_to_le_bytes v = u32_to_le_bytes w"
  show "v = w"
  proof (rule bit_word_eqI)
    fix n assume "n < LENGTH(32)"
    then have n: "n div 8 < 4" "n = 8 * (n div 8) + n mod 8" "n mod 8 < 8" by simp_all
    from eq have "(ucast (drop_bit (8 * i) v) :: byte) = ucast (drop_bit (8 * i) w)" if "i < 4" for i
      using that by (simp add: u32_to_le_bytes_def)
    then have "bit (ucast (drop_bit (8 * (n div 8)) v) :: byte) (n mod 8) =
        bit (ucast (drop_bit (8 * (n div 8)) w) :: byte) (n mod 8)" using n(1) by simp
    then show "bit v n = bit w n" using n(3) by (simp add: bit_ucast_iff bit_drop_bit_eq)
  qed
qed simp

lemma profile_bytes_inject [simp]: "profile_bytes t = profile_bytes t' \<longleftrightarrow> t = t'"
  by (cases t; cases t') (simp add: profile_bytes_def)

lemma set_normalized_ids [simp]: "set (normalized_ids ids) = set ids"
  by (simp add: normalized_ids_def)

lemma sorted_distinct_adj: "\<lbrakk>sorted xs; distinct_adj xs\<rbrakk> \<Longrightarrow> sorted_wrt (<) (xs :: string list)"
  by (induction xs rule: induct_list012) (auto simp: order_le_neq_trans less_le_trans)

lemma normalized_ids_sorted: "sorted_wrt (<) (normalized_ids ids)"
  by (simp add: normalized_ids_def sorted_distinct_adj)

lemma normalized_ids_eq_iff: "normalized_ids ids = normalized_ids ids' \<longleftrightarrow> set ids = set ids'"
proof
  assume "set ids = set ids'"
  then show "normalized_ids ids = normalized_ids ids'"
    by (intro strict_sorted_equal) (simp_all add: normalized_ids_sorted)
qed (metis set_normalized_ids)

lemma length_normalized_ids: "length (normalized_ids ids) \<le> length ids"
  using remdups_adj_length [of "sort ids"] by (simp add: normalized_ids_def)

lemma concat_fixed_inject:
  assumes "length xs = length ys" "\<forall>x \<in> set xs \<union> set ys. length (f x) = n" "concat (map f xs) = concat (map f ys)"
  shows "map f xs = map f ys"
  using assms by (induction xs ys rule: list_induct2) auto

definition framed_ids :: "key_codec \<Rightarrow> string list \<Rightarrow> byte list" where
  "framed_ids kc ids = u64_to_le_bytes (word_of_nat (length ids)) @ concat (map (id_bytes kc) ids)"

lemma length_concat_ids:
  "list_all (canonical_id kc) ids \<Longrightarrow> length (concat (map (id_bytes kc) ids)) = 32 * length ids"
  by (induction ids) (simp_all add: length_id_bytes)

text \<open>The count in front of the identities makes the framing unambiguous whatever follows.\<close>

lemma framed_ids_inject:
  assumes canonical: "list_all (canonical_id kc) ids" "list_all (canonical_id kc) ids'"
    and len: "length ids < 2 ^ 64" "length ids' < 2 ^ 64"
    and eq: "framed_ids kc ids @ rest = framed_ids kc ids' @ rest'"
  shows "ids = ids' \<and> rest = rest'"
proof -
  have "u64_to_le_bytes (word_of_nat (length ids)) = u64_to_le_bytes (word_of_nat (length ids'))"
    using eq by (simp add: framed_ids_def)
  then have "(word_of_nat (length ids) :: u64) = word_of_nat (length ids')" by simp
  then have "unat (word_of_nat (length ids) :: u64) = unat (word_of_nat (length ids') :: u64)" by simp
  then have same: "length ids = length ids'" using len by (simp add: unat_of_nat)
  have body: "concat (map (id_bytes kc) ids) @ rest = concat (map (id_bytes kc) ids') @ rest'"
    using eq same by (simp add: framed_ids_def)
  then have "concat (map (id_bytes kc) ids) = concat (map (id_bytes kc) ids')" "rest = rest'"
    using same length_concat_ids [OF canonical(1)] length_concat_ids [OF canonical(2)] by (auto simp: append_eq_append_conv)
  then have "map (id_bytes kc) ids = map (id_bytes kc) ids'"
    using same canonical length_id_bytes by (intro concat_fixed_inject [where n = 32]) (auto simp: list_all_iff)
  moreover have "inj_on (id_bytes kc) (set ids \<union> set ids')"
    by (rule inj_onI) (rule id_bytes_inject, use canonical in \<open>auto simp: list_all_iff\<close>)
  ultimately show ?thesis using \<open>rest = rest'\<close> map_inj_on by blast
qed

lemma configuration_preimage_framed:
  "configuration_preimage kc hubs r t =
   ascii_bytes ''myownmesh-hub-advertisement-configuration-v1'' @ [0] @ [1] @
   framed_ids kc (normalized_ids hubs) @ u32_to_le_bytes r @ profile_bytes t"
  by (simp add: configuration_preimage_def framed_ids_def Let_def)

lemma tree_preimage_framed:
  "tree_preimage kc ctx root hubs b t =
   ascii_bytes ''myownmesh-hub-tree-configuration-v1'' @ [0] @ [1, 1, 2] @ ctx @ id_bytes kc root @
   framed_ids kc (normalized_ids hubs) @ u32_to_le_bytes b @ profile_bytes t"
  by (simp add: tree_preimage_def framed_ids_def Let_def)

lemma preimage_domains_differ: "configuration_preimage kc hubs r t \<noteq> tree_preimage kc ctx root hubs' b t'"
  unfolding configuration_preimage_framed tree_preimage_framed
  by (simp add: ascii_bytes_def of_char_def)

lemma framed_tail_inject:
  assumes "list_all (canonical_id kc) hubs" "list_all (canonical_id kc) hubs'"
    and "length hubs < 2 ^ 64" "length hubs' < 2 ^ 64"
  shows "framed_ids kc (normalized_ids hubs) @ u32_to_le_bytes r @ profile_bytes t =
      framed_ids kc (normalized_ids hubs') @ u32_to_le_bytes r' @ profile_bytes t' \<longleftrightarrow>
    set hubs = set hubs' \<and> r = r' \<and> t = t'"
proof
  assume eq: "framed_ids kc (normalized_ids hubs) @ u32_to_le_bytes r @ profile_bytes t =
      framed_ids kc (normalized_ids hubs') @ u32_to_le_bytes r' @ profile_bytes t'"
  have "normalized_ids hubs = normalized_ids hubs' \<and>
      u32_to_le_bytes r @ profile_bytes t = u32_to_le_bytes r' @ profile_bytes t'"
    using assms length_normalized_ids [of hubs] length_normalized_ids [of hubs']
    by (intro framed_ids_inject [OF _ _ _ _ eq]) (auto simp: list_all_iff)
  then show "set hubs = set hubs' \<and> r = r' \<and> t = t'" by (simp add: normalized_ids_eq_iff)
next
  assume "set hubs = set hubs' \<and> r = r' \<and> t = t'"
  then show "framed_ids kc (normalized_ids hubs) @ u32_to_le_bytes r @ profile_bytes t =
      framed_ids kc (normalized_ids hubs') @ u32_to_le_bytes r' @ profile_bytes t'"
    using normalized_ids_eq_iff [of hubs hubs'] by simp
qed

text \<open>C39: the bytes hashed into a configuration digest determine the configuration. Two hub tiers hash the
  same bytes exactly when they have the same set of hubs, redundancy and Trickle profile; two hub trees
  exactly when context, root, set of hubs, backup count and profile agree; and a tier never hashes the
  bytes of a tree.\<close>

theorem digest_preimage_unambiguous:
  assumes "list_all (canonical_id kc) (root # root' # hubs @ hubs')" "length hubs < 2 ^ 64" "length hubs' < 2 ^ 64"
    and "length ctx = 32" "length ctx' = 32"
  shows "(configuration_preimage kc hubs r t = configuration_preimage kc hubs' r' t' \<longleftrightarrow>
      set hubs = set hubs' \<and> r = r' \<and> t = t') \<and>
    (tree_preimage kc ctx root hubs b t = tree_preimage kc ctx' root' hubs' b' t' \<longleftrightarrow>
      ctx = ctx' \<and> root = root' \<and> set hubs = set hubs' \<and> b = b' \<and> t = t') \<and>
    configuration_preimage kc hubs r t \<noteq> tree_preimage kc ctx' root' hubs' b' t'"
proof (intro conjI)
  have c: "list_all (canonical_id kc) hubs" "list_all (canonical_id kc) hubs'" "canonical_id kc root" "canonical_id kc root'"
    using assms(1) by simp_all
  note tail = framed_tail_inject [OF c(1,2) assms(2,3)]
  have roots: "length (id_bytes kc root) = length (id_bytes kc root')" using c(3,4) by (simp add: length_id_bytes)
  have root_eq: "id_bytes kc root = id_bytes kc root' \<longleftrightarrow> root = root'" using id_bytes_inject [OF c(3,4)] by blast
  show "configuration_preimage kc hubs r t = configuration_preimage kc hubs' r' t' \<longleftrightarrow>
      set hubs = set hubs' \<and> r = r' \<and> t = t'"
    unfolding configuration_preimage_framed using tail by simp
  show "tree_preimage kc ctx root hubs b t = tree_preimage kc ctx' root' hubs' b' t' \<longleftrightarrow>
      ctx = ctx' \<and> root = root' \<and> set hubs = set hubs' \<and> b = b' \<and> t = t'"
    unfolding tree_preimage_framed using assms(4,5) roots root_eq tail by (simp add: append_eq_append_conv)
  show "configuration_preimage kc hubs r t \<noteq> tree_preimage kc ctx' root' hubs' b' t'"
    by (rule preimage_domains_differ)
qed

theorem digest_preimage_unambiguous_witness:
  "let a = replicate 52 CHR ''a''; p = \<lparr>tf_imin_ms = 2, tf_imax_ms = 4, tf_k = 1, tf_reset_window_ms = 8,
     tf_max_resets_per_window = 1\<rparr>; c = replicate 32 0 in
   list_all (canonical_id sample_codec) (a # a # [a] @ [a, a]) \<and>
   (configuration_preimage sample_codec [a] 1 p = configuration_preimage sample_codec [a, a] 1 p \<longleftrightarrow> True) \<and>
   (tree_preimage sample_codec c a [a] 1 p = tree_preimage sample_codec c a [a, a] 2 p \<longleftrightarrow> False)"
  using digest_preimage_unambiguous [of sample_codec "replicate 52 CHR ''a''" "replicate 52 CHR ''a''"
      "[replicate 52 CHR ''a'']" "[replicate 52 CHR ''a'', replicate 52 CHR ''a'']" "replicate 32 0" "replicate 32 0"]
    canonical_sample_id unfolding Let_def by simp

end
