(* ===== verification/Trickle.thy ===== *)
theory Trickle
  imports Mesh_Prelude
begin

text \<open>
  The RFC 6206 timer of one advertisement stream (\<open>engine/trickle.rs\<close>). The clock reading is an
  argument of every operation. The random source is the parameter \<open>next_u64\<close> on an abstract state of
  the generator; an operation that draws from it returns \<open>None\<close> when the rejection loop never ends.
  A fallible operation on the timer returns the timer it leaves behind, the state of the generator,
  and the error or the value.
\<close>

section \<open>Policy and timer\<close>

record trickle_policy =
  tp_imin_ms :: u64
  tp_imax_ms :: u64
  tp_redundancy :: u32
  tp_reset_window_ms :: u64
  tp_max_resets_per_window :: u32

datatype trickle_policy_error = ZeroMinimum | MinimumBelowResolution | MaximumBelowMinimum | ZeroResetWindow

definition trickle_policy_checked ::
    "u64 \<Rightarrow> u64 \<Rightarrow> u32 \<Rightarrow> u64 \<Rightarrow> u32 \<Rightarrow> trickle_policy_error + trickle_policy" where
  "trickle_policy_checked imin imax redundancy reset_window max_resets =
     (if imin = 0 then Inl ZeroMinimum
      else if imin < 2 then Inl MinimumBelowResolution
      else if imax < imin then Inl MaximumBelowMinimum
      else if reset_window = 0 then Inl ZeroResetWindow
      else Inr \<lparr>tp_imin_ms = imin, tp_imax_ms = imax, tp_redundancy = redundancy,
                tp_reset_window_ms = reset_window, tp_max_resets_per_window = max_resets\<rparr>)"

datatype trickle_error = ClockWentBackwards | ClockOverflow | TrickleGenerationOverflow | TrickleRetired

datatype trickle_deadline = Transmission u64 | IntervalEnd u64

datatype trickle_poll = SleepUntil trickle_deadline | Transmit u64 | Suppress u64 | PollRetired

record trickle_timer =
  tt_policy :: trickle_policy
  tt_interval_start_ms :: u64
  tt_interval_end_ms :: u64
  tt_transmit_at_ms :: u64
  tt_interval_ms :: u64
  tt_consistent_count :: u32
  tt_transmission_decided :: bool
  tt_transmitted :: bool
  tt_suppressed :: bool
  tt_reset_window_start_ms :: u64
  tt_resets_in_window :: u32
  tt_repair_needed :: bool
  tt_last_now_ms :: u64
  tt_generation :: u64
  tt_retired :: bool

type_synonym ('r, 'a) drawn = "('r \<times> 'a) option"
type_synonym ('r, 'a) timed = "('r, trickle_timer \<times> (trickle_error + 'a)) drawn"

section \<open>Drawing below a bound\<close>

partial_function (option) uniform_loop ::
    "('r \<Rightarrow> u64 \<times> 'r) \<Rightarrow> u64 \<Rightarrow> u64 \<Rightarrow> 'r \<Rightarrow> ('r \<times> u64) option" where
  "uniform_loop next_u64 threshold upper rng =
     (case next_u64 rng of
        (sample, rng') \<Rightarrow>
          if sample \<ge> threshold then Some (rng', sample mod upper)
          else uniform_loop next_u64 threshold upper rng')"

definition uniform_threshold :: "u64 \<Rightarrow> u64" where
  "uniform_threshold upper = (- upper) mod upper"

definition uniform_below :: "('r \<Rightarrow> u64 \<times> 'r) \<Rightarrow> u64 \<Rightarrow> 'r \<Rightarrow> ('r, u64) drawn" where
  "uniform_below next_u64 upper rng = uniform_loop next_u64 (uniform_threshold upper) upper rng"

section \<open>Operations\<close>

definition check_now :: "u64 \<Rightarrow> trickle_timer \<Rightarrow> trickle_error + trickle_timer" where
  "check_now now t =
     (if now < tt_last_now_ms t then Inl ClockWentBackwards else Inr (t\<lparr>tt_last_now_ms := now\<rparr>))"

definition consume_reset_budget :: "u64 \<Rightarrow> trickle_timer \<Rightarrow> trickle_timer \<times> bool" where
  "consume_reset_budget now t =
     (let elapsed = saturating_sub now (tt_reset_window_start_ms t);
          t = (if elapsed \<ge> tp_reset_window_ms (tt_policy t)
               then t\<lparr>tt_reset_window_start_ms := now, tt_resets_in_window := 0\<rparr> else t)
      in if tt_resets_in_window t \<ge> tp_max_resets_per_window (tt_policy t) then (t, False)
         else (t\<lparr>tt_resets_in_window := tt_resets_in_window t + 1\<rparr>, True))"

definition next_interval_ms :: "trickle_timer \<Rightarrow> u64" where
  "next_interval_ms t =
     (let imax = tp_imax_ms (tt_policy t) in
      if tt_interval_ms t \<ge> imax then imax
      else if tt_interval_ms t > imax div 2 then imax
      else tt_interval_ms t * 2)"

definition begin_interval ::
    "('r \<Rightarrow> u64 \<times> 'r) \<Rightarrow> u64 \<Rightarrow> u64 \<Rightarrow> 'r \<Rightarrow> trickle_timer \<Rightarrow> ('r, unit) timed" where
  "begin_interval next_u64 start interval rng t =
     (case checked_add start interval of
        None \<Rightarrow> Some (rng, t, Inl ClockOverflow)
      | Some end_ms \<Rightarrow>
          let half = interval div 2 + interval mod 2; span = interval - half in
          (case uniform_below next_u64 span rng of
             None \<Rightarrow> None
           | Some (rng, k) \<Rightarrow>
               (case checked_add half k of
                  None \<Rightarrow> Some (rng, t, Inl ClockOverflow)
                | Some offset \<Rightarrow>
                    (case checked_add start offset of
                       None \<Rightarrow> Some (rng, t, Inl ClockOverflow)
                     | Some transmit_at \<Rightarrow>
                         (case checked_add (tt_generation t) 1 of
                            None \<Rightarrow> Some (rng, t, Inl TrickleGenerationOverflow)
                          | Some generation \<Rightarrow>
                              Some (rng, t\<lparr>tt_interval_start_ms := start, tt_interval_end_ms := end_ms,
                                tt_transmit_at_ms := transmit_at, tt_interval_ms := interval,
                                tt_consistent_count := 0, tt_transmission_decided := False,
                                tt_transmitted := False, tt_suppressed := False,
                                tt_generation := generation\<rparr>, Inr ()))))))"

fun skip_loop :: "u64 \<Rightarrow> u64 \<Rightarrow> nat \<Rightarrow> u64 \<Rightarrow> u64 \<Rightarrow> trickle_error + (u64 \<times> u64)" where
  "skip_loop imax now 0 start interval = Inr (start, interval)"
| "skip_loop imax now (Suc doublings) start interval =
     (if interval < imax
      then case checked_add start interval of
             None \<Rightarrow> Inl ClockOverflow
           | Some next_end \<Rightarrow>
               if next_end > now then Inr (start, interval)
               else skip_loop imax now doublings next_end
                      (if interval > imax div 2 then imax else interval * 2)
      else Inr (start, interval))"

definition skip_whole :: "u64 \<Rightarrow> u64 \<Rightarrow> u64 \<Rightarrow> u64 \<Rightarrow> trickle_error + u64" where
  "skip_whole imax now start interval =
     (if interval = imax
      then case checked_add start interval of
             None \<Rightarrow> Inl ClockOverflow
           | Some next_end \<Rightarrow>
               if next_end \<le> now
               then case checked_mul ((now - start) div interval) interval of
                      None \<Rightarrow> Inl ClockOverflow
                    | Some advance \<Rightarrow>
                        (case checked_add start advance of None \<Rightarrow> Inl ClockOverflow | Some s \<Rightarrow> Inr s)
               else Inr start
      else Inr start)"

definition skip_missed_intervals ::
    "('r \<Rightarrow> u64 \<times> 'r) \<Rightarrow> u64 \<Rightarrow> 'r \<Rightarrow> trickle_timer \<Rightarrow> ('r, unit) timed" where
  "skip_missed_intervals next_u64 now rng t =
     (let imax = tp_imax_ms (tt_policy t) in
      case skip_loop imax now 64 (tt_interval_end_ms t) (next_interval_ms t) of
        Inl e \<Rightarrow> Some (rng, t, Inl e)
      | Inr (start, interval) \<Rightarrow>
          (case skip_whole imax now start interval of
             Inl e \<Rightarrow> Some (rng, t, Inl e)
           | Inr start \<Rightarrow> begin_interval next_u64 start interval rng t))"

definition trickle_start ::
    "('r \<Rightarrow> u64 \<times> 'r) \<Rightarrow> trickle_policy \<Rightarrow> u64 \<Rightarrow> 'r \<Rightarrow> ('r, trickle_error + trickle_timer) drawn" where
  "trickle_start next_u64 policy now rng =
     (case begin_interval next_u64 now (tp_imin_ms policy) rng
        \<lparr>tt_policy = policy, tt_interval_start_ms = now, tt_interval_end_ms = 0, tt_transmit_at_ms = 0,
         tt_interval_ms = tp_imin_ms policy, tt_consistent_count = 0, tt_transmission_decided = False,
         tt_transmitted = False, tt_suppressed = False, tt_reset_window_start_ms = now,
         tt_resets_in_window = 0, tt_repair_needed = False, tt_last_now_ms = now, tt_generation = 0,
         tt_retired = False\<rparr> of
        None \<Rightarrow> None
      | Some (rng, t, Inl e) \<Rightarrow> Some (rng, Inl e)
      | Some (rng, t, Inr _) \<Rightarrow> Some (rng, Inr t))"

definition local_change :: "('r \<Rightarrow> u64 \<times> 'r) \<Rightarrow> u64 \<Rightarrow> 'r \<Rightarrow> trickle_timer \<Rightarrow> ('r, unit) timed" where
  "local_change next_u64 now rng t =
     (if tt_retired t then Some (rng, t, Inl TrickleRetired)
      else case check_now now t of
             Inl e \<Rightarrow> Some (rng, t, Inl e)
           | Inr t \<Rightarrow>
               (case checked_add now (tp_imin_ms (tt_policy t)) of
                  None \<Rightarrow> Some (rng, t, Inl ClockOverflow)
                | Some _ \<Rightarrow>
                    (case checked_add (tt_generation t) 1 of
                       None \<Rightarrow> Some (rng, t, Inl TrickleGenerationOverflow)
                     | Some _ \<Rightarrow>
                         begin_interval next_u64 now (tp_imin_ms (tt_policy t)) rng
                           (t\<lparr>tt_repair_needed := True\<rparr>))))"

definition bounded_local_change :: "('r \<Rightarrow> u64 \<times> 'r) \<Rightarrow> u64 \<Rightarrow> 'r \<Rightarrow> trickle_timer \<Rightarrow> ('r, bool) timed" where
  "bounded_local_change next_u64 now rng t =
     (if tt_retired t then Some (rng, t, Inl TrickleRetired)
      else case check_now now t of
             Inl e \<Rightarrow> Some (rng, t, Inl e)
           | Inr nxt \<Rightarrow>
               (case consume_reset_budget now nxt of
                  (nxt, False) \<Rightarrow> Some (rng, nxt\<lparr>tt_repair_needed := True\<rparr>, Inr False)
                | (nxt, True) \<Rightarrow>
                    (case local_change next_u64 now rng nxt of
                       None \<Rightarrow> None
                     | Some (rng, _, Inl e) \<Rightarrow> Some (rng, t, Inl e)
                     | Some (rng, nxt, Inr _) \<Rightarrow> Some (rng, nxt, Inr True))))"

definition acknowledge_repair :: "trickle_timer \<Rightarrow> trickle_timer \<times> (trickle_error + unit)" where
  "acknowledge_repair t =
     (if tt_retired t then (t, Inl TrickleRetired) else (t\<lparr>tt_repair_needed := False\<rparr>, Inr ()))"

definition decide :: "trickle_timer \<Rightarrow> trickle_timer \<times> trickle_poll" where
  "decide t =
     (let t = t\<lparr>tt_transmission_decided := True\<rparr> in
      if tt_consistent_count t < tp_redundancy (tt_policy t)
      then (t\<lparr>tt_transmitted := True\<rparr>, Transmit (tt_generation t))
      else (t\<lparr>tt_suppressed := True\<rparr>, Suppress (tt_generation t)))"

definition poll :: "('r \<Rightarrow> u64 \<times> 'r) \<Rightarrow> u64 \<Rightarrow> 'r \<Rightarrow> trickle_timer \<Rightarrow> ('r, trickle_poll) timed" where
  "poll next_u64 now rng t =
     (if tt_retired t then Some (rng, t, Inr PollRetired)
      else case check_now now t of
             Inl e \<Rightarrow> Some (rng, t, Inl e)
           | Inr t \<Rightarrow>
               if \<not> tt_transmission_decided t \<and> now < tt_transmit_at_ms t
               then Some (rng, t, Inr (SleepUntil (Transmission (tt_transmit_at_ms t))))
               else if \<not> tt_transmission_decided t \<and> now < tt_interval_end_ms t
               then (case decide t of (t, decision) \<Rightarrow> Some (rng, t, Inr decision))
               else if now < tt_interval_end_ms t
               then Some (rng, t, Inr (SleepUntil (IntervalEnd (tt_interval_end_ms t))))
               else (case skip_missed_intervals next_u64 now rng t of
                       None \<Rightarrow> None
                     | Some (rng, t, Inl e) \<Rightarrow> Some (rng, t, Inl e)
                     | Some (rng, t, Inr _) \<Rightarrow>
                         if now < tt_transmit_at_ms t
                         then Some (rng, t, Inr (SleepUntil (Transmission (tt_transmit_at_ms t))))
                         else (case decide t of (t, decision) \<Rightarrow> Some (rng, t, Inr decision))))"

section \<open>Fairness of the draw\<close>

text \<open>
  The samples that the loop accepts are those from \<open>uniform_threshold\<close> on. Their number is a multiple
  of the bound, so every value below the bound is the residue of equally many accepted samples.
\<close>

lemma unat_uniform_threshold:
  assumes "upper \<noteq> 0"
  shows "unat (uniform_threshold upper) = 2 ^ 64 mod unat upper"
proof -
  have u: "0 < unat upper" "unat upper < 2 ^ 64" using assms unat_u64_less [of upper] by (auto simp: unat_gt_0)
  have "(unat upper + unat (- upper)) mod 2 ^ 64 = unat (upper + - upper)"
    unfolding unat_word_ariths by simp
  then have "2 ^ 64 dvd unat upper + unat (- upper)" by (simp add: mod_eq_0_iff_dvd)
  then obtain q where q: "unat upper + unat (- upper) = 2 ^ 64 * q" by (rule dvdE)
  have "unat (- upper) < 2 ^ 64" by simp
  then have "2 ^ 64 * q < 2 ^ 64 * 2" unfolding q [symmetric] using u by linarith
  then have "q < 2" by simp
  moreover have "q \<noteq> 0" using q u(1) by (cases q) simp_all
  ultimately have "q = 1" by simp
  then have "unat (- upper) = 2 ^ 64 - unat upper" using q by simp
  then have "unat (uniform_threshold upper) = (2 ^ 64 - unat upper) mod unat upper"
    by (simp add: uniform_threshold_def unat_mod)
  also have "\<dots> = 2 ^ 64 mod unat upper"
    using u by (metis le_mod_geq less_imp_le)
  finally show ?thesis .
qed


lemma uniform_threshold_less: "upper \<noteq> 0 \<Longrightarrow> unat (uniform_threshold upper) < unat upper"
  by (simp add: unat_uniform_threshold unat_gt_0)

lemma mod_inj_on_block: "inj_on (\<lambda>s. s mod n) {a..<a + (n :: nat)}"
proof (rule linorder_inj_onI)
  fix s t assume st: "s < t" "s \<in> {a..<a + n}" "t \<in> {a..<a + n}"
  show "s mod n \<noteq> t mod n"
  proof
    assume "s mod n = t mod n"
    then have "n dvd t - s" using mod_eq_dvd_iff_nat [of s t n] st(1) by simp
    moreover have "0 < t - s" "t - s < n" using st by auto
    ultimately show False by (simp add: nat_dvd_not_less)
  qed
qed auto

lemma residue_in_block:
  assumes "(k :: nat) < n"
  shows "card {s. a \<le> s \<and> s < a + n \<and> s mod n = k} = 1"
proof -
  have "(\<lambda>s. s mod n) ` {a..<a + n} \<subseteq> {..<n}" using assms by auto
  moreover have "card ((\<lambda>s. s mod n) ` {a..<a + n}) = card {..<n}"
    using card_image [OF mod_inj_on_block] by simp
  ultimately have "(\<lambda>s. s mod n) ` {a..<a + n} = {..<n}" by (intro card_subset_eq) simp_all
  then have "k \<in> (\<lambda>s. s mod n) ` {a..<a + n}" using assms by simp
  then obtain s where s: "s \<in> {a..<a + n}" "s mod n = k" by blast
  have "{s. a \<le> s \<and> s < a + n \<and> s mod n = k} = {s}"
    using s mod_inj_on_block [of n a, THEN inj_onD] by auto
  then show ?thesis by simp
qed

lemma residues_in_blocks:
  assumes "(k :: nat) < n"
  shows "card {s. a \<le> s \<and> s < a + n * q \<and> s mod n = k} = q"
proof (induction q)
  case (Suc q)
  let ?old = "{s. a \<le> s \<and> s < a + n * q \<and> s mod n = k}"
  let ?new = "{s. a + n * q \<le> s \<and> s < a + n * q + n \<and> s mod n = k}"
  have "{s. a \<le> s \<and> s < a + n * Suc q \<and> s mod n = k} = ?old \<union> ?new" by auto
  moreover have "card (?old \<union> ?new) = card ?old + card ?new" by (rule card_Un_disjoint) auto
  ultimately show ?case using Suc.IH residue_in_block [OF assms, of "a + n * q"] by simp
qed simp

lemma uniform_blocks: "upper \<noteq> 0 \<Longrightarrow> unat (uniform_threshold upper) + unat upper * (2 ^ 64 div unat upper) = 2 ^ 64"
  using mod_mult_div_eq [of "2 ^ 64" "unat upper"] unat_uniform_threshold [of upper] by metis

lemma accepted_samples:
  assumes "k < upper"
  shows "card {s. uniform_threshold upper \<le> s \<and> s mod upper = k} = 2 ^ 64 div unat upper"
proof -
  have upper: "upper \<noteq> 0" using assms by auto
  let ?S = "{s. uniform_threshold upper \<le> s \<and> s mod upper = k}"
  let ?N = "{m. unat (uniform_threshold upper) \<le> m \<and>
      m < unat (uniform_threshold upper) + unat upper * (2 ^ 64 div unat upper) \<and> m mod unat upper = unat k}"
  have "unat ` ?S = ?N"
  proof (rule set_eqI, rule iffI)
    fix m assume "m \<in> unat ` ?S"
    then obtain s where s: "m = unat s" "uniform_threshold upper \<le> s" "s mod upper = k" by auto
    have "m mod unat upper = unat k" using s(1,3) unat_mod [of s upper] by simp
    then show "m \<in> ?N" unfolding uniform_blocks [OF upper] using s(1,2) by (simp add: word_le_nat_alt)
  next
    fix m assume "m \<in> ?N"
    then have m: "unat (uniform_threshold upper) \<le> m" "m < 2 ^ 64" "m mod unat upper = unat k"
      unfolding uniform_blocks [OF upper] by simp_all
    then have u: "unat (word_of_nat m :: u64) = m" by (simp add: unat_of_nat)
    then have "(word_of_nat m :: u64) \<in> ?S"
      using m by (simp add: word_le_nat_alt word_unat_eq_iff [of _ k] unat_mod)
    then have "unat (word_of_nat m :: u64) \<in> unat ` ?S" by (rule imageI)
    then show "m \<in> unat ` ?S" unfolding u .
  qed
  moreover have "inj_on unat ?S" by (simp add: inj_on_def word_unat_eq_iff)
  ultimately have "card ?S = card ?N" using card_image [of unat ?S] by argo
  also have "\<dots> = 2 ^ 64 div unat upper" using assms by (intro residues_in_blocks) (simp add: word_less_nat_alt)
  finally show ?thesis .
qed

fun draw_state :: "('r \<Rightarrow> u64 \<times> 'r) \<Rightarrow> 'r \<Rightarrow> nat \<Rightarrow> 'r" where
  "draw_state next_u64 rng 0 = rng"
| "draw_state next_u64 rng (Suc i) = draw_state next_u64 (snd (next_u64 rng)) i"

definition draw :: "('r \<Rightarrow> u64 \<times> 'r) \<Rightarrow> 'r \<Rightarrow> nat \<Rightarrow> u64" where
  "draw next_u64 rng i = fst (next_u64 (draw_state next_u64 rng i))"

lemma draw_simps [simp]:
  "draw next_u64 rng 0 = fst (next_u64 rng)" "draw next_u64 rng (Suc i) = draw next_u64 (snd (next_u64 rng)) i"
  by (simp_all add: draw_def)

lemma uniform_loop_first:
  "\<lbrakk>threshold \<le> draw next_u64 rng i; \<And>j. j < i \<Longrightarrow> draw next_u64 rng j < threshold\<rbrakk> \<Longrightarrow>
   uniform_loop next_u64 threshold upper rng =
     Some (draw_state next_u64 rng (Suc i), draw next_u64 rng i mod upper)"
proof (induction i arbitrary: rng)
  case 0
  then show ?case by (subst uniform_loop.simps) (simp add: case_prod_beta)
next
  case (Suc i)
  have first: "\<not> threshold \<le> fst (next_u64 rng)" using Suc.prems(2) [of 0] by (simp add: not_le)
  have "draw next_u64 (snd (next_u64 rng)) j < threshold" if "j < i" for j
    using Suc.prems(2) [of "Suc j"] that by simp
  with Suc.IH [of "snd (next_u64 rng)"] Suc.prems(1) first show ?case
    by (subst uniform_loop.simps) (simp add: case_prod_beta)
qed

lemma uniform_loop_accepts:
  assumes "uniform_loop next_u64 threshold upper rng = Some y"
  shows "\<exists>i. threshold \<le> draw next_u64 rng i"
proof (rule uniform_loop.raw_induct [where P = "\<lambda>next_u64 threshold upper rng y. \<exists>i. threshold \<le> draw next_u64 rng i",
      OF _ assms])
  fix loop next_u64 threshold upper rng y
  assume IH: "\<And>next_u64 threshold upper rng y. loop next_u64 threshold upper rng = Some y \<Longrightarrow>
      \<exists>i. threshold \<le> draw next_u64 rng i"
    and step: "(case next_u64 rng of (sample, rng') \<Rightarrow>
      if threshold \<le> sample then Some (rng', sample mod upper) else loop next_u64 threshold upper rng') = Some y"
  show "\<exists>i. threshold \<le> draw next_u64 rng i"
  proof (cases "threshold \<le> fst (next_u64 rng)")
    case True
    then show ?thesis by (intro exI [of _ 0]) simp
  next
    case False
    then have "loop next_u64 threshold upper (snd (next_u64 rng)) = Some y"
      using step by (simp add: case_prod_beta)
    from IH [OF this] obtain i where "threshold \<le> draw next_u64 (snd (next_u64 rng)) i" ..
    then show ?thesis by (intro exI [of _ "Suc i"]) simp
  qed
qed

lemma uniform_below_Some:
  assumes "uniform_below next_u64 upper rng = Some y"
  shows "\<exists>i. uniform_threshold upper \<le> draw next_u64 rng i"
  by (rule uniform_loop_accepts [OF assms [unfolded uniform_below_def]])

lemma uniform_below_first:
  assumes "uniform_threshold upper \<le> draw next_u64 rng i"
  obtains n where "uniform_threshold upper \<le> draw next_u64 rng n"
    "\<And>j. j < n \<Longrightarrow> draw next_u64 rng j < uniform_threshold upper"
    "uniform_below next_u64 upper rng = Some (draw_state next_u64 rng (Suc n), draw next_u64 rng n mod upper)"
proof -
  define n where "n = (LEAST i. uniform_threshold upper \<le> draw next_u64 rng i)"
  have n: "uniform_threshold upper \<le> draw next_u64 rng n" unfolding n_def using assms by (rule LeastI)
  have "draw next_u64 rng j < uniform_threshold upper" if "j < n" for j
    using not_less_Least [OF that [unfolded n_def]] by (simp add: not_le)
  with that uniform_loop_first [of "uniform_threshold upper" next_u64 rng n] n show ?thesis unfolding uniform_below_def by blast
qed

lemma uniform_below_less:
  assumes "uniform_below next_u64 upper rng = Some (rng', k)" "upper \<noteq> 0"
  shows "k < upper"
proof -
  obtain i where "uniform_threshold upper \<le> draw next_u64 rng i" using uniform_below_Some [OF assms(1)] ..
  then obtain n where "uniform_below next_u64 upper rng =
      Some (draw_state next_u64 rng (Suc n), draw next_u64 rng n mod upper)"
    by (rule uniform_below_first)
  then have "k = draw next_u64 rng n mod upper" using assms(1) by simp
  then show ?thesis using assms(2) by (simp add: word_less_nat_alt unat_mod unat_gt_0)
qed

lemma rejected_samples: "card {s :: u64. s < t} = unat t"
proof -
  have "unat ` {s. s < t} = {..<unat t}"
  proof (rule set_eqI, rule iffI)
    fix m assume m: "m \<in> {..<unat t}"
    then have "m < 2 ^ 64" using unat_u64_less [of t] by (simp add: less_trans)
    then have "unat (word_of_nat m :: u64) = m" by (simp add: unat_of_nat)
    then show "m \<in> unat ` {s. s < t}"
      using m by (intro image_eqI [of _ _ "word_of_nat m"]) (simp_all add: word_less_nat_alt)
  qed (auto simp: word_less_nat_alt)
  moreover have "inj_on unat {s :: u64. s < t}" by (simp add: inj_on_def word_unat_eq_iff)
  ultimately show ?thesis using card_image [of unat "{s :: u64. s < t}"] by simp
qed

lemma threshold_below_half:
  assumes "upper \<noteq> 0"
  shows "2 * unat (uniform_threshold upper) < 2 ^ 64"
proof -
  have "unat upper \<le> 2 ^ 64" by (rule less_imp_le) simp
  moreover have pos: "0 < unat upper" using assms by (simp add: unat_gt_0)
  ultimately have "1 \<le> 2 ^ 64 div unat upper" by (simp add: Suc_leI div_greater_zero_iff)
  then have "unat upper * 1 \<le> unat upper * (2 ^ 64 div unat upper)" by (rule mult_le_mono2)
  then have "unat (uniform_threshold upper) + unat upper \<le> 2 ^ 64"
    using uniform_blocks [OF assms] by linarith
  then show ?thesis using uniform_threshold_less [OF assms] by linarith
qed

text \<open>C28: \<open>uniform_below\<close> returns as soon as a sample is accepted, and not before. The value is that
  sample modulo the bound, every value below the bound is reached by equally many accepted samples,
  and fewer than half of all samples are rejected.\<close>

theorem uniform_below_fair:
  assumes "upper \<noteq> 0"
  shows "(uniform_below next_u64 upper rng \<noteq> None \<longleftrightarrow> (\<exists>i. uniform_threshold upper \<le> draw next_u64 rng i)) \<and>
    (uniform_threshold upper \<le> draw next_u64 rng i \<and> (\<forall>j < i. draw next_u64 rng j < uniform_threshold upper) \<longrightarrow>
       uniform_below next_u64 upper rng = Some (draw_state next_u64 rng (Suc i), draw next_u64 rng i mod upper)) \<and>
    (\<forall>k < upper. card {s. uniform_threshold upper \<le> s \<and> s mod upper = k} = 2 ^ 64 div unat upper) \<and>
    2 * card {s. s < uniform_threshold upper} < 2 ^ 64"
proof (intro conjI)
  show "uniform_below next_u64 upper rng \<noteq> None \<longleftrightarrow> (\<exists>i. uniform_threshold upper \<le> draw next_u64 rng i)"
  proof
    assume "\<exists>i. uniform_threshold upper \<le> draw next_u64 rng i"
    then obtain i where "uniform_threshold upper \<le> draw next_u64 rng i" ..
    then show "uniform_below next_u64 upper rng \<noteq> None" by (rule uniform_below_first) simp
  next
    assume "uniform_below next_u64 upper rng \<noteq> None"
    then obtain y where "uniform_below next_u64 upper rng = Some y" by blast
    then show "\<exists>i. uniform_threshold upper \<le> draw next_u64 rng i" by (rule uniform_below_Some)
  qed
  show "uniform_threshold upper \<le> draw next_u64 rng i \<and> (\<forall>j < i. draw next_u64 rng j < uniform_threshold upper) \<longrightarrow>
      uniform_below next_u64 upper rng = Some (draw_state next_u64 rng (Suc i), draw next_u64 rng i mod upper)"
    using uniform_loop_first [of "uniform_threshold upper" next_u64 rng i] unfolding uniform_below_def by blast
  show "\<forall>k < upper. card {s. uniform_threshold upper \<le> s \<and> s mod upper = k} = 2 ^ 64 div unat upper"
    using accepted_samples by blast
  show "2 * card {s. s < uniform_threshold upper} < 2 ^ 64"
    unfolding rejected_samples by (rule threshold_below_half [OF assms])
qed

lemma sample_draw [simp]: "draw (\<lambda>r :: u64. (r, r + 1)) r i = r + word_of_nat i"
proof (induction i arbitrary: r)
  case (Suc i)
  then show ?case by (simp add: algebra_simps)
qed simp

theorem uniform_below_fair_witness:
  "uniform_below (\<lambda>r :: u64. (r, r + 1)) 10 0 = Some (7, 6) \<and>
   card {s. uniform_threshold 10 \<le> s \<and> s mod 10 = 3} = 1844674407370955161"
proof -
  have t: "uniform_threshold 10 = 6" by (simp add: uniform_threshold_def)
  have "draw_state (\<lambda>r :: u64. (r, r + 1)) 0 (Suc 6) = 7" by (simp add: eval_nat_numeral)
  moreover have "\<forall>j < 6. draw (\<lambda>r :: u64. (r, r + 1)) 0 j < uniform_threshold 10"
    by (simp add: t word_less_nat_alt unat_of_nat)
  moreover have "(3 :: u64) < 10" by (simp add: word_less_nat_alt)
  ultimately show ?thesis
    using uniform_below_fair [of 10 "\<lambda>r :: u64. (r, r + 1)" 0 6] by (simp add: t)
qed

section \<open>Catching up with missed intervals\<close>

text \<open>
  The reference of RFC 6206: when an interval ends, the next one starts there with the length doubled
  up to the maximum. \<open>catch_up\<close> takes these steps one by one until the interval holds the reading of
  the clock; the code takes at most 64 of them and one division.
\<close>

function catch_up :: "nat \<Rightarrow> nat \<Rightarrow> nat \<Rightarrow> nat \<Rightarrow> nat \<times> nat" where
  "catch_up imax now start interval =
     (if interval = 0 \<or> now < start + interval then (start, interval)
      else catch_up imax now (start + interval) (min (2 * interval) imax))"
  by pat_completeness auto
termination
  by (relation "measure (\<lambda>(imax, now, start, interval). Suc now - start)") auto

declare catch_up.simps [simp del]

lemma catch_up_here: "now < start + interval \<Longrightarrow> catch_up imax now start interval = (start, interval)"
  by (simp add: catch_up.simps)

lemma catch_up_step:
  "\<lbrakk>0 < interval; start + interval \<le> now\<rbrakk> \<Longrightarrow>
   catch_up imax now start interval = catch_up imax now (start + interval) (min (2 * interval) imax)"
  by (simp add: catch_up.simps [of imax now start interval])

lemma catch_up_covers:
  assumes "0 < imin" "imin \<le> imax" "imin \<le> interval" "interval \<le> imax" "start \<le> now"
    and "catch_up imax now start interval = (s, i)"
  shows "s \<le> now \<and> now < s + i \<and> imin \<le> i \<and> i \<le> imax \<and> start \<le> s"
  using assms
proof (induction imax now start interval rule: catch_up.induct)
  case (1 imax now start interval)
  show ?case
  proof (cases "now < start + interval")
    case True
    then show ?thesis using "1.prems" by (simp add: catch_up_here)
  next
    case False
    have "s \<le> now \<and> now < s + i \<and> imin \<le> i \<and> i \<le> imax \<and> start + interval \<le> s"
      using "1.prems" False by (intro "1.IH") (simp_all add: catch_up_step)
    then show ?thesis by simp
  qed
qed

lemma catch_up_whole:
  "\<lbrakk>0 < imax; start \<le> now\<rbrakk> \<Longrightarrow>
   catch_up imax now start imax = (start + (now - start) div imax * imax, imax)"
proof (induction "now - start" arbitrary: start rule: less_induct)
  case less
  show ?case
  proof (cases "now < start + imax")
    case True
    then show ?thesis using less.prems by (simp add: catch_up_here div_less)
  next
    case False
    then have ih: "catch_up imax now (start + imax) imax = (start + imax + (now - (start + imax)) div imax * imax, imax)"
      using less.prems by (intro less.hyps) auto
    have "(now - start) div imax = Suc ((now - start - imax) div imax)"
      using False less.prems by (intro le_div_geq) auto
    then show ?thesis using ih catch_up_step [of imax start now imax] False less.prems by simp
  qed
qed

definition grown :: "u64 \<Rightarrow> u64 \<Rightarrow> u64" where
  "grown imax interval = (if interval > imax div 2 then imax else interval * 2)"

lemma unat_grown:
  assumes "interval \<le> imax"
  shows "unat (grown imax interval) = min (2 * unat interval) (unat imax)"
proof (cases "interval > imax div 2")
  case True
  then have "unat imax div 2 < unat interval" by (simp add: word_less_nat_alt unat_div)
  then show ?thesis using True by (simp add: grown_def)
next
  case False
  then have le: "unat interval \<le> unat imax div 2" by (simp add: word_less_nat_alt unat_div)
  then have "2 * unat interval \<le> unat imax" by simp
  moreover from this have "unat interval * 2 < 2 ^ 64" using unat_bound [of imax] by linarith
  then have "unat (interval * 2) = 2 * unat interval" by (simp add: unat_word_ariths)
  ultimately show ?thesis using False by (simp add: grown_def)
qed

lemma skip_loop_catches_up:
  assumes "0 < unat interval" "interval \<le> imax" "start \<le> now" "unat imax \<le> unat interval * 2 ^ d"
  shows "case skip_loop imax now d start interval of
      Inl e \<Rightarrow> e = ClockOverflow \<and>
        (case catch_up (unat imax) (unat now) (unat start) (unat interval) of (s, i) \<Rightarrow> 2 ^ 64 \<le> s + i)
    | Inr (s, i) \<Rightarrow>
        catch_up (unat imax) (unat now) (unat start) (unat interval) =
          catch_up (unat imax) (unat now) (unat s) (unat i) \<and>
        s \<le> now \<and> 0 < unat i \<and> i \<le> imax \<and> (i < imax \<longrightarrow> unat now < unat s + unat i)"
  using assms
proof (induction d arbitrary: start interval)
  case 0
  then show ?case by (simp add: word_le_nat_alt word_less_nat_alt)
next
  case (Suc d)
  show ?case
  proof (cases "interval < imax")
    case False
    then show ?thesis using Suc.prems by simp
  next
    case True
    show ?thesis
    proof (cases "checked_add start interval")
      case None
      then have "2 ^ 64 \<le> unat start + unat interval" by (simp add: checked_add_None_iff)
      then have "unat now < unat start + unat interval" using unat_bound [of now] by linarith
      then show ?thesis using True None \<open>2 ^ 64 \<le> unat start + unat interval\<close> by (simp add: catch_up_here)
    next
      case (Some next_end)
      then have e: "unat next_end = unat start + unat interval" by (simp add: checked_add_Some_iff)
      show ?thesis
      proof (cases "next_end > now")
        case True': True
        then show ?thesis using True Some Suc.prems e by (simp add: word_less_nat_alt)
      next
        case False
        then have late: "next_end \<le> now" by simp
        have g: "unat (grown imax interval) = min (2 * unat interval) (unat imax)"
          using unat_grown [OF Suc.prems(2)] .
        have step: "catch_up (unat imax) (unat now) (unat start) (unat interval) =
            catch_up (unat imax) (unat now) (unat next_end) (unat (grown imax interval))"
          unfolding g e using late Suc.prems(1) e by (intro catch_up_step) (simp_all add: word_le_nat_alt)
        have "unat imax \<le> unat (grown imax interval) * 2 ^ d"
          unfolding g using Suc.prems(4) by (cases "2 * unat interval \<le> unat imax") (simp_all add: min_def)
        moreover have "0 < unat (grown imax interval)" "grown imax interval \<le> imax"
          using g Suc.prems(1,2) by (auto simp: word_le_nat_alt)
        ultimately have ih: "case skip_loop imax now d next_end (grown imax interval) of
            Inl e \<Rightarrow> e = ClockOverflow \<and>
              (case catch_up (unat imax) (unat now) (unat next_end) (unat (grown imax interval)) of
                 (s, i) \<Rightarrow> 2 ^ 64 \<le> s + i)
          | Inr (s, i) \<Rightarrow>
              catch_up (unat imax) (unat now) (unat next_end) (unat (grown imax interval)) =
                catch_up (unat imax) (unat now) (unat s) (unat i) \<and>
              s \<le> now \<and> 0 < unat i \<and> i \<le> imax \<and> (i < imax \<longrightarrow> unat now < unat s + unat i)"
          using late by (intro Suc.IH)
        have "skip_loop imax now (Suc d) start interval = skip_loop imax now d next_end (grown imax interval)"
          using True Some False by (simp add: grown_def)
        then show ?thesis using ih unfolding step by simp
      qed
    qed
  qed
qed

lemma skip_whole_catches_up:
  assumes "0 < unat interval" "interval \<le> imax" "start \<le> now" "interval < imax \<longrightarrow> unat now < unat start + unat interval"
  shows "case skip_whole imax now start interval of
      Inl e \<Rightarrow> e = ClockOverflow \<and>
        (case catch_up (unat imax) (unat now) (unat start) (unat interval) of (s, i) \<Rightarrow> 2 ^ 64 \<le> s + i)
    | Inr s \<Rightarrow> catch_up (unat imax) (unat now) (unat start) (unat interval) = (unat s, unat interval)"
proof (cases "interval = imax")
  case False
  then have "unat now < unat start + unat interval" using assms(2,4) by simp
  then show ?thesis using False by (simp add: skip_whole_def catch_up_here)
next
  case True
  have le: "unat start \<le> unat now" using assms(3) by (simp add: word_le_nat_alt)
  show ?thesis
  proof (cases "checked_add start interval")
    case None
    then have over: "2 ^ 64 \<le> unat start + unat interval" by (simp add: checked_add_None_iff)
    then have "unat now < unat start + unat interval" using unat_bound [of now] by linarith
    then show ?thesis using True None over by (simp add: skip_whole_def catch_up_here)
  next
    case (Some next_end)
    then have e: "unat next_end = unat start + unat interval" by (simp add: checked_add_Some_iff)
    show ?thesis
    proof (cases "next_end \<le> now")
      case False
      then have "unat now < unat start + unat interval" using e by (simp add: word_le_nat_alt)
      then show ?thesis using True Some False by (simp add: skip_whole_def catch_up_here)
    next
      case late: True
      let ?missed = "(now - start) div interval"
      have m: "unat ?missed = (unat now - unat start) div unat interval"
        using assms(3) by (simp add: unat_div unat_sub)
      have bound: "(unat now - unat start) div unat interval * unat interval \<le> unat now - unat start" by simp
      then have "unat ?missed * unat interval < 2 ^ 64" unfolding m using unat_bound [of now] by linarith
      then obtain advance where adv: "checked_mul ?missed interval = Some advance"
        by (auto simp: checked_mul_def)
      then have a: "unat advance = (unat now - unat start) div unat interval * unat interval"
        using m by (simp add: checked_mul_Some_iff)
      then have "unat start + unat advance < 2 ^ 64" using bound le unat_bound [of now] by linarith
      then obtain s where s: "checked_add start advance = Some s" by (auto simp: checked_add_def)
      then have "unat s = unat start + (unat now - unat start) div unat interval * unat interval"
        using a by (simp add: checked_add_Some_iff)
      then show ?thesis
        using True Some late adv s catch_up_whole [of "unat interval" "unat start" "unat now"] assms(1) le
        by (simp add: skip_whole_def)
    qed
  qed
qed

definition policy_ok :: "trickle_policy \<Rightarrow> bool" where
  "policy_ok p \<longleftrightarrow> 2 \<le> tp_imin_ms p \<and> tp_imin_ms p \<le> tp_imax_ms p \<and> tp_reset_window_ms p \<noteq> 0"

definition trickle_ok :: "trickle_timer \<Rightarrow> bool" where
  "trickle_ok t \<longleftrightarrow>
     policy_ok (tt_policy t) \<and> tp_imin_ms (tt_policy t) \<le> tt_interval_ms t \<and>
     tt_interval_ms t \<le> tp_imax_ms (tt_policy t) \<and>
     unat (tt_interval_end_ms t) = unat (tt_interval_start_ms t) + unat (tt_interval_ms t) \<and>
     unat (tt_interval_start_ms t) + (unat (tt_interval_ms t) + 1) div 2 \<le> unat (tt_transmit_at_ms t) \<and>
     tt_transmit_at_ms t < tt_interval_end_ms t \<and> tt_interval_start_ms t \<le> tt_last_now_ms t \<and>
     tt_resets_in_window t \<le> tp_max_resets_per_window (tt_policy t)"

lemma next_interval_grown: "tt_interval_ms t \<le> tp_imax_ms (tt_policy t) \<Longrightarrow>
    unat (next_interval_ms t) = min (2 * unat (tt_interval_ms t)) (unat (tp_imax_ms (tt_policy t)))"
  using unat_grown [of "tt_interval_ms t" "tp_imax_ms (tt_policy t)"]
  by (auto simp: next_interval_ms_def grown_def Let_def word_le_nat_alt word_less_nat_alt)

lemma skip_reference:
  assumes "trickle_ok t" "tt_interval_end_ms t \<le> now"
  shows "case catch_up (unat (tp_imax_ms (tt_policy t))) (unat now) (unat (tt_interval_end_ms t))
           (min (2 * unat (tt_interval_ms t)) (unat (tp_imax_ms (tt_policy t)))) of
      (s, i) \<Rightarrow>
        s \<le> unat now \<and> unat now < s + i \<and> unat (tp_imin_ms (tt_policy t)) \<le> i \<and>
        i \<le> unat (tp_imax_ms (tt_policy t)) \<and>
        skip_missed_intervals next_u64 now rng t =
          (if 2 ^ 64 \<le> s + i then Some (rng, t, Inl ClockOverflow)
           else begin_interval next_u64 (word_of_nat s) (word_of_nat i) rng t)"
proof -
  let ?imax = "tp_imax_ms (tt_policy t)" and ?fin = "tt_interval_end_ms t"
  let ?next = "next_interval_ms t"
  have p: "2 \<le> unat (tp_imin_ms (tt_policy t))" "unat (tp_imin_ms (tt_policy t)) \<le> unat ?imax"
      "unat (tp_imin_ms (tt_policy t)) \<le> unat (tt_interval_ms t)" "tt_interval_ms t \<le> ?imax"
    using assms(1) by (simp_all add: trickle_ok_def policy_ok_def word_le_nat_alt)
  have n: "unat ?next = min (2 * unat (tt_interval_ms t)) (unat ?imax)" by (rule next_interval_grown [OF p(4)])
  then have next_ok: "0 < unat ?next" "?next \<le> ?imax" "unat (tp_imin_ms (tt_policy t)) \<le> unat ?next"
    using p by (auto simp: word_le_nat_alt)
  have "unat ?imax \<le> unat ?next * 2 ^ 64"
  proof -
    have "1 * 2 ^ 64 \<le> unat ?next * 2 ^ 64" using next_ok(1) by (intro mult_le_mono1) simp
    then show ?thesis using unat_bound [of ?imax] by linarith
  qed
  note loop = skip_loop_catches_up [OF next_ok(1,2) assms(2) this]
  obtain s i where si: "catch_up (unat ?imax) (unat now) (unat ?fin) (unat ?next) = (s, i)" by fastforce
  have cov: "s \<le> unat now \<and> unat now < s + i \<and> unat (tp_imin_ms (tt_policy t)) \<le> i \<and> i \<le> unat ?imax"
    using catch_up_covers [OF _ p(2) next_ok(3) _ _ si] p(1) next_ok(2) assms(2) by (simp add: word_le_nat_alt)
  have "skip_missed_intervals next_u64 now rng t =
      (if 2 ^ 64 \<le> s + i then Some (rng, t, Inl ClockOverflow)
       else begin_interval next_u64 (word_of_nat s) (word_of_nat i) rng t)"
  proof (cases "skip_loop ?imax now 64 ?fin ?next")
    case (Inl e)
    then show ?thesis using loop si by (simp add: skip_missed_intervals_def Let_def)
  next
    case (Inr r)
    obtain s1 i1 where r: "r = (s1, i1)" by fastforce
    have loop': "catch_up (unat ?imax) (unat now) (unat s1) (unat i1) = (s, i)" "s1 \<le> now" "0 < unat i1"
        "i1 \<le> ?imax" "i1 < ?imax \<longrightarrow> unat now < unat s1 + unat i1"
      using loop Inr r si by auto
    note whole = skip_whole_catches_up [OF loop'(3,4,2,5)]
    show ?thesis
    proof (cases "skip_whole ?imax now s1 i1")
      case Inl': (Inl e)
      then show ?thesis using whole loop'(1) Inr r by (simp add: skip_missed_intervals_def Let_def)
    next
      case Inr': (Inr s2)
      then have "s = unat s2" "i = unat i1" using whole loop'(1) by simp_all
      then show ?thesis
        using Inr r Inr' by (simp add: skip_missed_intervals_def Let_def begin_interval_def checked_add_def)
    qed
  qed
  then show ?thesis using cov si unfolding n by simp
qed

text \<open>C27: a late wake lands where RFC 6206 puts it. The interval that the bounded loop and the division
  choose is the one that stepping through every missed interval reaches: it holds the reading of the
  clock and its length is between the minimum and the maximum. The only other outcome is the clock
  overflow when that interval does not end within the 64-bit clock.\<close>

theorem skip_is_catch_up:
  assumes "trickle_ok t" "tt_interval_end_ms t \<le> now"
  shows "case catch_up (unat (tp_imax_ms (tt_policy t))) (unat now) (unat (tt_interval_end_ms t))
           (min (2 * unat (tt_interval_ms t)) (unat (tp_imax_ms (tt_policy t)))) of
      (s, i) \<Rightarrow>
        s \<le> unat now \<and> unat now < s + i \<and> unat (tp_imin_ms (tt_policy t)) \<le> i \<and>
        i \<le> unat (tp_imax_ms (tt_policy t)) \<and>
        skip_missed_intervals next_u64 now rng t =
          (if 2 ^ 64 \<le> s + i then Some (rng, t, Inl ClockOverflow)
           else begin_interval next_u64 (word_of_nat s) (word_of_nat i) rng t)"
  using assms by (rule skip_reference)

definition sample_timer :: trickle_timer where
  "sample_timer =
     \<lparr>tt_policy = \<lparr>tp_imin_ms = 100, tp_imax_ms = 1000, tp_redundancy = 3, tp_reset_window_ms = 60, tp_max_resets_per_window = 4\<rparr>,
      tt_interval_start_ms = 0, tt_interval_end_ms = 100, tt_transmit_at_ms = 60, tt_interval_ms = 100,
      tt_consistent_count = 0, tt_transmission_decided = True, tt_transmitted = True, tt_suppressed = False,
      tt_reset_window_start_ms = 0, tt_resets_in_window = 0, tt_repair_needed = False, tt_last_now_ms = 70,
      tt_generation = 1, tt_retired = False\<rparr>"

theorem skip_is_catch_up_witness:
  "skip_missed_intervals (\<lambda>r :: u64. (r, r + 1)) 5000 0 sample_timer =
   begin_interval (\<lambda>r :: u64. (r, r + 1)) 4500 1000 0 sample_timer"
proof -
  have "trickle_ok sample_timer" "tt_interval_end_ms sample_timer \<le> 5000"
    by (simp_all add: trickle_ok_def policy_ok_def sample_timer_def word_le_nat_alt word_less_nat_alt)
  moreover have "catch_up 1000 5000 100 200 = (4500, 1000)" by (simp add: catch_up.simps)
  moreover have "unat (tp_imax_ms (tt_policy sample_timer)) = 1000" "unat (tt_interval_end_ms sample_timer) = 100"
      "unat (tt_interval_ms sample_timer) = 100" by (simp_all add: sample_timer_def)
  ultimately show ?thesis
    using skip_is_catch_up [of sample_timer 5000 "\<lambda>r :: u64. (r, r + 1)" 0] by simp
qed

section \<open>The timer invariant\<close>

definition same_frame :: "trickle_timer \<Rightarrow> trickle_timer \<Rightarrow> bool" where
  "same_frame t t' \<longleftrightarrow>
     tt_policy t' = tt_policy t \<and> tt_retired t' = tt_retired t \<and> tt_last_now_ms t' = tt_last_now_ms t \<and>
     tt_reset_window_start_ms t' = tt_reset_window_start_ms t \<and> tt_resets_in_window t' = tt_resets_in_window t"

lemma interval_halves:
  fixes interval :: u64
  assumes "2 \<le> interval"
  shows "unat (interval div 2 + interval mod 2) = (unat interval + 1) div 2"
    "unat (interval - (interval div 2 + interval mod 2)) = unat interval div 2"
    "interval - (interval div 2 + interval mod 2) \<noteq> 0"
proof -
  have two: "2 \<le> unat interval" using assms by (simp add: word_le_nat_alt)
  have n: "unat interval div 2 + unat interval mod 2 = (unat interval + 1) div 2" by presburger
  then have "unat interval div 2 + unat interval mod 2 \<le> unat interval" by presburger
  then have lt: "unat interval div 2 + unat interval mod 2 < 2 ^ 64" using unat_bound [of interval] by linarith
  then show half: "unat (interval div 2 + interval mod 2) = (unat interval + 1) div 2"
    using n by (simp add: unat_word_ariths unat_div unat_mod)
  have "interval div 2 + interval mod 2 \<le> interval" unfolding word_le_nat_alt half by presburger
  then show span: "unat (interval - (interval div 2 + interval mod 2)) = unat interval div 2"
    using half by (simp add: unat_sub)
  show "interval - (interval div 2 + interval mod 2) \<noteq> 0"
  proof
    assume "interval - (interval div 2 + interval mod 2) = 0"
    then have "unat interval div 2 = 0" using span by simp
    then show False using two by simp
  qed
qed

lemma begin_interval_ok:
  assumes run: "begin_interval next_u64 start interval rng t = Some (rng', t', r)"
    and pol: "policy_ok (tt_policy t)" "tp_imin_ms (tt_policy t) \<le> interval" "interval \<le> tp_imax_ms (tt_policy t)"
    and now: "start \<le> tt_last_now_ms t" and resets: "tt_resets_in_window t \<le> tp_max_resets_per_window (tt_policy t)"
  obtains e where "r = Inl e" "t' = t"
  | "r = Inr ()" "trickle_ok t'" "unat (tt_generation t') = unat (tt_generation t) + 1"
    "\<not> tt_transmission_decided t'" "tt_consistent_count t' = 0" "same_frame t t'"
    "tt_interval_start_ms t' = start" "tt_interval_ms t' = interval"
proof -
  have two: "2 \<le> interval" using pol(1,2) unfolding policy_ok_def by (meson order_trans)
  note halves = interval_halves [OF two]
  show ?thesis
  proof (cases "r = Inr ()")
    case False
    then show ?thesis using run that(1)
      by (auto simp: begin_interval_def Let_def split: option.splits prod.splits)
  next
    case True
    let ?half = "interval div 2 + interval mod 2"
    obtain end_ms k offset transmit g where
      e: "checked_add start interval = Some end_ms" and
      k: "uniform_below next_u64 (interval - ?half) rng = Some (rng', k)" and
      o: "checked_add ?half k = Some offset" and
      tr: "checked_add start offset = Some transmit" and g: "checked_add (tt_generation t) 1 = Some g" and
      t': "t' = t\<lparr>tt_interval_start_ms := start, tt_interval_end_ms := end_ms, tt_transmit_at_ms := transmit,
        tt_interval_ms := interval, tt_consistent_count := 0, tt_transmission_decided := False,
        tt_transmitted := False, tt_suppressed := False, tt_generation := g\<rparr>"
      using run True by (auto simp: begin_interval_def Let_def split: option.splits prod.splits)
    have kl: "unat k < unat interval div 2"
      using uniform_below_less [OF k halves(3)] halves(2) by (simp add: word_less_nat_alt)
    have u: "unat end_ms = unat start + unat interval" "unat transmit = unat start + ((unat interval + 1) div 2 + unat k)"
      using e o tr halves(1) by (simp_all add: checked_add_Some_iff)
    have "(unat interval + 1) div 2 + unat interval div 2 = unat interval" by presburger
    then have "unat transmit < unat end_ms" using u kl by linarith
    then have "trickle_ok t'"
      using t' u pol now resets by (simp add: trickle_ok_def word_less_nat_alt)
    then show ?thesis using that(2) True t' g by (simp add: same_frame_def checked_add_Some_iff)
  qed
qed

text \<open>
  The state of a production timer: the invariant, and no consistent observation counted, because the
  operation that counts one exists only in test builds.
\<close>

definition advertiser_ok :: "trickle_timer \<Rightarrow> bool" where
  "advertiser_ok t \<longleftrightarrow> trickle_ok t \<and> tt_consistent_count t = 0 \<and> tp_redundancy (tt_policy t) \<noteq> 0"

definition advances :: "trickle_timer \<Rightarrow> trickle_timer \<Rightarrow> bool" where
  "advances t t' \<longleftrightarrow>
     advertiser_ok t' \<and> tt_policy t' = tt_policy t \<and> tt_retired t' = tt_retired t \<and>
     tt_generation t \<le> tt_generation t' \<and> tt_last_now_ms t \<le> tt_last_now_ms t' \<and>
     (tt_generation t' = tt_generation t \<longrightarrow> tt_transmission_decided t \<longrightarrow> tt_transmission_decided t')"

lemma advances_refl: "advertiser_ok t \<Longrightarrow> advances t t"
  by (simp add: advances_def)

lemma advances_trans: "\<lbrakk>advances t t'; advances t' t''\<rbrakk> \<Longrightarrow> advances t t''"
  unfolding advances_def by (metis antisym order_trans)

lemma check_now_advances:
  "\<lbrakk>advertiser_ok t; check_now now t = Inr t'\<rbrakk> \<Longrightarrow> advances t t' \<and> t' = t\<lparr>tt_last_now_ms := now\<rparr>"
  by (auto simp: check_now_def advances_def advertiser_ok_def trickle_ok_def split: if_splits)

lemma begin_interval_advances:
  assumes ok: "advertiser_ok t" and run: "begin_interval next_u64 start interval rng t = Some (rng', t', r)"
    and "tp_imin_ms (tt_policy t) \<le> interval" "interval \<le> tp_imax_ms (tt_policy t)" "start \<le> tt_last_now_ms t"
  obtains e where "r = Inl e" "t' = t"
  | "r = Inr ()" "advances t t'" "tt_generation t < tt_generation t'" "\<not> tt_transmission_decided t'"
    "tt_interval_start_ms t' = start" "tt_interval_ms t' = interval" "same_frame t t'"
proof -
  have "policy_ok (tt_policy t)" "tt_resets_in_window t \<le> tp_max_resets_per_window (tt_policy t)"
    using ok by (simp_all add: advertiser_ok_def trickle_ok_def)
  from run this(1) assms(3,4,5) this(2) show ?thesis
  proof (cases rule: begin_interval_ok)
    case 1
    then show ?thesis using that(1) by blast
  next
    case 2
    then have "tt_generation t < tt_generation t'" by (simp add: word_less_nat_alt)
    with 2 show ?thesis using ok by (intro that(2)) (auto simp: advances_def advertiser_ok_def same_frame_def)
  qed
qed

lemma decide_transmits:
  "\<lbrakk>advertiser_ok t; decide t = (t', d)\<rbrakk> \<Longrightarrow>
   d = Transmit (tt_generation t) \<and> t' = t\<lparr>tt_transmission_decided := True, tt_transmitted := True\<rparr> \<and> advances t t'"
  by (auto simp: decide_def advances_def advertiser_ok_def trickle_ok_def word_gt_0 Let_def split: if_splits)

definition fires :: "u64 \<Rightarrow> trickle_timer \<Rightarrow> trickle_timer \<Rightarrow> u64 \<Rightarrow> bool" where
  "fires now t t' g \<longleftrightarrow>
     g = tt_generation t' \<and> tt_transmission_decided t' \<and>
     (tt_generation t < g \<or> (tt_generation t = g \<and> \<not> tt_transmission_decided t)) \<and>
     tt_transmit_at_ms t' \<le> now \<and> now < tt_interval_end_ms t'"

lemma skip_advances:
  assumes ok: "advertiser_ok t" and late: "tt_interval_end_ms t \<le> now" and now: "tt_last_now_ms t = now"
    and run: "skip_missed_intervals next_u64 now rng t = Some (rng', t', r)"
  obtains e where "r = Inl e" "t' = t"
  | "r = Inr ()" "advances t t'" "tt_generation t < tt_generation t'" "\<not> tt_transmission_decided t'"
    "now < tt_interval_end_ms t'"
proof -
  have tok: "trickle_ok t" using ok by (simp add: advertiser_ok_def)
  obtain s i where si: "catch_up (unat (tp_imax_ms (tt_policy t))) (unat now) (unat (tt_interval_end_ms t))
      (min (2 * unat (tt_interval_ms t)) (unat (tp_imax_ms (tt_policy t)))) = (s, i)" by fastforce
  note facts = skip_reference [OF tok late, of next_u64 rng, unfolded si, simplified]
  show ?thesis
  proof (cases "2 ^ 64 \<le> s + i")
    case True
    then show ?thesis using facts run that(1) by auto
  next
    case False
    then have lt: "s < 2 ^ 64" "i < 2 ^ 64" by auto
    then have u: "unat (word_of_nat s :: u64) = s" "unat (word_of_nat i :: u64) = i" by (simp_all add: unat_of_nat)
    have b: "begin_interval next_u64 (word_of_nat s) (word_of_nat i) rng t = Some (rng', t', r)"
      using facts run False by simp
    have "tp_imin_ms (tt_policy t) \<le> word_of_nat i" "(word_of_nat i :: u64) \<le> tp_imax_ms (tt_policy t)"
        "(word_of_nat s :: u64) \<le> tt_last_now_ms t"
      using facts u now by (simp_all add: word_le_nat_alt)
    from ok b this show ?thesis
    proof (cases rule: begin_interval_advances)
      case 1
      then show ?thesis using that(1) by blast
    next
      case 2
      then have "unat (tt_interval_end_ms t') = s + i" using u by (simp add: advances_def advertiser_ok_def trickle_ok_def)
      then have "now < tt_interval_end_ms t'" using facts by (simp add: word_less_nat_alt)
      then show ?thesis using 2 that(2) by blast
    qed
  qed
qed

lemma poll_advances:
  assumes ok: "advertiser_ok t" and run: "poll next_u64 now rng t = Some (rng', t', r)"
  shows "advances t t' \<and> (\<forall>g. r \<noteq> Inr (Suppress g)) \<and> (\<forall>g. r = Inr (Transmit g) \<longrightarrow> fires now t t' g)"
proof (cases "tt_retired t \<or> check_now now t = Inl ClockWentBackwards")
  case True
  then have "t' = t \<and> (r = Inr PollRetired \<or> r = Inl ClockWentBackwards)"
    using run by (auto simp: poll_def split: if_splits)
  then show ?thesis using ok by (auto simp: advances_refl)
next
  case False
  let ?t = "t\<lparr>tt_last_now_ms := now\<rparr>"
  have chk: "check_now now t = Inr ?t" "\<not> tt_retired t" using False by (auto simp: check_now_def)
  have adv: "advances t ?t" using check_now_advances [OF ok chk(1)] by simp
  then have ok': "advertiser_ok ?t" by (simp add: advances_def)
  obtain td d where dec: "decide ?t = (td, d)" by fastforce
  note decided = decide_transmits [OF ok' dec]
  consider (early) "\<not> tt_transmission_decided t" "now < tt_transmit_at_ms t"
    | (due) "\<not> tt_transmission_decided t" "\<not> now < tt_transmit_at_ms t" "now < tt_interval_end_ms t"
    | (wait) "tt_transmission_decided t" "now < tt_interval_end_ms t"
    | (late) "tt_interval_end_ms t \<le> now" "\<not> (\<not> tt_transmission_decided t \<and> now < tt_transmit_at_ms t)"
    by force
  then show ?thesis
  proof cases
    case early
    then show ?thesis using run chk adv by (auto simp: poll_def)
  next
    case due
    then have "t' = td" "r = Inr d" using run chk dec by (simp_all add: poll_def)
    then show ?thesis using decided adv advances_trans [OF adv] due by (auto simp: fires_def)
  next
    case wait
    then show ?thesis using run chk adv by (auto simp: poll_def)
  next
    case late
    obtain rng1 t1 x where skip: "skip_missed_intervals next_u64 now rng ?t = Some (rng1, t1, x)"
      using run chk late(2) leD [OF late(1)]
      by (cases "skip_missed_intervals next_u64 now rng ?t") (auto simp: poll_def split: if_splits)
    have run': "Some (rng', t', r) =
        (case x of
           Inl e \<Rightarrow> Some (rng1, t1, Inl e)
         | Inr _ \<Rightarrow>
             if now < tt_transmit_at_ms t1 then Some (rng1, t1, Inr (SleepUntil (Transmission (tt_transmit_at_ms t1))))
             else case decide t1 of (t2, decision) \<Rightarrow> Some (rng1, t2, Inr decision))"
      using run chk skip late(2) leD [OF late(1)] by (simp add: poll_def split: if_splits sum.splits)
    have "tt_interval_end_ms ?t \<le> now" "tt_last_now_ms ?t = now" using late by simp_all
    from ok' this skip show ?thesis
    proof (cases rule: skip_advances)
      case (1 e)
      then show ?thesis using run' adv by auto
    next
      case 2
      obtain td1 d1 where dec1: "decide t1 = (td1, d1)" by fastforce
      have "advertiser_ok t1" using 2(2) by (simp add: advances_def)
      note decided1 = decide_transmits [OF this dec1]
      have adv1: "advances t t1" using advances_trans [OF adv 2(2)] .
      show ?thesis
      proof (cases "now < tt_transmit_at_ms t1")
        case True
        then show ?thesis using run' 2(1) adv1 by auto
      next
        case False
        then have "t' = td1" "r = Inr d1" using run' 2(1) dec1 by simp_all
        then show ?thesis using decided1 advances_trans [OF adv1] 2(3,5) False by (auto simp: fires_def not_less)
      qed
    qed
  qed
qed

lemma consume_reset_budget_advances:
  assumes ok: "advertiser_ok t" and run: "consume_reset_budget now t = (t', b)"
  shows "advances t t' \<and> tt_generation t' = tt_generation t \<and>
    tt_transmission_decided t' = tt_transmission_decided t \<and> tt_last_now_ms t' = tt_last_now_ms t"
proof -
  let ?w = "if tp_reset_window_ms (tt_policy t) \<le> saturating_sub now (tt_reset_window_start_ms t)
    then t\<lparr>tt_reset_window_start_ms := now, tt_resets_in_window := 0\<rparr> else t"
  have w: "advertiser_ok ?w" "tt_policy ?w = tt_policy t" using ok by (simp_all add: advertiser_ok_def trickle_ok_def)
  have "tt_resets_in_window ?w + 1 \<le> tp_max_resets_per_window (tt_policy ?w)"
    if "\<not> tp_max_resets_per_window (tt_policy ?w) \<le> tt_resets_in_window ?w"
    using that inc_le [of "tt_resets_in_window ?w" "tp_max_resets_per_window (tt_policy ?w)"] by (simp only: not_le)
  then show ?thesis
    using run w ok by (auto simp: consume_reset_budget_def Let_def advances_def advertiser_ok_def trickle_ok_def
        split: if_splits)
qed

lemma local_change_advances:
  assumes ok: "advertiser_ok t" and run: "local_change next_u64 now rng t = Some (rng', t', r)"
  shows "advances t t'"
proof (cases "tt_retired t \<or> check_now now t = Inl ClockWentBackwards")
  case True
  then have "t' = t" using run by (auto simp: local_change_def split: if_splits)
  then show ?thesis using ok by (simp add: advances_refl)
next
  case False
  let ?t = "t\<lparr>tt_last_now_ms := now\<rparr>"
  have chk: "check_now now t = Inr ?t" "\<not> tt_retired t" using False by (auto simp: check_now_def)
  have adv: "advances t ?t" using check_now_advances [OF ok chk(1)] by simp
  show ?thesis
  proof (cases "checked_add now (tp_imin_ms (tt_policy t)) = None \<or> checked_add (tt_generation t) 1 = None")
    case True
    then have "t' = ?t" using run chk by (auto simp: local_change_def split: option.splits)
    then show ?thesis using adv by simp
  next
    case False
    let ?m = "?t\<lparr>tt_repair_needed := True\<rparr>"
    have b: "begin_interval next_u64 now (tp_imin_ms (tt_policy t)) rng ?m = Some (rng', t', r)"
      using run chk False by (auto simp: local_change_def)
    have adv': "advances t ?m" using adv by (simp add: advances_def advertiser_ok_def trickle_ok_def)
    then have ok': "advertiser_ok ?m" by (simp add: advances_def)
    have "tp_imin_ms (tt_policy ?m) \<le> tp_imin_ms (tt_policy t)" "tp_imin_ms (tt_policy t) \<le> tp_imax_ms (tt_policy ?m)"
        "now \<le> tt_last_now_ms ?m"
      using ok by (simp_all add: advertiser_ok_def trickle_ok_def policy_ok_def)
    from ok' b this show ?thesis
      by (cases rule: begin_interval_advances) (use adv' advances_trans [OF adv'] in auto)
  qed
qed

lemma bounded_local_change_advances:
  assumes ok: "advertiser_ok t" and run: "bounded_local_change next_u64 now rng t = Some (rng', t', r)"
  shows "advances t t'"
proof (cases "tt_retired t \<or> check_now now t = Inl ClockWentBackwards")
  case True
  then have "t' = t" using run by (auto simp: bounded_local_change_def split: if_splits)
  then show ?thesis using ok by (simp add: advances_refl)
next
  case False
  let ?t = "t\<lparr>tt_last_now_ms := now\<rparr>"
  have chk: "check_now now t = Inr ?t" "\<not> tt_retired t" using False by (auto simp: check_now_def)
  have adv: "advances t ?t" using check_now_advances [OF ok chk(1)] by simp
  then have ok': "advertiser_ok ?t" by (simp add: advances_def)
  obtain t1 b where c: "consume_reset_budget now ?t = (t1, b)" by fastforce
  have adv1: "advances t t1" using advances_trans [OF adv] consume_reset_budget_advances [OF ok' c] by blast
  then have ok1: "advertiser_ok t1" by (simp add: advances_def)
  show ?thesis
  proof (cases b)
    case False
    then have "t' = t1\<lparr>tt_repair_needed := True\<rparr>" using run chk c by (auto simp: bounded_local_change_def)
    moreover have "advances t1 (t1\<lparr>tt_repair_needed := True\<rparr>)"
      using ok1 by (simp add: advances_def advertiser_ok_def trickle_ok_def)
    ultimately show ?thesis using advances_trans [OF adv1] by simp
  next
    case True
    obtain rng2 t2 r2 where l: "local_change next_u64 now rng t1 = Some (rng2, t2, r2)"
      using run chk c True by (auto simp: bounded_local_change_def split: option.splits)
    from local_change_advances [OF ok1 l] have "advances t t2" using advances_trans [OF adv1] by blast
    then show ?thesis using run chk c True l ok
      by (auto simp: bounded_local_change_def advances_refl split: sum.splits)
  qed
qed

lemma acknowledge_repair_advances: "advertiser_ok t \<Longrightarrow> advances t (fst (acknowledge_repair t))"
  by (simp add: acknowledge_repair_def advances_def advertiser_ok_def trickle_ok_def)

lemma trickle_start_ok:
  assumes pol: "policy_ok policy" "tp_redundancy policy \<noteq> 0"
    and run: "trickle_start next_u64 policy now rng = Some (rng', Inr t)"
  shows "advertiser_ok t \<and> tt_policy t = policy \<and> \<not> tt_retired t \<and> \<not> tt_transmission_decided t"
proof -
  define t0 where "t0 = \<lparr>tt_policy = policy, tt_interval_start_ms = now, tt_interval_end_ms = 0, tt_transmit_at_ms = 0,
    tt_interval_ms = tp_imin_ms policy, tt_consistent_count = 0, tt_transmission_decided = False,
    tt_transmitted = False, tt_suppressed = False, tt_reset_window_start_ms = now,
    tt_resets_in_window = 0, tt_repair_needed = False, tt_last_now_ms = now, tt_generation = 0,
    tt_retired = False\<rparr>"
  have b: "begin_interval next_u64 now (tp_imin_ms policy) rng t0 = Some (rng', t, Inr ())"
    using run by (auto simp: trickle_start_def t0_def split: option.splits sum.splits)
  have "policy_ok (tt_policy t0)" "tp_imin_ms (tt_policy t0) \<le> tp_imin_ms policy"
      "tp_imin_ms policy \<le> tp_imax_ms (tt_policy t0)" "now \<le> tt_last_now_ms t0"
      "tt_resets_in_window t0 \<le> tp_max_resets_per_window (tt_policy t0)"
    using pol by (simp_all add: t0_def policy_ok_def)
  from b this show ?thesis
    by (cases rule: begin_interval_ok) (use pol(2) in \<open>auto simp: advertiser_ok_def same_frame_def t0_def\<close>)
qed

end
