(* ===== verification/Hub_Controller.thy ===== *)
theory Hub_Controller
  imports Hub_Protocol Trickle Shape_Plan Resource_Provider
begin

text \<open>
  Hub maintenance (\<open>engine/hub.rs\<close>) and the parts of \<open>engine/state.rs\<close> that drive it: the controller with
  its replay cursors, the Trickle schedule of the advertisements, the directory queries and their
  answers, the budget for inbound queries, the choice of the recipients of an advertisement, and the
  pacing of parent attempts. The clock reading, the random generator, the answer of the resource scope
  and the sizes of the Rust structures are arguments. An identity is its canonical spelling.
\<close>

section \<open>Policy and state\<close>

record hub_policy =
  hp_max_parallel_dials :: u64
  hp_max_dials_per_pass :: u64
  hp_max_advertisements_per_pass :: u64
  hp_exploration_interval_ms :: u64
  hp_max_exploration_probes_per_pass :: u64
  hp_max_exploration_peers_per_reply :: u16
  hp_trickle_imin_ms :: u64
  hp_trickle_imax_ms :: u64
  hp_trickle_redundancy :: u32
  hp_trickle_reset_window_ms :: u64
  hp_trickle_max_resets_per_window :: u32

text \<open>The conversions of the fields to \<open>usize\<close> always succeed on a 64-bit target.\<close>

definition hub_policy_validate :: "u64 \<Rightarrow> hub_policy \<Rightarrow> bool" where
  "hub_policy_validate semaphore_max p \<longleftrightarrow>
     hp_max_parallel_dials p > 0 \<and> hp_max_dials_per_pass p > 0 \<and> hp_max_advertisements_per_pass p > 0 \<and>
     hp_exploration_interval_ms p > 0 \<and> hp_max_exploration_probes_per_pass p > 0 \<and>
     hp_max_exploration_peers_per_reply p > 0 \<and>
     unat (hp_max_exploration_peers_per_reply p) \<le> hub_discovery_hard_max_peers \<and>
     hp_max_parallel_dials p \<le> hp_max_dials_per_pass p \<and> hp_max_dials_per_pass p \<le> semaphore_max \<and>
     hp_trickle_imin_ms p \<ge> 2 \<and> hp_trickle_imax_ms p \<ge> hp_trickle_imin_ms p \<and>
     hp_trickle_redundancy p > 0 \<and> hp_trickle_reset_window_ms p > 0 \<and>
     hp_trickle_max_resets_per_window p > 0"

record owner_token =
  ow_device_id :: string
  ow_binding_namespace :: "byte list"
  ow_binding_epoch :: u64

record hub_cursor =
  cu_origin :: string
  cu_binding_namespace :: "byte list"
  cu_binding_epoch :: u64
  cu_sequence :: u64
  cu_pending_request :: "u64 option"
  cu_pending_started_ms :: u64
  cu_after :: "string option"
  cu_pending_binding :: "(byte list \<times> u64) option"
  cu_pending_max_peers :: u16

record parent_attempt_pacer =
  pa_next_due_ms :: u64
  pa_last_now_ms :: "u64 option"
  pa_clock_fenced :: bool

record 'l hub_controller =
  hc_policy :: hub_policy
  hc_context_id :: "byte list"
  hc_local_id :: string
  hc_digest :: "byte list"
  hc_timer :: trickle_timer
  hc_cursors :: "hub_cursor list"
  hc_recipient_after :: "string option"
  hc_exploration_cursor :: nat
  hc_exploration_sequence :: u64
  hc_next_exploration_ms :: u64
  hc_parent_attempt :: parent_attempt_pacer
  hc_inbound_window_started_ms :: u64
  hc_inbound_window_count :: u64
  hc_root_lease :: 'l

datatype hub_error =
  HubPolicyInvalid | HubClaimOverflow | HubResourceRefused unavailable | HubRootNotCanonical
| HubIdentityNotCanonical | HubRedundancyZero | HubTrickleRedundancyZero | HubTrickleResetBudgetZero
| HubTricklePolicyRejected trickle_policy_error | HubTrickleStartRejected trickle_error
| ParentJitterOverflow | ParentDelayOverflow | ParentDeadlineOverflow | ParentClockFenced
| ParentClockBackwards

section \<open>Pacing of parent attempts\<close>

definition pacer_jitter :: "('r \<Rightarrow> u64 \<times> 'r) \<Rightarrow> u64 \<Rightarrow> 'r \<Rightarrow> ('r, hub_error + u64) drawn" where
  "pacer_jitter next_u64 maximum rng =
     (case checked_add maximum 1 of
        None \<Rightarrow> Some (rng, Inl ParentJitterOverflow)
      | Some upper_exclusive \<Rightarrow>
          (case uniform_loop next_u64 (uniform_threshold upper_exclusive) upper_exclusive rng of
             None \<Rightarrow> None
           | Some (rng, jitter) \<Rightarrow> Some (rng, Inr jitter)))"

definition pacer_new :: "('r \<Rightarrow> u64 \<times> 'r) \<Rightarrow> u64 \<Rightarrow> 'r \<Rightarrow> ('r, hub_error + parent_attempt_pacer) drawn" where
  "pacer_new next_u64 interval_ms rng =
     (case pacer_jitter next_u64 interval_ms rng of
        None \<Rightarrow> None
      | Some (rng, Inl e) \<Rightarrow> Some (rng, Inl e)
      | Some (rng, Inr jitter) \<Rightarrow>
          (case checked_add interval_ms jitter of
             None \<Rightarrow> Some (rng, Inl ParentDeadlineOverflow)
           | Some next_due_ms \<Rightarrow>
               Some (rng, Inr \<lparr>pa_next_due_ms = next_due_ms, pa_last_now_ms = None, pa_clock_fenced = False\<rparr>)))"

definition pacer_prepare ::
    "('r \<Rightarrow> u64 \<times> 'r) \<Rightarrow> u64 \<Rightarrow> u64 \<Rightarrow> 'r \<Rightarrow> parent_attempt_pacer \<Rightarrow>
     ('r, parent_attempt_pacer \<times> (hub_error + bool)) drawn" where
  "pacer_prepare next_u64 now_ms interval_ms rng p =
     (if pa_clock_fenced p then Some (rng, p, Inl ParentClockFenced)
      else if (case pa_last_now_ms p of None \<Rightarrow> False | Some last_now \<Rightarrow> now_ms < last_now)
      then Some (rng, p, Inl ParentClockBackwards)
      else let p = p\<lparr>pa_last_now_ms := Some now_ms\<rparr> in
        if now_ms < pa_next_due_ms p then Some (rng, p, Inr False)
        else case pacer_jitter next_u64 interval_ms rng of
               None \<Rightarrow> None
             | Some (rng, Inl e) \<Rightarrow> Some (rng, p\<lparr>pa_clock_fenced := True\<rparr>, Inl e)
             | Some (rng, Inr jitter) \<Rightarrow>
                 (case checked_add interval_ms jitter of
                    None \<Rightarrow> Some (rng, p\<lparr>pa_clock_fenced := True\<rparr>, Inl ParentDelayOverflow)
                  | Some delay \<Rightarrow>
                      (case checked_add now_ms delay of
                         None \<Rightarrow> Some (rng, p\<lparr>pa_clock_fenced := True\<rparr>, Inl ParentDeadlineOverflow)
                       | Some next_due_ms \<Rightarrow> Some (rng, p\<lparr>pa_next_due_ms := next_due_ms\<rparr>, Inr True))))"

section \<open>Construction\<close>

record hub_sizes =
  sz_controller :: nat
  sz_cursor :: nat
  sz_device_id :: nat

definition hub_root_claim :: "hub_sizes \<Rightarrow> nat \<Rightarrow> hub_error + resource_claim" where
  "hub_root_claim sizes hub_count =
     (case usize_mul (sz_cursor sizes) hub_count of
        None \<Rightarrow> Inl HubClaimOverflow
      | Some cursors \<Rightarrow>
          (case usize_add (sz_controller sizes) cursors of
             None \<Rightarrow> Inl HubClaimOverflow
           | Some bytes \<Rightarrow> Inr (single_claim AccountedMemoryBytes (word_of_nat bytes))))"

definition hub_controller_claim :: "hub_sizes \<Rightarrow> string list \<Rightarrow> hub_error + resource_claim" where
  "hub_controller_claim sizes raw_hubs =
     (case usize_sum (map length raw_hubs) 0 of
        None \<Rightarrow> Inl HubClaimOverflow
      | Some identity_bytes \<Rightarrow>
          (case usize_mul (length raw_hubs) (sz_device_id sizes) of
             None \<Rightarrow> Inl HubClaimOverflow
           | Some scratch_bytes \<Rightarrow>
               (case hub_root_claim sizes (length raw_hubs) of
                  Inl e \<Rightarrow> Inl e
                | Inr root \<Rightarrow>
                    (case claim_checked_add root (single_claim AccountedMemoryBytes (word_of_nat identity_bytes)) of
                       Inl _ \<Rightarrow> Inl HubClaimOverflow
                     | Inr claim \<Rightarrow>
                         (case claim_checked_add claim
                                 (single_claim AccountedMemoryBytes (word_of_nat scratch_bytes)) of
                            Inl _ \<Rightarrow> Inl HubClaimOverflow
                          | Inr claim \<Rightarrow> Inr claim)))))"

definition hub_profile :: "hub_policy \<Rightarrow> hub_trickle_profile" where
  "hub_profile p =
     \<lparr>tf_imin_ms = hp_trickle_imin_ms p, tf_imax_ms = hp_trickle_imax_ms p,
      tf_k = ucast (hp_trickle_redundancy p), tf_reset_window_ms = hp_trickle_reset_window_ms p,
      tf_max_resets_per_window = ucast (hp_trickle_max_resets_per_window p)\<rparr>"

definition fresh_cursor :: "string \<Rightarrow> hub_cursor" where
  "fresh_cursor origin =
     \<lparr>cu_origin = origin, cu_binding_namespace = replicate 16 0, cu_binding_epoch = 0, cu_sequence = 0,
      cu_pending_request = None, cu_pending_started_ms = 0, cu_after = None, cu_pending_binding = None,
      cu_pending_max_peers = 0\<rparr>"

definition hub_trickle_policy :: "hub_policy \<Rightarrow> hub_error + trickle_policy" where
  "hub_trickle_policy p =
     (if hp_trickle_redundancy p = 0 then Inl HubTrickleRedundancyZero
      else if hp_trickle_max_resets_per_window p = 0 then Inl HubTrickleResetBudgetZero
      else case trickle_policy_checked (hp_trickle_imin_ms p) (hp_trickle_imax_ms p) (hp_trickle_redundancy p)
                  (hp_trickle_reset_window_ms p) (hp_trickle_max_resets_per_window p) of
             Inl e \<Rightarrow> Inl (HubTricklePolicyRejected e)
           | Inr policy \<Rightarrow> Inr policy)"

text \<open>The part of the constructor that follows the lease: the schedule, the pacer, the digest of the
  configuration and one cursor for each configured hub.\<close>

definition hub_controller_start ::
    "('r \<Rightarrow> u64 \<times> 'r) \<Rightarrow> hub_policy \<Rightarrow> byte list \<Rightarrow> string \<Rightarrow> byte list \<Rightarrow> string list \<Rightarrow> 'l \<Rightarrow> 'r \<Rightarrow>
     ('r, hub_error + 'l hub_controller option) drawn" where
  "hub_controller_start next_u64 policy context_id local_id digest normalized lease rng =
     (case hub_trickle_policy policy of
        Inl e \<Rightarrow> Some (rng, Inl e)
      | Inr trickle \<Rightarrow>
          (case trickle_start next_u64 trickle 0 rng of
             None \<Rightarrow> None
           | Some (rng, Inl e) \<Rightarrow> Some (rng, Inl (HubTrickleStartRejected e))
           | Some (rng, Inr timer) \<Rightarrow>
               (case pacer_new next_u64 (hp_exploration_interval_ms policy) rng of
                  None \<Rightarrow> None
                | Some (rng, Inl e) \<Rightarrow> Some (rng, Inl e)
                | Some (rng, Inr pacer) \<Rightarrow>
                    Some (rng, Inr (Some
                      \<lparr>hc_policy = policy, hc_context_id = context_id, hc_local_id = local_id, hc_digest = digest,
                       hc_timer = timer, hc_cursors = map fresh_cursor normalized, hc_recipient_after = None,
                       hc_exploration_cursor = 0, hc_exploration_sequence = 0,
                       hc_next_exploration_ms = hp_exploration_interval_ms policy, hc_parent_attempt = pacer,
                       hc_inbound_window_started_ms = 0, hc_inbound_window_count = 0,
                       hc_root_lease = lease\<rparr>)))))"

definition hub_controller_new ::
    "('r \<Rightarrow> u64 \<times> 'r) \<Rightarrow> (byte list \<Rightarrow> byte list) \<Rightarrow> key_codec \<Rightarrow> u64 \<Rightarrow> hub_sizes \<Rightarrow>
     (resource_claim \<Rightarrow> unavailable + 'l) \<Rightarrow> hub_policy \<Rightarrow> topology_mode \<Rightarrow> byte list \<Rightarrow> string \<Rightarrow> 'r \<Rightarrow>
     ('r, hub_error + 'l hub_controller option) drawn" where
  "hub_controller_new next_u64 sha kc semaphore_max sizes acquire policy topology context_id local_id rng =
     (if \<not> hub_policy_validate semaphore_max policy then Some (rng, Inl HubPolicyInvalid)
      else let hubs_of = (case topology of Hubs hubs _ \<Rightarrow> Some hubs | HubTree _ hubs _ \<Rightarrow> Some hubs | _ \<Rightarrow> None) in
      case hubs_of of
        None \<Rightarrow> Some (rng, Inr None)
      | Some raw_hubs \<Rightarrow>
          (case hub_controller_claim sizes raw_hubs of
             Inl e \<Rightarrow> Some (rng, Inl e)
           | Inr claim \<Rightarrow>
               (case acquire claim of
                  Inl e \<Rightarrow> Some (rng, Inl (HubResourceRefused e))
                | Inr lease \<Rightarrow>
                    if (case topology of HubTree root _ _ \<Rightarrow> \<not> canonical_id kc root | _ \<Rightarrow> False)
                    then Some (rng, Inl HubRootNotCanonical)
                    else if \<not> list_all (canonical_id kc) raw_hubs then Some (rng, Inl HubIdentityNotCanonical)
                    else let normalized = normalized_ids raw_hubs;
                             redundancy =
                               (case topology of
                                  Hubs _ spoke_redundancy \<Rightarrow>
                                    (case spoke_redundancy of None \<Rightarrow> 2 | Some r \<Rightarrow> r)
                                | _ \<Rightarrow> 1)
                         in if normalized = [] then Some (rng, Inr None)
                            else if redundancy = 0 then Some (rng, Inl HubRedundancyZero)
                            else let digest =
                                   (case topology of
                                      HubTree root _ backup_candidates \<Rightarrow>
                                        hub_tree_configuration_digest sha kc context_id root normalized
                                          backup_candidates (hub_profile policy)
                                    | _ \<Rightarrow> configuration_digest sha kc normalized redundancy (hub_profile policy))
                                 in hub_controller_start next_u64 policy context_id local_id digest normalized
                                      lease rng)))"

section \<open>Cursors\<close>

fun update_cursor :: "string \<Rightarrow> (hub_cursor \<Rightarrow> hub_cursor) \<Rightarrow> hub_cursor list \<Rightarrow> hub_cursor list" where
  "update_cursor origin f [] = []"
| "update_cursor origin f (cursor # cursors) =
     (if cu_origin cursor = origin then f cursor # cursors else cursor # update_cursor origin f cursors)"

definition find_cursor :: "string \<Rightarrow> 'l hub_controller \<Rightarrow> hub_cursor option" where
  "find_cursor origin c = find (\<lambda>cursor. cu_origin cursor = origin) (hc_cursors c)"

definition cursor_mut ::
    "string \<Rightarrow> (hub_cursor \<Rightarrow> hub_cursor) \<Rightarrow> 'l hub_controller \<Rightarrow> 'l hub_controller" where
  "cursor_mut origin f c = c\<lparr>hc_cursors := update_cursor origin f (hc_cursors c)\<rparr>"

definition local_is_hub :: "'l hub_controller \<Rightarrow> bool" where
  "local_is_hub c \<longleftrightarrow> list_ex (\<lambda>cursor. cu_origin cursor = hc_local_id c) (hc_cursors c)"

definition configured_hub :: "string \<Rightarrow> 'l hub_controller \<Rightarrow> bool" where
  "configured_hub device_id c \<longleftrightarrow> list_ex (\<lambda>cursor. cu_origin cursor = device_id) (hc_cursors c)"

section \<open>Advertisements\<close>

definition observe_advertisement ::
    "owner_token \<Rightarrow> hub_advertisement \<Rightarrow> 'l hub_controller \<Rightarrow> 'l hub_controller \<times> bool" where
  "observe_advertisement owner advertisement c =
     (if ha_context_id advertisement \<noteq> hc_context_id c \<or> ha_origin advertisement = hc_local_id c \<or>
         ha_configuration_digest advertisement \<noteq> hc_digest c \<or> ow_device_id owner \<noteq> ha_origin advertisement
      then (c, False)
      else case find_cursor (ha_origin advertisement) c of
             None \<Rightarrow> (c, False)
           | Some current \<Rightarrow>
               let binding_changed =
                     (cu_binding_namespace current \<noteq> ow_binding_namespace owner \<or>
                      cu_binding_epoch current \<noteq> ow_binding_epoch owner);
                   c = (if binding_changed
                        then cursor_mut (ha_origin advertisement)
                               (\<lambda>cursor. cursor\<lparr>cu_binding_namespace := ow_binding_namespace owner,
                                  cu_binding_epoch := ow_binding_epoch owner, cu_sequence := 0\<rparr>) c
                        else c)
               in if ha_sequence advertisement \<le> cu_sequence current \<and> \<not> binding_changed then (c, False)
                  else (cursor_mut (ha_origin advertisement)
                          (\<lambda>cursor. cursor\<lparr>cu_sequence := ha_sequence advertisement\<rparr>) c, True))"

definition apply_local_change ::
    "('r \<Rightarrow> u64 \<times> 'r) \<Rightarrow> u64 \<Rightarrow> 'r \<Rightarrow> 'l hub_controller \<Rightarrow> ('r, 'l hub_controller \<times> bool) drawn" where
  "apply_local_change next_u64 now_ms rng c =
     (if \<not> local_is_hub c then Some (rng, c, False)
      else case bounded_local_change next_u64 now_ms rng (hc_timer c) of
             None \<Rightarrow> None
           | Some (rng, timer, r) \<Rightarrow>
               Some (rng, c\<lparr>hc_timer := timer\<rparr>, case r of Inl _ \<Rightarrow> False | Inr b \<Rightarrow> b))"

definition note_local_authenticated_owner_change ::
    "('r \<Rightarrow> u64 \<times> 'r) \<Rightarrow> owner_token \<Rightarrow> u64 \<Rightarrow> 'r \<Rightarrow> 'l hub_controller \<Rightarrow>
     ('r, 'l hub_controller \<times> bool) drawn" where
  "note_local_authenticated_owner_change next_u64 owner now_ms rng c =
     (if ow_device_id owner = hc_local_id c \<or> \<not> configured_hub (ow_device_id owner) c then Some (rng, c, False)
      else apply_local_change next_u64 now_ms rng c)"

definition prepare_poll_at ::
    "('r \<Rightarrow> u64 \<times> 'r) \<Rightarrow> u64 \<Rightarrow> 'r \<Rightarrow> 'l hub_controller \<Rightarrow>
     ('r, 'l hub_controller \<times> (hub_advertisement \<times> nat) option) drawn" where
  "prepare_poll_at next_u64 now_ms rng c =
     (if \<not> local_is_hub c then Some (rng, c, None)
      else case poll next_u64 now_ms rng (hc_timer c) of
             None \<Rightarrow> None
           | Some (rng, timer, r) \<Rightarrow>
               let c = c\<lparr>hc_timer := timer\<rparr> in
               (case r of
                  Inr (Transmit _) \<Rightarrow>
                    (case hub_advertisement_new (hc_context_id c) (hc_local_id c)
                            (saturating_add (tt_generation (hc_timer c)) 1) (hc_digest c) of
                       Inl _ \<Rightarrow> Some (rng, c, None)
                     | Inr advertisement \<Rightarrow>
                         Some (rng, c, Some (advertisement, unat (hp_max_advertisements_per_pass (hc_policy c)))))
                | _ \<Rightarrow> Some (rng, c, None)))"

definition acknowledge_delivery :: "'l hub_controller \<Rightarrow> 'l hub_controller" where
  "acknowledge_delivery c = c\<lparr>hc_timer := fst (acknowledge_repair (hc_timer c))\<rparr>"

definition advance_recipient_after :: "string \<Rightarrow> 'l hub_controller \<Rightarrow> 'l hub_controller" where
  "advance_recipient_after recipient c = c\<lparr>hc_recipient_after := Some recipient\<rparr>"

definition prepare_parent_attempt ::
    "('r \<Rightarrow> u64 \<times> 'r) \<Rightarrow> u64 \<Rightarrow> 'r \<Rightarrow> 'l hub_controller \<Rightarrow>
     ('r, 'l hub_controller \<times> (hub_error + bool)) drawn" where
  "prepare_parent_attempt next_u64 now rng c =
     (case pacer_prepare next_u64 now (hp_exploration_interval_ms (hc_policy c)) rng (hc_parent_attempt c) of
        None \<Rightarrow> None
      | Some (rng, pacer, r) \<Rightarrow> Some (rng, c\<lparr>hc_parent_attempt := pacer\<rparr>, r))"

section \<open>The recipients of an advertisement\<close>

text \<open>
  Both visits of the registry keep a bounded ascending list. \<open>insertion_point\<close> is the position that a
  binary search of an ascending list reports for an absent key.
\<close>

definition insertion_point :: "string \<Rightarrow> string list \<Rightarrow> nat" where
  "insertion_point key keys = length (takeWhile (\<lambda>k. k < key) keys)"

definition bounded_insert ::
    "('a \<Rightarrow> string) \<Rightarrow> nat \<Rightarrow> nat \<Rightarrow> 'a \<Rightarrow> 'a list \<Rightarrow> 'a list" where
  "bounded_insert key limit prefix_len x selected =
     (let keys = map key (drop prefix_len selected) in
      if key x \<in> set keys then selected
      else let position = prefix_len + insertion_point (key x) keys in
           if length selected = limit \<and> selected \<noteq> [] \<and> key (last selected) \<le> key x then selected
           else let selected = (if length selected = limit then butlast selected else selected)
                in take position selected @ x # drop position selected)"

type_synonym recipient = "bool \<times> string \<times> owner_token"

definition recipient_key :: "recipient \<Rightarrow> string" where
  "recipient_key r = fst (snd r)"

definition hub_recipient :: "key_codec \<Rightarrow> (owner_token \<Rightarrow> bool) \<Rightarrow> 'l hub_controller \<Rightarrow> owner_token \<Rightarrow> bool" where
  "hub_recipient kc usable c owner \<longleftrightarrow>
     usable owner \<and> configured_hub (ow_device_id owner) c \<and> canonical_id kc (ow_device_id owner)"

fun select_ahead ::
    "(owner_token \<Rightarrow> bool) \<Rightarrow> nat \<Rightarrow> string option \<Rightarrow> owner_token list \<Rightarrow> recipient list \<Rightarrow> recipient list" where
  "select_ahead eligible limit after [] selected = selected"
| "select_ahead eligible limit after (owner # owners) selected =
     (let key = ow_device_id owner in
      select_ahead eligible limit after owners
        (if \<not> eligible owner \<or> (case after of None \<Rightarrow> False | Some a \<Rightarrow> key \<le> a) then selected
         else bounded_insert recipient_key limit 0 (False, key, owner) selected))"

fun select_wrapped ::
    "(owner_token \<Rightarrow> bool) \<Rightarrow> nat \<Rightarrow> string option \<Rightarrow> owner_token list \<Rightarrow> recipient list \<Rightarrow> recipient list" where
  "select_wrapped eligible limit after [] selected = selected"
| "select_wrapped eligible limit after (owner # owners) selected =
     (let key = ow_device_id owner in
      select_wrapped eligible limit after owners
        (if \<not> eligible owner \<or> (case after of None \<Rightarrow> True | Some a \<Rightarrow> a < key) then selected
         else bounded_insert recipient_key limit (length (takeWhile (\<lambda>r. \<not> fst r) selected))
                (True, key, owner) selected))"

definition select_recipients ::
    "(owner_token \<Rightarrow> bool) \<Rightarrow> nat \<Rightarrow> string option \<Rightarrow> owner_token list \<Rightarrow> recipient list" where
  "select_recipients eligible limit after owners =
     (let selected = select_ahead eligible limit after owners [] in
      if length selected < limit \<and> after \<noteq> None then select_wrapped eligible limit after owners selected
      else selected)"

text \<open>One pass of \<open>poll_hub\<close> over the recipients: the cursor moves before anything is sent.\<close>

definition recipient_pass ::
    "key_codec \<Rightarrow> (owner_token \<Rightarrow> bool) \<Rightarrow> nat \<Rightarrow> owner_token list \<Rightarrow> 'l hub_controller \<Rightarrow>
     'l hub_controller \<times> owner_token list" where
  "recipient_pass kc usable limit owners c =
     (let selected = select_recipients (hub_recipient kc usable c) limit (hc_recipient_after c) owners
      in (if selected = [] then c else advance_recipient_after (recipient_key (last selected)) c,
          map (snd \<circ> snd) selected))"

definition poll_hub_advertise ::
    "('r \<Rightarrow> u64 \<times> 'r) \<Rightarrow> key_codec \<Rightarrow> (owner_token \<Rightarrow> bool) \<Rightarrow> (owner_token \<Rightarrow> bool) \<Rightarrow> u64 \<Rightarrow> owner_token list \<Rightarrow>
     'r \<Rightarrow> 'l hub_controller \<Rightarrow> ('r, 'l hub_controller \<times> (owner_token \<times> hub_advertisement) list) drawn" where
  "poll_hub_advertise next_u64 kc usable send now_ms owners rng c =
     (case prepare_poll_at next_u64 now_ms rng c of
        None \<Rightarrow> None
      | Some (rng, c, None) \<Rightarrow> Some (rng, c, [])
      | Some (rng, c, Some (advertisement, limit)) \<Rightarrow>
          let (c, recipients) = recipient_pass kc usable limit owners c in
          Some (rng, if list_ex send recipients then acknowledge_delivery c else c,
                map (\<lambda>owner. (owner, advertisement)) recipients))"

section \<open>Directory queries\<close>

partial_function (option) exploration_loop ::
    "('r \<Rightarrow> u64 \<times> 'r) \<Rightarrow> u64 \<Rightarrow> u64 \<Rightarrow> 'r \<Rightarrow> ('r \<times> u64) option" where
  "exploration_loop next_u64 limit span rng =
     (case next_u64 rng of
        (sample, rng') \<Rightarrow>
          if sample < limit then Some (rng', sample mod span)
          else exploration_loop next_u64 limit span rng')"

definition exploration_jitter :: "('r \<Rightarrow> u64 \<times> 'r) \<Rightarrow> u64 \<Rightarrow> 'r \<Rightarrow> ('r, u64) drawn" where
  "exploration_jitter next_u64 maximum rng =
     (if maximum = u64_max then (case next_u64 rng of (sample, rng) \<Rightarrow> Some (rng, sample))
      else let span = maximum + 1; limit = u64_max - u64_max mod span
           in exploration_loop next_u64 limit span rng)"

definition expire_pending :: "u64 \<Rightarrow> u64 \<Rightarrow> hub_cursor \<Rightarrow> hub_cursor" where
  "expire_pending now interval cursor =
     (if cu_pending_request cursor \<noteq> None \<and> saturating_sub now (cu_pending_started_ms cursor) \<ge> interval
      then cursor\<lparr>cu_pending_request := None, cu_pending_binding := None\<rparr>
      else cursor)"

definition exploration_index :: "'l hub_controller \<Rightarrow> nat option" where
  "exploration_index c =
     (let len = length (hc_cursors c) in
      find (\<lambda>index. let cursor = hc_cursors c ! index in
              \<not> (cu_origin cursor = hc_local_id c \<or> cu_pending_request cursor \<noteq> None))
        (map (\<lambda>offset. (hc_exploration_cursor c + offset) mod len) [0..<len]))"

definition prepare_discovery ::
    "('r \<Rightarrow> u64 \<times> 'r) \<Rightarrow> u64 \<Rightarrow> 'r \<Rightarrow> 'l hub_controller \<Rightarrow>
     ('r, 'l hub_controller \<times> (string \<times> hub_discovery_request) option) drawn" where
  "prepare_discovery next_u64 now rng c =
     (if now < hc_next_exploration_ms c then Some (rng, c, None)
      else
        let interval = hp_exploration_interval_ms (hc_policy c);
            c = c\<lparr>hc_cursors := map (expire_pending now interval) (hc_cursors c)\<rparr>
        in case exploration_index c of
             None \<Rightarrow> Some (rng, c, None)
           | Some index \<Rightarrow>
               let cursor = hc_cursors c ! index;
                   c = c\<lparr>hc_exploration_cursor := (index + 1) mod length (hc_cursors c)\<rparr>
               in (case checked_add (hc_exploration_sequence c) 1 of
                     None \<Rightarrow> Some (rng, c, None)
                   | Some sequence \<Rightarrow>
                       let c = c\<lparr>hc_exploration_sequence := sequence\<rparr>;
                           max_peers = hp_max_exploration_peers_per_reply (hc_policy c)
                       in (case hub_discovery_request_new (hc_context_id c) sequence (cu_after cursor) max_peers of
                             Inl _ \<Rightarrow> Some (rng, c, None)
                           | Inr request \<Rightarrow>
                               let c = c\<lparr>hc_cursors := (hc_cursors c)[index :=
                                     cursor\<lparr>cu_pending_request := Some sequence, cu_pending_started_ms := now,
                                       cu_pending_binding := None, cu_pending_max_peers := max_peers\<rparr>]\<rparr>
                               in (case exploration_jitter next_u64 interval rng of
                                     None \<Rightarrow> None
                                   | Some (rng, jitter) \<Rightarrow>
                                       let delay = saturating_add interval jitter
                                       in Some (rng, c\<lparr>hc_next_exploration_ms := saturating_add now delay\<rparr>,
                                            Some (cu_origin cursor, request))))))"

definition bind_discovery_request ::
    "string \<Rightarrow> owner_token \<Rightarrow> 'l hub_controller \<Rightarrow> 'l hub_controller \<times> bool" where
  "bind_discovery_request target owner c =
     (case find_cursor target c of
        None \<Rightarrow> (c, False)
      | Some cursor \<Rightarrow>
          if cu_pending_request cursor = None then (c, False)
          else (cursor_mut target
                  (\<lambda>cursor. cursor\<lparr>cu_pending_binding :=
                     Some (ow_binding_namespace owner, ow_binding_epoch owner)\<rparr>) c, True))"

definition clear_pending :: "hub_cursor \<Rightarrow> hub_cursor" where
  "clear_pending cursor = cursor\<lparr>cu_pending_request := None, cu_pending_binding := None\<rparr>"

definition page_refused :: "u64 \<Rightarrow> u64 \<Rightarrow> hub_cursor \<Rightarrow> hub_discovery_response \<Rightarrow> bool" where
  "page_refused now interval cursor response \<longleftrightarrow>
     saturating_sub now (cu_pending_started_ms cursor) \<ge> interval \<or>
     length (ds_peers response) > unat (cu_pending_max_peers cursor) \<or>
     (case (cu_after cursor, ds_peers response) of (Some after, first # _) \<Rightarrow> first \<le> after | _ \<Rightarrow> False)"

definition observe_discovery_response ::
    "key_codec \<Rightarrow> u64 \<Rightarrow> owner_token \<Rightarrow> hub_discovery_response \<Rightarrow> 'l hub_controller \<Rightarrow>
     'l hub_controller \<times> string list option" where
  "observe_discovery_response kc now owner response c =
     (if ds_context_id response \<noteq> hc_context_id c then (c, None)
      else if \<not> canonical_id kc (ow_device_id owner) then (c, None)
      else let origin = ow_device_id owner in
      case find_cursor origin c of
        None \<Rightarrow> (c, None)
      | Some cursor \<Rightarrow>
          if cu_pending_request cursor \<noteq> Some (ds_request_sequence response) then (c, None)
          else if cu_pending_binding cursor \<noteq> Some (ow_binding_namespace owner, ow_binding_epoch owner) \<or>
                  page_refused now (hp_exploration_interval_ms (hc_policy c)) cursor response
          then (cursor_mut origin clear_pending c, None)
          else (cursor_mut origin (\<lambda>cursor. (clear_pending cursor)\<lparr>cu_after := ds_next_after response\<rparr>) c,
                Some (ds_peers response)))"

section \<open>Answering directory queries\<close>

definition accept_discovery_request :: "u64 \<Rightarrow> 'l hub_controller \<Rightarrow> 'l hub_controller \<times> bool" where
  "accept_discovery_request now c =
     (let c = (if saturating_sub now (hc_inbound_window_started_ms c) \<ge> hp_exploration_interval_ms (hc_policy c)
               then c\<lparr>hc_inbound_window_started_ms := now, hc_inbound_window_count := 0\<rparr> else c)
      in if hc_inbound_window_count c \<ge> hp_max_exploration_probes_per_pass (hc_policy c) then (c, False)
         else (c\<lparr>hc_inbound_window_count := saturating_add (hc_inbound_window_count c) 1\<rparr>, True))"

fun collect_page ::
    "(owner_token \<Rightarrow> bool) \<Rightarrow> nat \<Rightarrow> string option \<Rightarrow> owner_token list \<Rightarrow> string list \<Rightarrow> string list" where
  "collect_page eligible retain after [] peers = peers"
| "collect_page eligible retain after (owner # owners) peers =
     (let peer = ow_device_id owner in
      collect_page eligible retain after owners
        (if \<not> eligible owner \<or> (case after of None \<Rightarrow> False | Some a \<Rightarrow> peer \<le> a) then peers
         else bounded_insert id retain 0 peer peers))"

definition listed_peer :: "key_codec \<Rightarrow> (owner_token \<Rightarrow> bool) \<Rightarrow> string \<Rightarrow> owner_token \<Rightarrow> bool" where
  "listed_peer kc usable public_id owner \<longleftrightarrow>
     usable owner \<and> ow_device_id owner \<noteq> public_id \<and> canonical_id kc (ow_device_id owner)"

definition discovery_page ::
    "(owner_token \<Rightarrow> bool) \<Rightarrow> owner_token list \<Rightarrow> hub_discovery_request \<Rightarrow> hub_protocol_error + hub_discovery_response" where
  "discovery_page eligible owners request =
     (let max = unat (dq_max_peers request);
          peers = collect_page eligible (max + 1) (dq_after request) owners [];
          page = take max peers;
          next_after = (if length peers > max then Some (page ! (max - 1)) else None)
      in response_for_request request page next_after)"

definition handle_hub_discovery_request ::
    "key_codec \<Rightarrow> (owner_token \<Rightarrow> bool) \<Rightarrow> string \<Rightarrow> u64 \<Rightarrow> owner_token list \<Rightarrow> bool \<Rightarrow> hub_discovery_request \<Rightarrow>
     'l hub_controller \<Rightarrow> 'l hub_controller \<times> hub_discovery_response option" where
  "handle_hub_discovery_request kc usable public_id now owners current request c =
     (if \<not> current \<or> dq_context_id request \<noteq> hc_context_id c \<or> \<not> local_is_hub c then (c, None)
      else case accept_discovery_request now c of
             (c, False) \<Rightarrow> (c, None)
           | (c, True) \<Rightarrow>
               (case discovery_page (listed_peer kc usable public_id) owners request of
                  Inl _ \<Rightarrow> (c, None)
                | Inr response \<Rightarrow> (c, Some response)))"

end
