(* ===== verification/Hub_Directory.thy ===== *)
theory Hub_Directory
  imports Hub_Controller
begin

text \<open>
  The peer directory of a hub as its clients see it. The first part shows that the bounded scans of the
  registry compute the smallest keys in order. The second follows the pages that one client accepts
  from one hub through any interleaving of its own calls, lost, repeated and delayed answers, and
  arbitrary responses of other devices.
\<close>

section \<open>The bounded scan\<close>

interpretation id_rank: strict_ranking "(<) :: string \<Rightarrow> string \<Rightarrow> bool"
  by unfold_locales auto

lemma top_take: "sorted_wrt (<) (ks :: string list) \<Longrightarrow> top_spec (<) limit (set ks) (take limit ks)"
proof -
  assume sorted: "sorted_wrt (<) ks"
  have "distinct ks" using id_rank.sorted_distinct [OF sorted] .
  moreover have "y \<in> set (drop limit ks)" if "y \<in> set ks" "y \<notin> set (take limit ks)" for y
    using that by (metis UnE append_take_drop_id set_append)
  moreover have "sorted_wrt (<) (take limit ks @ drop limit ks)" using sorted by simp
  ultimately show ?thesis
    unfolding top_spec_def sorted_wrt_append by (auto simp: distinct_card min.commute dest: in_set_takeD)
qed

lemma bounded_insert_is_retain:
  assumes "0 < limit" "key x \<notin> key ` set xs"
  shows "bounded_insert key limit 0 x xs = retain_ranked (\<lambda>a b. key a < key b) limit x xs"
proof -
  have "insertion_point (key x) (map key xs) = length (takeWhile (\<lambda>current. key current < key x) xs)"
    by (simp add: insertion_point_def takeWhile_map comp_def)
  moreover have "xs \<noteq> []" if "length xs = limit" using that assms(1) by auto
  ultimately show ?thesis
    using assms by (auto simp: bounded_insert_def retain_ranked_def Let_def not_less)
qed

lemma bounded_insert_top:
  assumes "0 < limit" "finite S" "top_spec (<) limit S (map key xs)"
  shows "top_spec (<) limit (insert (key x) S) (map key (bounded_insert key limit 0 x xs))"
proof (cases "key x \<in> key ` set xs")
  case True
  then have "key x \<in> S" using assms(3) by (auto simp: top_spec_def)
  then show ?thesis using True assms(3) by (simp add: bounded_insert_def insert_absorb)
next
  case False
  show ?thesis unfolding bounded_insert_is_retain [where key = key, OF assms(1) False]
    by (rule id_rank.retain_top_by) (use assms False in auto)
qed

definition beyond :: "string option \<Rightarrow> string \<Rightarrow> bool" where
  "beyond after key \<longleftrightarrow> (case after of None \<Rightarrow> True | Some a \<Rightarrow> a < key)"

definition directory :: "(owner_token \<Rightarrow> bool) \<Rightarrow> owner_token list \<Rightarrow> string list" where
  "directory eligible owners = normalized_ids (map ow_device_id (filter eligible owners))"

lemma directory_sorted: "sorted_wrt (<) (directory eligible owners)"
  by (simp add: directory_def normalized_ids_sorted)

lemma set_directory: "set (directory eligible owners) = ow_device_id ` {w \<in> set owners. eligible w}"
  by (simp add: directory_def)

lemma collect_page_top:
  assumes "0 < retain" "finite S" "top_spec (<) retain S peers"
  shows "top_spec (<) retain (S \<union> {k \<in> set (directory eligible owners). beyond after k})
    (collect_page eligible retain after owners peers)"
  using assms(2,3)
proof (induction owners arbitrary: S peers)
  case Nil
  then show ?case by (simp add: set_directory)
next
  case (Cons owner owners)
  let ?k = "ow_device_id owner"
  let ?take = "eligible owner \<and> beyond after ?k"
  let ?peers = "if ?take then bounded_insert id retain 0 ?k peers else peers"
  let ?S = "if ?take then insert ?k S else S"
  have scan: "collect_page eligible retain after (owner # owners) peers =
      collect_page eligible retain after owners ?peers"
    by (auto simp: Let_def beyond_def split: option.splits)
  have "top_spec (<) retain ?S ?peers"
    using bounded_insert_top [where key = id, OF assms(1) Cons.prems(1), of peers ?k] Cons.prems(2) by simp
  from Cons.IH [OF _ this] Cons.prems(1) have
    "top_spec (<) retain (?S \<union> {k \<in> set (directory eligible owners). beyond after k})
      (collect_page eligible retain after (owner # owners) peers)"
    unfolding scan by simp
  moreover have "?S \<union> {k \<in> set (directory eligible owners). beyond after k} =
      S \<union> {k \<in> set (directory eligible (owner # owners)). beyond after k}"
    by (auto simp: set_directory)
  ultimately show ?case by simp
qed

lemma collect_page_eq:
  assumes "0 < retain"
  shows "collect_page eligible retain after owners [] = take retain (filter (beyond after) (directory eligible owners))"
proof (rule id_rank.top_unique)
  let ?S = "{k \<in> set (directory eligible owners). beyond after k}"
  show "finite ?S" by simp
  show "top_spec (<) retain ?S (collect_page eligible retain after owners [])"
    using collect_page_top [OF assms, of "{}" "[]"] by (simp add: id_rank.top_Nil)
  have "sorted_wrt (<) (filter (beyond after) (directory eligible owners))"
    using directory_sorted by (simp add: sorted_wrt_filter)
  from top_take [OF this, of retain]
  show "top_spec (<) retain ?S (take retain (filter (beyond after) (directory eligible owners)))" by simp
qed

section \<open>Pages\<close>

definition page_after :: "string list \<Rightarrow> nat \<Rightarrow> string option \<Rightarrow> string list" where
  "page_after D m after = take m (filter (beyond after) D)"

definition next_after :: "string list \<Rightarrow> nat \<Rightarrow> string option \<Rightarrow> string option" where
  "next_after D m after = (if m < length (filter (beyond after) D) then Some (last (page_after D m after)) else None)"

lemma page_after_beyond: "k \<in> set (page_after D m after) \<Longrightarrow> beyond after k"
  by (auto simp: page_after_def dest: in_set_takeD)

lemma discovery_page_eq:
  assumes "dq_request_sequence q \<noteq> 0" "dq_max_peers q \<noteq> 0" "unat (dq_max_peers q) \<le> 64"
  shows "discovery_page eligible owners q = Inr
    \<lparr>ds_context_id = dq_context_id q, ds_request_sequence = dq_request_sequence q,
     ds_peers = page_after (directory eligible owners) (unat (dq_max_peers q)) (dq_after q),
     ds_next_after = next_after (directory eligible owners) (unat (dq_max_peers q)) (dq_after q)\<rparr>"
proof -
  let ?m = "unat (dq_max_peers q)" and ?D = "directory eligible owners"
  let ?F = "filter (beyond (dq_after q)) ?D" and ?p = "page_after ?D ?m (dq_after q)"
  have m: "0 < ?m" using assms(2) by (simp add: unat_gt_0)
  have scan: "collect_page eligible (?m + 1) (dq_after q) owners [] = take (?m + 1) ?F"
    using collect_page_eq [of "?m + 1"] by simp
  have page: "take ?m (take (?m + 1) ?F) = ?p" by (simp add: page_after_def)
  have nxt: "(if ?m < length (take (?m + 1) ?F) then Some (?p ! (?m - 1)) else None) = next_after ?D ?m (dq_after q)"
  proof (cases "?m < length ?F")
    case True
    then have "length ?p = ?m" by (simp add: page_after_def)
    then have "?p ! (?m - 1) = last ?p" using m by (metis last_conv_nth length_greater_0_conv)
    then show ?thesis using True by (simp add: next_after_def)
  qed (simp add: next_after_def)
  have sorted: "sorted_wrt (<) ?p"
    using directory_sorted [of eligible owners] by (simp add: page_after_def sorted_wrt_filter sorted_wrt_take)
  have ne: "?p \<noteq> []" if "?m < length ?F" using that m by (auto simp: page_after_def)
  have "page_typed ?p (next_after ?D ?m (dq_after q))"
    using sorted ne by (auto simp: page_typed_def next_after_def)
  moreover have "?p = [] \<or> a < hd ?p" if "dq_after q = Some a" for a
    using page_after_beyond [of "hd ?p" ?D ?m "dq_after q"] that by (cases ?p) (simp_all add: beyond_def)
  moreover have "length ?p \<le> ?m" by (simp add: page_after_def)
  ultimately show ?thesis
    using assms unfolding discovery_page_def Let_def scan page nxt response_for_request_def by (simp add: response_new_Inr)
qed

text \<open>The walk through the pages: after \<open>k\<close> pages the cursor names the last peer of the page before.\<close>

definition page_count :: "nat \<Rightarrow> nat \<Rightarrow> nat" where
  "page_count len m = (if len = 0 then 1 else (len + m - 1) div m)"

definition nth_page :: "string list \<Rightarrow> nat \<Rightarrow> nat \<Rightarrow> string list" where
  "nth_page D m k = take m (drop (k * m) D)"

definition cursor_at :: "string list \<Rightarrow> nat \<Rightarrow> nat \<Rightarrow> string option \<Rightarrow> bool" where
  "cursor_at D m k after \<longleftrightarrow>
     k < page_count (length D) m \<and> (if k = 0 then after = None else after = Some (D ! (k * m - 1)))"

lemma page_count_pos: "0 < m \<Longrightarrow> 0 < page_count len m"
  by (cases len) (simp_all add: page_count_def div_greater_zero_iff)

lemma page_count_less: "0 < m \<Longrightarrow> 0 < k \<Longrightarrow> k < page_count len m \<longleftrightarrow> k * m < len"
proof (cases len)
  case (Suc l)
  assume m: "0 < m"
  have "k < (l + m) div m \<longleftrightarrow> Suc k * m \<le> l + m" using m by (metis Suc_le_eq less_eq_div_iff_mult_less_eq)
  then show ?thesis using Suc by (simp add: page_count_def) linarith
qed (simp add: page_count_def)

lemma filter_beyond_nth:
  assumes "sorted_wrt (<) (D :: string list)" "j < length D"
  shows "filter (beyond (Some (D ! j))) D = drop (Suc j) D"
proof -
  have "filter (beyond (Some (D ! j))) (take (Suc j) D) = []"
  proof (rule filter_False, rule ballI)
    fix x assume "x \<in> set (take (Suc j) D)"
    then obtain i where "i < Suc j" "x = D ! i" by (auto simp: in_set_conv_nth)
    then have "x \<le> D ! j" using sorted_wrt_nth_less [OF assms(1), of i j] assms(2) by (cases "i = j") auto
    then show "\<not> beyond (Some (D ! j)) x" by (simp add: beyond_def not_less)
  qed
  moreover have "filter (beyond (Some (D ! j))) (drop (Suc j) D) = drop (Suc j) D"
  proof (rule filter_True, rule ballI)
    fix x assume "x \<in> set (drop (Suc j) D)"
    then obtain i where "i < length D - Suc j" "x = D ! (Suc j + i)" by (auto simp: in_set_conv_nth)
    then show "beyond (Some (D ! j)) x" using sorted_wrt_nth_less [OF assms(1), of j "Suc j + i"] by (simp add: beyond_def)
  qed
  ultimately show ?thesis by (metis append_Nil append_take_drop_id filter_append)
qed

lemma filter_cursor_at:
  assumes "sorted_wrt (<) D" "0 < m" "cursor_at D m k after"
  shows "filter (beyond after) D = drop (k * m) D"
proof (cases "k = 0")
  case True
  then show ?thesis using assms(3) by (simp add: cursor_at_def beyond_def)
next
  case False
  then have k: "k * m < length D" "0 < k * m" "after = Some (D ! (k * m - 1))"
    using assms(2,3) page_count_less [of m k "length D"] by (simp_all add: cursor_at_def)
  then show ?thesis using filter_beyond_nth [OF assms(1), of "k * m - 1"] by simp
qed

lemma page_walk:
  assumes "sorted_wrt (<) D" "0 < m" "cursor_at D m k after"
  shows "page_after D m after = nth_page D m k"
    and "cursor_at D m (Suc k mod page_count (length D) m) (next_after D m after)"
proof -
  note F = filter_cursor_at [OF assms]
  let ?n = "page_count (length D) m"
  show page: "page_after D m after = nth_page D m k" by (simp add: page_after_def nth_page_def F)
  have k: "k < ?n" using assms(3) by (simp add: cursor_at_def)
  have more: "m < length (filter (beyond after) D) \<longleftrightarrow> Suc k < ?n"
    using page_count_less [OF assms(2), of "Suc k" "length D"] by (auto simp: F)
  show "cursor_at D m (Suc k mod ?n) (next_after D m after)"
  proof (cases "Suc k < ?n")
    case True
    then have len: "m + k * m < length D" using more by (simp add: F)
    then have "last (nth_page D m k) = nth_page D m k ! (m - 1)" "length (nth_page D m k) = m"
      using assms(2) by (auto simp: nth_page_def last_conv_nth)
    then have "last (nth_page D m k) = D ! (m + k * m - 1)"
      using assms(2) len by (simp add: nth_page_def add.commute)
    then show ?thesis using True more page by (simp add: cursor_at_def next_after_def)
  next
    case False
    then have "Suc k = ?n" using k by simp
    then show ?thesis using False more page_count_pos [OF assms(2)] by (simp add: cursor_at_def next_after_def)
  qed
qed

lemma concat_pages: "0 < m \<Longrightarrow> concat (map (nth_page D m) [0..<k]) = take (k * m) D"
  by (induction k) (simp_all add: nth_page_def take_add [symmetric] add.commute)

lemma all_pages: "0 < m \<Longrightarrow> concat (map (nth_page D m) [0..<page_count (length D) m]) = D"
proof -
  assume m: "0 < m"
  have "length D \<le> page_count (length D) m * m"
  proof (cases "length D = 0")
    case False
    let ?n = "page_count (length D) m"
    have "\<not> ?n * m < length D" using page_count_less [OF m, of ?n "length D"] page_count_pos [OF m, of "length D"] by simp
    then show ?thesis by simp
  qed simp
  then show ?thesis unfolding concat_pages [OF m] by simp
qed

section \<open>Cursors of a controller\<close>

lemma find_update_cursor:
  assumes "\<And>cu. cu_origin (f cu) = cu_origin cu"
  shows "find (\<lambda>cu. cu_origin cu = t) (update_cursor g f cs) =
    (if g = t then map_option f (find (\<lambda>cu. cu_origin cu = t) cs) else find (\<lambda>cu. cu_origin cu = t) cs)"
  by (induction cs) (auto simp: assms)

lemma find_cursor_mut:
  assumes "\<And>cu. cu_origin (f cu) = cu_origin cu"
  shows "find_cursor t (cursor_mut g f c) = (if g = t then map_option f (find_cursor t c) else find_cursor t c)"
  using find_update_cursor [OF assms] by (simp add: find_cursor_def cursor_mut_def)

lemma origins_update_cursor:
  assumes "\<And>cu. cu_origin (f cu) = cu_origin cu"
  shows "map cu_origin (update_cursor g f cs) = map cu_origin cs"
  by (induction cs) (auto simp: assms)

lemma find_map_cursor:
  assumes "\<And>cu. cu_origin (f cu) = cu_origin cu"
  shows "find (\<lambda>cu. cu_origin cu = t) (map f cs) = map_option f (find (\<lambda>cu. cu_origin cu = t) cs)"
  by (induction cs) (auto simp: assms)

lemma find_list_update:
  assumes "distinct (map cu_origin cs)" "i < length cs" "cu_origin x = cu_origin (cs ! i)"
  shows "find (\<lambda>cu. cu_origin cu = t) (cs[i := x]) =
    (if cu_origin x = t then Some x else find (\<lambda>cu. cu_origin cu = t) cs)"
  using assms
proof (induction cs arbitrary: i)
  case (Cons cu cs)
  show ?case
  proof (cases i)
    case (Suc j)
    then have "cu_origin cu \<noteq> cu_origin x" using Cons.prems nth_mem [of j cs] by auto
    then show ?thesis using Suc Cons.IH [of j] Cons.prems by auto
  qed (use Cons.prems in auto)
qed simp

lemma find_nth:
  assumes "distinct (map cu_origin cs)" "i < length cs"
  shows "find (\<lambda>cu. cu_origin cu = cu_origin (cs ! i)) cs = Some (cs ! i)"
  using find_list_update [OF assms refl, of "cu_origin (cs ! i)"] by simp

lemma expire_pending_simps [simp]:
  "cu_origin (expire_pending now interval cu) = cu_origin cu"
  "cu_after (expire_pending now interval cu) = cu_after cu"
  by (simp_all add: expire_pending_def)

lemma expire_pending_request:
  "cu_pending_request (expire_pending now interval cu) = Some s \<Longrightarrow> expire_pending now interval cu = cu"
  by (auto simp: expire_pending_def split: if_splits)

definition origins_ok :: "'l hub_controller \<Rightarrow> bool" where
  "origins_ok c \<longleftrightarrow> distinct (map cu_origin (hc_cursors c))"

text \<open>What a call leaves of the frame of a controller, and what preparing a query does.\<close>

definition same_config :: "'l hub_controller \<Rightarrow> 'l hub_controller \<Rightarrow> bool" where
  "same_config c c' \<longleftrightarrow>
     hc_policy c' = hc_policy c \<and> hc_context_id c' = hc_context_id c \<and> hc_local_id c' = hc_local_id c \<and>
     map cu_origin (hc_cursors c') = map cu_origin (hc_cursors c)"

lemma same_config_refl [simp]: "same_config c c"
  by (simp add: same_config_def)

lemma same_config_trans: "\<lbrakk>same_config c c'; same_config c' c''\<rbrakk> \<Longrightarrow> same_config c c''"
  by (simp add: same_config_def)

lemma same_config_origins: "same_config c c' \<Longrightarrow> origins_ok c' = origins_ok c"
  by (simp add: same_config_def origins_ok_def)

lemma exploration_index_Some:
  assumes "exploration_index c = Some index"
  shows "index < length (hc_cursors c)" "cu_origin (hc_cursors c ! index) \<noteq> hc_local_id c"
    "cu_pending_request (hc_cursors c ! index) = None"
proof -
  let ?len = "length (hc_cursors c)"
  obtain i where i: "i < length [0..<?len]"
      "index = map (\<lambda>offset. (hc_exploration_cursor c + offset) mod ?len) [0..<?len] ! i"
      "\<not> (cu_origin (hc_cursors c ! index) = hc_local_id c \<or> cu_pending_request (hc_cursors c ! index) \<noteq> None)"
    using assms unfolding exploration_index_def Let_def find_Some_iff by auto
  then have "0 < ?len" by (cases "hc_cursors c") auto
  then show "index < ?len" using i by simp
  show "cu_origin (hc_cursors c ! index) \<noteq> hc_local_id c" "cu_pending_request (hc_cursors c ! index) = None"
    using i(3) by simp_all
qed

definition queried :: "u64 \<Rightarrow> hub_discovery_request \<Rightarrow> hub_cursor \<Rightarrow> hub_cursor" where
  "queried now q cu =
     cu\<lparr>cu_pending_request := Some (dq_request_sequence q), cu_pending_started_ms := now, cu_pending_binding := None,
       cu_pending_max_peers := dq_max_peers q\<rparr>"

lemma queried_simps [simp]:
  "cu_origin (queried now q cu) = cu_origin cu" "cu_after (queried now q cu) = cu_after cu"
  "cu_pending_request (queried now q cu) = Some (dq_request_sequence q)"
  "cu_pending_started_ms (queried now q cu) = now" "cu_pending_max_peers (queried now q cu) = dq_max_peers q"
  "cu_pending_binding (queried now q cu) = None"
  by (simp_all add: queried_def)

lemma find_expired:
  "find_cursor t (c\<lparr>hc_cursors := map (expire_pending now interval) (hc_cursors c)\<rparr>) =
   map_option (expire_pending now interval) (find_cursor t c)"
  by (simp add: find_cursor_def find_map_cursor)

abbreviation expired :: "u64 \<Rightarrow> 'l hub_controller \<Rightarrow> 'l hub_controller" where
  "expired now c \<equiv>
     c\<lparr>hc_cursors := map (expire_pending now (hp_exploration_interval_ms (hc_policy c))) (hc_cursors c)\<rparr>"

lemma same_config_expired: "same_config c (expired now c)"
  by (simp add: same_config_def comp_def)

lemma request_new_Inr:
  "hub_discovery_request_new ctx sequence after m = Inr q \<longleftrightarrow>
   sequence \<noteq> 0 \<and> m \<noteq> 0 \<and> unat m \<le> 64 \<and>
   q = \<lparr>dq_context_id = ctx, dq_request_sequence = sequence, dq_after = after, dq_max_peers = m\<rparr>"
  by (auto simp: hub_discovery_request_new_def hub_discovery_hard_max_peers_def not_less)

lemma prepare_discovery_None:
  assumes "prepare_discovery next_u64 now rng c = Some (rng', c', None)"
  shows "same_config c c' \<and> hc_exploration_sequence c \<le> hc_exploration_sequence c' \<and>
    (hc_cursors c' = hc_cursors c \<or> hc_cursors c' = hc_cursors (expired now c))"
proof -
  have grow: "a \<le> b" if "checked_add a 1 = Some b" for a b :: u64
    using that by (simp add: checked_add_Some_iff word_le_nat_alt)
  show ?thesis
    using assms grow same_config_expired [of c now]
    by (auto simp: prepare_discovery_def Let_def same_config_def split: if_splits option.splits sum.splits)
qed

lemma prepare_discovery_Some:
  assumes ok: "origins_ok c" and run: "prepare_discovery next_u64 now rng c = Some (rng', c', Some (target, q))"
  shows "same_config c c'" "checked_add (hc_exploration_sequence c) 1 = Some (dq_request_sequence q)"
    "hc_exploration_sequence c' = dq_request_sequence q" "dq_context_id q = hc_context_id c"
    "dq_max_peers q = hp_max_exploration_peers_per_reply (hc_policy c)" "dq_request_sequence q \<noteq> 0"
    "dq_max_peers q \<noteq> 0" "unat (dq_max_peers q) \<le> 64" "hc_next_exploration_ms c \<le> now" "target \<noteq> hc_local_id c"
    "\<exists>cu. find_cursor target (expired now c) = Some cu \<and> dq_after q = cu_after cu \<and> cu_pending_request cu = None \<and>
       (\<forall>t. find_cursor t c' = (if t = target then Some (queried now q cu) else find_cursor t (expired now c)))"
proof -
  let ?c = "expired now c"
  obtain index where index: "exploration_index ?c = Some index"
    using run by (auto simp: prepare_discovery_def Let_def split: if_splits option.splits)
  note idx = exploration_index_Some [OF index]
  let ?cu = "hc_cursors ?c ! index"
  obtain sequence where seq: "checked_add (hc_exploration_sequence c) 1 = Some sequence"
    using run index by (auto simp: prepare_discovery_def Let_def split: if_splits option.splits)
  have new: "hub_discovery_request_new (hc_context_id c) sequence (cu_after ?cu)
      (hp_max_exploration_peers_per_reply (hc_policy c)) = Inr q" and target: "target = cu_origin ?cu"
    and le: "hc_next_exploration_ms c \<le> now"
    and c': "hc_policy c' = hc_policy c" "hc_context_id c' = hc_context_id c" "hc_local_id c' = hc_local_id c"
      "hc_exploration_sequence c' = sequence" "hc_cursors c' = (hc_cursors ?c)[index := queried now q ?cu]"
    using run index seq
    by (auto simp: prepare_discovery_def Let_def queried_def request_new_Inr split: if_splits option.splits sum.splits)
  note q = new [unfolded request_new_Inr]
  have ok': "distinct (map cu_origin (hc_cursors ?c))" using ok by (simp add: origins_ok_def comp_def)
  show "same_config c c'"
    using c' idx(1) by (simp add: same_config_def map_update list_update_same_conv comp_def)
  show "checked_add (hc_exploration_sequence c) 1 = Some (dq_request_sequence q)" "hc_exploration_sequence c' = dq_request_sequence q"
    "dq_context_id q = hc_context_id c" "dq_max_peers q = hp_max_exploration_peers_per_reply (hc_policy c)"
    "dq_request_sequence q \<noteq> 0" "dq_max_peers q \<noteq> 0" "unat (dq_max_peers q) \<le> 64"
    using q seq c'(4) by auto
  show "hc_next_exploration_ms c \<le> now" by (rule le)
  show "target \<noteq> hc_local_id c" using idx(2) target by simp
  have "find_cursor target ?c = Some ?cu" using find_nth [OF ok' idx(1)] target by (simp add: find_cursor_def)
  moreover have "find_cursor t c' = (if t = target then Some (queried now q ?cu) else find_cursor t ?c)" for t
    using find_list_update [OF ok' idx(1), of "queried now q ?cu"] c'(5) target by (simp add: find_cursor_def)
  ultimately show "\<exists>cu. find_cursor target ?c = Some cu \<and> dq_after q = cu_after cu \<and> cu_pending_request cu = None \<and>
       (\<forall>t. find_cursor t c' = (if t = target then Some (queried now q cu) else find_cursor t ?c))"
    using q idx(3) by (intro exI [of _ ?cu]) simp
qed

section \<open>Following one hub\<close>

text \<open>
  A client, the queries it has prepared, the answers that the hub \<open>t\<close> has made to its queries, and the
  pages accepted from \<open>t\<close>, oldest first. An answer may arrive late, more than once or never; a device
  other than \<open>t\<close> may send any response at any time.
\<close>

record 'l query_state =
  qs_client :: "'l hub_controller"
  qs_sent :: "(string \<times> hub_discovery_request) set"
  qs_wire :: "hub_discovery_response set"
  qs_pages :: "string list list"

inductive query_step ::
    "key_codec \<Rightarrow> ('r \<Rightarrow> u64 \<times> 'r) \<Rightarrow> string \<Rightarrow> (owner_token \<Rightarrow> bool) \<Rightarrow> owner_token list \<Rightarrow> 'l query_state \<Rightarrow>
     'l query_state \<Rightarrow> bool" for kc next_u64 t eligible owners where
  prepare: "prepare_discovery next_u64 now rng (qs_client s) = Some (rng', c, Some tq) \<Longrightarrow>
    query_step kc next_u64 t eligible owners s (s\<lparr>qs_client := c, qs_sent := insert tq (qs_sent s)\<rparr>)"
| idle: "prepare_discovery next_u64 now rng (qs_client s) = Some (rng', c, None) \<Longrightarrow>
    query_step kc next_u64 t eligible owners s (s\<lparr>qs_client := c\<rparr>)"
| bind: "bind_discovery_request target owner (qs_client s) = (c, b) \<Longrightarrow>
    query_step kc next_u64 t eligible owners s (s\<lparr>qs_client := c\<rparr>)"
| answer: "\<lbrakk>(t, q) \<in> qs_sent s; discovery_page eligible owners q = Inr r\<rbrakk> \<Longrightarrow>
    query_step kc next_u64 t eligible owners s (s\<lparr>qs_wire := insert r (qs_wire s)\<rparr>)"
| accept: "\<lbrakk>r \<in> qs_wire s; ow_device_id owner = t;
      observe_discovery_response kc now owner r (qs_client s) = (c, Some page)\<rbrakk> \<Longrightarrow>
    query_step kc next_u64 t eligible owners s (s\<lparr>qs_client := c, qs_pages := qs_pages s @ [page]\<rparr>)"
| reject: "observe_discovery_response kc now owner r (qs_client s) = (c, None) \<Longrightarrow>
    query_step kc next_u64 t eligible owners s (s\<lparr>qs_client := c\<rparr>)"
| other: "\<lbrakk>ow_device_id owner \<noteq> t; observe_discovery_response kc now owner r (qs_client s) = (c, out)\<rbrakk> \<Longrightarrow>
    query_step kc next_u64 t eligible owners s (s\<lparr>qs_client := c\<rparr>)"
| advertised: "observe_advertisement owner advertisement (qs_client s) = (c, b) \<Longrightarrow>
    query_step kc next_u64 t eligible owners s (s\<lparr>qs_client := c\<rparr>)"
| advertise: "poll_hub_advertise next_u64 kc usable send now registry rng (qs_client s) = Some (rng', c, sends) \<Longrightarrow>
    query_step kc next_u64 t eligible owners s (s\<lparr>qs_client := c\<rparr>)"
| changed: "apply_local_change next_u64 now rng (qs_client s) = Some (rng', c, b) \<Longrightarrow>
    query_step kc next_u64 t eligible owners s (s\<lparr>qs_client := c\<rparr>)"
| serve: "handle_hub_discovery_request kc usable public_id now registry current q (qs_client s) = (c, answer) \<Longrightarrow>
    query_step kc next_u64 t eligible owners s (s\<lparr>qs_client := c\<rparr>)"
| attempt: "prepare_parent_attempt next_u64 now rng (qs_client s) = Some (rng', c, out) \<Longrightarrow>
    query_step kc next_u64 t eligible owners s (s\<lparr>qs_client := c\<rparr>)"

definition cursor_kept :: "string \<Rightarrow> 'l hub_controller \<Rightarrow> 'l hub_controller \<Rightarrow> bool" where
  "cursor_kept t c c' \<longleftrightarrow>
     same_config c c' \<and> hc_exploration_sequence c \<le> hc_exploration_sequence c' \<and>
     (\<forall>cu. find_cursor t c = Some cu \<longrightarrow> (\<exists>cu'. find_cursor t c' = Some cu' \<and> cu_after cu' = cu_after cu \<and>
        (cu_pending_request cu' = None \<or> cu_pending_request cu' = cu_pending_request cu)))"

lemma cursor_keptI:
  assumes "same_config c c'" "hc_exploration_sequence c \<le> hc_exploration_sequence c'" "hc_cursors c' = hc_cursors c"
  shows "cursor_kept t c c'"
  using assms by (simp add: cursor_kept_def find_cursor_def)

lemma cursor_kept_mut:
  assumes "\<And>cu. cu_origin (f cu) = cu_origin cu" "\<And>cu. g = t \<Longrightarrow> cu_after (f cu) = cu_after cu"
    "\<And>cu. g = t \<Longrightarrow> cu_pending_request (f cu) = None \<or> cu_pending_request (f cu) = cu_pending_request cu"
  shows "cursor_kept t c (cursor_mut g f c)"
proof -
  have "same_config c (cursor_mut g f c)" using origins_update_cursor [OF assms(1)] by (simp add: same_config_def cursor_mut_def)
  moreover have "find_cursor t (cursor_mut g f c) = (if g = t then map_option f (find_cursor t c) else find_cursor t c)"
    by (rule find_cursor_mut) (rule assms(1))
  ultimately show ?thesis using assms(2,3) by (auto simp: cursor_kept_def cursor_mut_def)
qed

lemma cursor_keptE:
  assumes "cursor_kept t c c'" "find_cursor t c = Some cu"
  obtains cu' where "find_cursor t c' = Some cu'" "cu_after cu' = cu_after cu"
    "cu_pending_request cu' = None \<or> cu_pending_request cu' = cu_pending_request cu"
  using assms unfolding cursor_kept_def by blast

lemma cursor_kept_trans:
  assumes "cursor_kept t c c'" "cursor_kept t c' c''"
  shows "cursor_kept t c c''"
proof -
  have "same_config c c''" using assms same_config_trans [of c c' c''] by (simp add: cursor_kept_def)
  moreover have "hc_exploration_sequence c \<le> hc_exploration_sequence c''"
    using assms order_trans unfolding cursor_kept_def by blast
  moreover have "\<exists>cu''. find_cursor t c'' = Some cu'' \<and> cu_after cu'' = cu_after cu \<and>
      (cu_pending_request cu'' = None \<or> cu_pending_request cu'' = cu_pending_request cu)"
    if cu: "find_cursor t c = Some cu" for cu
  proof -
    obtain cu' where 1: "find_cursor t c' = Some cu'" "cu_after cu' = cu_after cu"
        "cu_pending_request cu' = None \<or> cu_pending_request cu' = cu_pending_request cu"
      by (rule cursor_keptE [OF assms(1) cu])
    obtain cu'' where 2: "find_cursor t c'' = Some cu''" "cu_after cu'' = cu_after cu'"
        "cu_pending_request cu'' = None \<or> cu_pending_request cu'' = cu_pending_request cu'"
      by (rule cursor_keptE [OF assms(2) 1(1)])
    have "cu_pending_request cu'' = None \<or> cu_pending_request cu'' = cu_pending_request cu"
      using 1(3) 2(3) by argo
    then show ?thesis using 1(2) 2(1,2) by simp
  qed
  ultimately show ?thesis by (simp add: cursor_kept_def)
qed

lemma cursor_kept_refl [simp]: "cursor_kept t c c"
  by (simp add: cursor_keptI)

lemma idle_kept:
  assumes "prepare_discovery next_u64 now rng c = Some (rng', c', None)"
  shows "cursor_kept t c c'"
proof -
  from prepare_discovery_None [OF assms] have f: "same_config c c'" "hc_exploration_sequence c \<le> hc_exploration_sequence c'"
    "find_cursor t c' = find_cursor t c \<or> find_cursor t c' = find_cursor t (expired now c)"
    by (auto simp: find_cursor_def)
  then show ?thesis
    unfolding cursor_kept_def find_expired by (auto dest: expire_pending_request simp: expire_pending_def)
qed

lemma bind_kept: "cursor_kept t c (fst (bind_discovery_request target owner c))"
  by (auto simp: bind_discovery_request_def split: option.splits intro: cursor_kept_mut)

lemma clear_pending_simps [simp]:
  "cu_origin (clear_pending cu) = cu_origin cu" "cu_after (clear_pending cu) = cu_after cu"
  "cu_pending_request (clear_pending cu) = None"
  by (simp_all add: clear_pending_def)

lemma reject_kept:
  assumes "observe_discovery_response kc now owner r c = (c', None)"
  shows "cursor_kept t c c'"
  using assms
  by (auto simp: observe_discovery_response_def Let_def split: if_splits option.splits intro!: cursor_kept_mut)

lemma other_kept:
  assumes "ow_device_id owner \<noteq> t" "observe_discovery_response kc now owner r c = (c', out)"
  shows "cursor_kept t c c'"
  using assms
  by (auto simp: observe_discovery_response_def Let_def split: if_splits option.splits intro!: cursor_kept_mut)

lemma advertised_kept: "cursor_kept t c (fst (observe_advertisement owner a c))"
proof -
  have 1: "cursor_kept t c (cursor_mut g (\<lambda>cu. cu\<lparr>cu_sequence := x\<rparr>) c)" for g x and c :: "'a hub_controller"
    by (rule cursor_kept_mut) simp_all
  have 2: "cursor_kept t c (cursor_mut g (\<lambda>cu. cu\<lparr>cu_binding_namespace := x, cu_binding_epoch := y, cu_sequence := 0\<rparr>) c)"
    for g x y and c :: "'a hub_controller"
    by (rule cursor_kept_mut) simp_all
  show ?thesis
    by (simp add: observe_advertisement_def Let_def 1 2 cursor_kept_trans [OF 2 1] split: option.split)
qed

lemma timer_kept [simp]: "cursor_kept t c (c\<lparr>hc_timer := timer\<rparr>)"
  by (rule cursor_keptI) (simp_all add: same_config_def)

lemma recipient_kept [simp]: "cursor_kept t c (advance_recipient_after x c)" "cursor_kept t c (acknowledge_delivery c)"
  by (rule cursor_keptI; simp add: same_config_def advance_recipient_after_def acknowledge_delivery_def)+

lemma changed_kept:
  "apply_local_change next_u64 now rng c = Some (rng', c', b) \<Longrightarrow> cursor_kept t c c'"
  by (auto simp: apply_local_change_def split: if_splits option.splits)

lemma poll_kept:
  "prepare_poll_at next_u64 now rng c = Some (rng', c', out) \<Longrightarrow> cursor_kept t c c'"
  by (auto simp: prepare_poll_at_def Let_def split: if_splits option.splits sum.splits trickle_poll.splits)

lemma pass_kept: "cursor_kept t c (fst (recipient_pass kc usable limit owners c))"
  by (simp add: recipient_pass_def Let_def)

lemma advertise_kept:
  assumes "poll_hub_advertise next_u64 kc usable send now registry rng c = Some (rng', c', sends)"
  shows "cursor_kept t c c'"
proof -
  obtain rng1 c1 out where p: "prepare_poll_at next_u64 now rng c = Some (rng1, c1, out)"
    using assms by (auto simp: poll_hub_advertise_def split: option.splits)
  note k = poll_kept [OF p, of t]
  show ?thesis
  proof (cases out)
    case None
    then show ?thesis using assms p k by (simp add: poll_hub_advertise_def)
  next
    case (Some al)
    obtain a limit where al: "al = (a, limit)" by (cases al)
    let ?c2 = "fst (recipient_pass kc usable limit registry c1)"
    have "cursor_kept t c ?c2" using cursor_kept_trans [OF k pass_kept] .
    then have "cursor_kept t c ?c2" "cursor_kept t c (acknowledge_delivery ?c2)" using cursor_kept_trans recipient_kept(2) by blast+
    then show ?thesis
      using assms p Some al by (auto simp: poll_hub_advertise_def Let_def split: prod.splits if_splits)
  qed
qed

lemma serve_kept: "cursor_kept t c (fst (handle_hub_discovery_request kc usable public_id now registry current q c))"
proof -
  have "cursor_kept t c (fst (accept_discovery_request now c))"
    by (rule cursor_keptI) (simp_all add: accept_discovery_request_def Let_def same_config_def)
  then show ?thesis
    by (auto simp: handle_hub_discovery_request_def split: prod.splits bool.splits sum.splits)
qed

lemma attempt_kept:
  "prepare_parent_attempt next_u64 now rng c = Some (rng', c', out) \<Longrightarrow> cursor_kept t c c'"
  by (auto simp: prepare_parent_attempt_def same_config_def split: option.splits intro!: cursor_keptI)

subsection \<open>The invariant\<close>

abbreviation page_size :: "'l hub_controller \<Rightarrow> nat" where
  "page_size c \<equiv> unat (hp_max_exploration_peers_per_reply (hc_policy c))"

definition cyclic_pages :: "string list \<Rightarrow> nat \<Rightarrow> nat \<Rightarrow> string list list" where
  "cyclic_pages D m k = map (\<lambda>i. nth_page D m (i mod page_count (length D) m)) [0..<k]"

lemma cyclic_pages_Suc:
  "cyclic_pages D m (Suc k) = cyclic_pages D m k @ [nth_page D m (k mod page_count (length D) m)]"
  by (simp add: cyclic_pages_def)

definition request_ok :: "'l hub_controller \<Rightarrow> hub_discovery_request \<Rightarrow> bool" where
  "request_ok c q \<longleftrightarrow>
     dq_request_sequence q \<le> hc_exploration_sequence c \<and> dq_request_sequence q \<noteq> 0 \<and>
     dq_max_peers q = hp_max_exploration_peers_per_reply (hc_policy c) \<and> dq_max_peers q \<noteq> 0 \<and> unat (dq_max_peers q) \<le> 64"

definition sent_ok :: "'l hub_controller \<Rightarrow> (string \<times> hub_discovery_request) set \<Rightarrow> bool" where
  "sent_ok c sent \<longleftrightarrow> (\<forall>p \<in> sent. request_ok c (snd p)) \<and> inj_on (\<lambda>p. dq_request_sequence (snd p)) sent"

definition cursor_follows ::
    "string \<Rightarrow> string list \<Rightarrow> 'l hub_controller \<Rightarrow> (string \<times> hub_discovery_request) set \<Rightarrow> nat \<Rightarrow> bool" where
  "cursor_follows t D c sent k \<longleftrightarrow>
     (\<exists>cu. find_cursor t c = Some cu \<and>
        cursor_at D (page_size c) (k mod page_count (length D) (page_size c)) (cu_after cu) \<and>
        (\<forall>s. cu_pending_request cu = Some s \<longrightarrow>
           (\<exists>q. (t, q) \<in> sent \<and> dq_request_sequence q = s \<and> dq_after q = cu_after cu)))"

definition query_ok :: "string \<Rightarrow> (owner_token \<Rightarrow> bool) \<Rightarrow> owner_token list \<Rightarrow> 'l query_state \<Rightarrow> bool" where
  "query_ok t eligible owners s \<longleftrightarrow>
     origins_ok (qs_client s) \<and> 0 < page_size (qs_client s) \<and> sent_ok (qs_client s) (qs_sent s) \<and>
     cursor_follows t (directory eligible owners) (qs_client s) (qs_sent s) (length (qs_pages s)) \<and>
     (\<forall>r \<in> qs_wire s. \<exists>q. (t, q) \<in> qs_sent s \<and> discovery_page eligible owners q = Inr r) \<and>
     qs_pages s = cyclic_pages (directory eligible owners) (page_size (qs_client s)) (length (qs_pages s))"

lemma sent_ok_kept:
  assumes "sent_ok c sent" "same_config c c'" "hc_exploration_sequence c \<le> hc_exploration_sequence c'"
  shows "sent_ok c' sent"
proof -
  have "request_ok c' q" if "request_ok c q" for q
    using that assms(2) order_trans [OF _ assms(3), of "dq_request_sequence q"]
    by (auto simp: request_ok_def same_config_def)
  then show ?thesis using assms(1) by (simp add: sent_ok_def)
qed

lemma sent_ok_insert:
  assumes "sent_ok c sent" "request_ok c q" "\<And>p. p \<in> sent \<Longrightarrow> dq_request_sequence (snd p) \<noteq> dq_request_sequence q"
  shows "sent_ok c (insert (target, q) sent)"
proof -
  have "dq_request_sequence q \<noteq> dq_request_sequence (snd p)" if "p \<in> sent" for p
    using assms(3) [OF that] by (rule not_sym)
  then have "dq_request_sequence q \<notin> (\<lambda>p. dq_request_sequence (snd p)) ` (sent - {(target, q)})"
    by blast
  then show ?thesis using assms(1,2) by (simp add: sent_ok_def)
qed

lemma query_ok_kept:
  assumes ok: "query_ok t eligible owners s" and kept: "cursor_kept t (qs_client s) c"
  shows "query_ok t eligible owners (s\<lparr>qs_client := c\<rparr>)"
proof -
  have same: "same_config (qs_client s) c" "hc_exploration_sequence (qs_client s) \<le> hc_exploration_sequence c"
    using kept by (simp_all add: cursor_kept_def)
  have size: "page_size c = page_size (qs_client s)" using same by (simp add: same_config_def)
  obtain cu where cu: "find_cursor t (qs_client s) = Some cu"
      "cursor_at (directory eligible owners) (page_size c)
        (length (qs_pages s) mod page_count (length (directory eligible owners)) (page_size c)) (cu_after cu)"
      "\<forall>n. cu_pending_request cu = Some n \<longrightarrow>
        (\<exists>q. (t, q) \<in> qs_sent s \<and> dq_request_sequence q = n \<and> dq_after q = cu_after cu)"
    using ok unfolding query_ok_def cursor_follows_def size by blast
  obtain cu' where cu': "find_cursor t c = Some cu'" "cu_after cu' = cu_after cu"
      "cu_pending_request cu' = None \<or> cu_pending_request cu' = cu_pending_request cu"
    by (rule cursor_keptE [OF kept cu(1)])
  have "cursor_follows t (directory eligible owners) c (qs_sent s) (length (qs_pages s))"
    unfolding cursor_follows_def using cu cu' by (intro exI [of _ cu']) auto
  then show ?thesis
    using ok same sent_ok_kept [OF _ same] same_config_origins [OF same(1)] size by (simp add: query_ok_def)
qed

lemma query_ok_prepare:
  assumes ok: "query_ok t eligible owners s"
    and run: "prepare_discovery next_u64 now rng (qs_client s) = Some (rng', c, Some (target, q))"
  shows "query_ok t eligible owners (s\<lparr>qs_client := c, qs_sent := insert (target, q) (qs_sent s)\<rparr>)"
proof -
  let ?c = "qs_client s"
  have org: "origins_ok ?c" using ok by (simp add: query_ok_def)
  note p = prepare_discovery_Some [OF org run]
  have seq: "unat (dq_request_sequence q) = unat (hc_exploration_sequence ?c) + 1"
    using p(2) by (simp add: checked_add_Some_iff)
  have size: "page_size c = page_size ?c" "hc_policy c = hc_policy ?c" using p(1) by (simp_all add: same_config_def)
  have sent: "sent_ok ?c (qs_sent s)" using ok by (simp add: query_ok_def)
  have lt: "dq_request_sequence (snd p) \<noteq> dq_request_sequence q" if "p \<in> qs_sent s" for p
    using sent that seq by (auto simp: sent_ok_def request_ok_def word_le_nat_alt)
  have "hc_exploration_sequence ?c \<le> hc_exploration_sequence c" using seq p(3) by (simp add: word_le_nat_alt)
  then have "sent_ok c (qs_sent s)" by (rule sent_ok_kept [OF sent p(1)])
  then have sent': "sent_ok c (insert (target, q) (qs_sent s))"
    using p(3,5-8) size(2) by (intro sent_ok_insert lt) (simp_all add: request_ok_def)
  obtain cu where cu: "find_cursor target (expired now ?c) = Some cu" "dq_after q = cu_after cu"
      "\<And>t. find_cursor t c = (if t = target then Some (queried now q cu) else find_cursor t (expired now ?c))"
    using p(11) by blast
  obtain cu0 where cu0: "find_cursor t ?c = Some cu0"
      "cursor_at (directory eligible owners) (page_size c)
        (length (qs_pages s) mod page_count (length (directory eligible owners)) (page_size c)) (cu_after cu0)"
      "\<forall>n. cu_pending_request cu0 = Some n \<longrightarrow>
        (\<exists>q. (t, q) \<in> qs_sent s \<and> dq_request_sequence q = n \<and> dq_after q = cu_after cu0)"
    using ok unfolding query_ok_def cursor_follows_def size by blast
  have "cursor_follows t (directory eligible owners) c (insert (target, q) (qs_sent s)) (length (qs_pages s))"
  proof (cases "t = target")
    case True
    then have "cu_after cu = cu_after cu0" using cu(1) cu0(1) by (auto simp: find_expired)
    then show ?thesis
      unfolding cursor_follows_def using True cu(2,3) cu0(2) by (intro exI [of _ "queried now q cu"]) auto
  next
    case False
    let ?cu = "expire_pending now (hp_exploration_interval_ms (hc_policy ?c)) cu0"
    have "find_cursor t c = Some ?cu" using False cu(3) [of t] cu0(1) by (simp add: find_expired)
    moreover have "\<exists>q. (t, q) \<in> qs_sent s \<and> dq_request_sequence q = n \<and> dq_after q = cu_after ?cu"
      if "cu_pending_request ?cu = Some n" for n
      using that expire_pending_request [OF that] cu0(3) by simp
    ultimately show ?thesis
      unfolding cursor_follows_def using cu0(2) by (intro exI [of _ ?cu]) auto
  qed
  then show ?thesis
    using ok sent' same_config_origins [OF p(1)] size by (auto simp: query_ok_def)
qed

lemma observe_accepts:
  assumes "observe_discovery_response kc now owner r c = (c', Some page)"
  obtains cu where "find_cursor (ow_device_id owner) c = Some cu" "cu_pending_request cu = Some (ds_request_sequence r)"
    "page = ds_peers r"
    "c' = cursor_mut (ow_device_id owner) (\<lambda>cursor. (clear_pending cursor)\<lparr>cu_after := ds_next_after r\<rparr>) c"
  using assms by (auto simp: observe_discovery_response_def Let_def split: if_splits option.splits)

lemma query_ok_accept:
  assumes ok: "query_ok t eligible owners s" and r: "r \<in> qs_wire s" and owner: "ow_device_id owner = t"
    and run: "observe_discovery_response kc now owner r (qs_client s) = (c, Some page)"
  shows "query_ok t eligible owners (s\<lparr>qs_client := c, qs_pages := qs_pages s @ [page]\<rparr>)"
proof -
  let ?c = "qs_client s" and ?D = "directory eligible owners" and ?k = "length (qs_pages s)"
  let ?m = "page_size ?c"
  let ?n = "page_count (length ?D) ?m"
  obtain cu where cu: "find_cursor t ?c = Some cu" "cu_pending_request cu = Some (ds_request_sequence r)" "page = ds_peers r"
      "c = cursor_mut t (\<lambda>cursor. (clear_pending cursor)\<lparr>cu_after := ds_next_after r\<rparr>) ?c"
    by (rule observe_accepts [OF run, unfolded owner])
  have sent: "sent_ok ?c (qs_sent s)" and m: "0 < ?m" using ok by (simp_all add: query_ok_def)
  have at: "cursor_at ?D ?m (?k mod ?n) (cu_after cu)"
    and pend: "\<exists>q. (t, q) \<in> qs_sent s \<and> dq_request_sequence q = ds_request_sequence r \<and> dq_after q = cu_after cu"
    using ok cu(1,2) unfolding query_ok_def cursor_follows_def by auto
  obtain q where q: "(t, q) \<in> qs_sent s" "dq_request_sequence q = ds_request_sequence r" "dq_after q = cu_after cu"
    using pend by blast
  obtain q' where q': "(t, q') \<in> qs_sent s" "discovery_page eligible owners q' = Inr r"
    using ok r unfolding query_ok_def by blast
  have v: "dq_request_sequence q' \<noteq> 0" "dq_max_peers q' = hp_max_exploration_peers_per_reply (hc_policy ?c)"
      "dq_max_peers q' \<noteq> 0" "unat (dq_max_peers q') \<le> 64"
    using sent q'(1) by (auto simp: sent_ok_def request_ok_def)
  note pg = discovery_page_eq [OF v(1,3,4), of eligible owners, unfolded q'(2)]
  have "dq_request_sequence q' = ds_request_sequence r" using pg by simp
  then have "(t, q') = (t, q)" using sent q q'(1) by (intro inj_onD [of "\<lambda>p. dq_request_sequence (snd p)" "qs_sent s"]) (simp_all add: sent_ok_def)
  then have "q' = q" by simp
  then have r_eq: "ds_peers r = page_after ?D ?m (cu_after cu)" "ds_next_after r = next_after ?D ?m (cu_after cu)"
    using pg v(2) q(3) by simp_all
  note walk = page_walk [OF directory_sorted m at]
  have c: "same_config ?c c" "hc_exploration_sequence c = hc_exploration_sequence ?c"
    unfolding cu(4) using origins_update_cursor [of "\<lambda>cursor. (clear_pending cursor)\<lparr>cu_after := ds_next_after r\<rparr>"]
    by (simp_all add: same_config_def cursor_mut_def)
  have size: "page_size c = ?m" using c by (simp add: same_config_def)
  have "find_cursor t c = Some ((clear_pending cu)\<lparr>cu_after := ds_next_after r\<rparr>)"
    unfolding cu(4) using cu(1) by (subst find_cursor_mut) simp_all
  then have "cursor_follows t ?D c (qs_sent s) (Suc ?k)"
    unfolding cursor_follows_def size using walk(2) r_eq(2) by (simp add: mod_Suc_eq clear_pending_def)
  moreover have "page = nth_page ?D ?m (?k mod ?n)" using walk(1) cu(3) r_eq(1) by simp
  ultimately show ?thesis
    using ok size same_config_origins [OF c(1)] sent_ok_kept [OF sent c(1)] c(2)
    by (simp add: query_ok_def cyclic_pages_Suc)
qed

inductive query_reach ::
    "key_codec \<Rightarrow> ('r \<Rightarrow> u64 \<times> 'r) \<Rightarrow> string \<Rightarrow> (owner_token \<Rightarrow> bool) \<Rightarrow> owner_token list \<Rightarrow> 'l hub_controller \<Rightarrow>
     'l query_state \<Rightarrow> bool" for kc next_u64 t eligible owners c where
  start: "query_reach kc next_u64 t eligible owners c \<lparr>qs_client = c, qs_sent = {}, qs_wire = {}, qs_pages = []\<rparr>"
| step: "\<lbrakk>query_reach kc next_u64 t eligible owners c s; query_step kc next_u64 t eligible owners s s'\<rbrakk> \<Longrightarrow>
    query_reach kc next_u64 t eligible owners c s'"

lemma query_ok_calls:
  assumes ok: "query_ok t eligible owners s" and s': "s' = s\<lparr>qs_client := c\<rparr>" and kept: "cursor_kept t (qs_client s) c"
  shows "query_ok t eligible owners s' \<and> hc_policy (qs_client s') = hc_policy (qs_client s)"
  using query_ok_kept [OF ok kept] kept by (simp add: s' cursor_kept_def same_config_def)

lemma query_ok_step:
  assumes "query_ok t eligible owners s" "query_step kc next_u64 t eligible owners s s'"
  shows "query_ok t eligible owners s' \<and> hc_policy (qs_client s') = hc_policy (qs_client s)"
  using assms(2)
proof cases
  case (prepare now rng rng' c tq)
  obtain target q where tq: "tq = (target, q)" by (cases tq)
  have org: "origins_ok (qs_client s)" using assms(1) by (simp add: query_ok_def)
  show ?thesis
    using query_ok_prepare [OF assms(1) prepare(2) [unfolded tq]] prepare_discovery_Some(1) [OF org prepare(2) [unfolded tq]]
      prepare(1) tq by (simp add: same_config_def)
next
  case (answer q r)
  then show ?thesis using assms(1) by (auto simp: query_ok_def)
next
  case (accept r owner now c page)
  have "hc_policy c = hc_policy (qs_client s)"
    by (rule observe_accepts [OF accept(4)]) (simp add: cursor_mut_def)
  then show ?thesis using query_ok_accept [OF assms(1) accept(2-4)] accept(1) by simp
next
  case idle
  from query_ok_calls [OF assms(1) idle(1) idle_kept [OF idle(2)]] show ?thesis .
next
  case (bind target owner c b)
  have "cursor_kept t (qs_client s) c" using bind_kept [of t "qs_client s" target owner] bind(2) by simp
  from query_ok_calls [OF assms(1) bind(1) this] show ?thesis .
next
  case reject
  from query_ok_calls [OF assms(1) reject(1) reject_kept [OF reject(2)]] show ?thesis .
next
  case other
  from query_ok_calls [OF assms(1) other(1) other_kept [OF other(2,3)]] show ?thesis .
next
  case (advertised owner advertisement c b)
  have "cursor_kept t (qs_client s) c" using advertised_kept [of t "qs_client s" owner advertisement] advertised(2) by simp
  from query_ok_calls [OF assms(1) advertised(1) this] show ?thesis .
next
  case advertise
  from query_ok_calls [OF assms(1) advertise(1) advertise_kept [OF advertise(2)]] show ?thesis .
next
  case changed
  from query_ok_calls [OF assms(1) changed(1) changed_kept [OF changed(2)]] show ?thesis .
next
  case (serve usable public_id now registry current q c answer)
  have "cursor_kept t (qs_client s) c"
    using serve_kept [of t "qs_client s" kc usable public_id now registry current q] serve(2) by simp
  from query_ok_calls [OF assms(1) serve(1) this] show ?thesis .
next
  case attempt
  from query_ok_calls [OF assms(1) attempt(1) attempt_kept [OF attempt(2)]] show ?thesis .
qed

lemma query_ok_start:
  assumes "origins_ok c" "0 < page_size c" "find_cursor t c = Some (fresh_cursor t)"
  shows "query_ok t eligible owners \<lparr>qs_client = c, qs_sent = {}, qs_wire = {}, qs_pages = []\<rparr>"
  using assms page_count_pos [OF assms(2)]
  by (simp add: query_ok_def sent_ok_def cursor_follows_def cyclic_pages_def cursor_at_def fresh_cursor_def)

lemma query_reach_ok:
  assumes "query_reach kc next_u64 t eligible owners c s" "origins_ok c" "0 < page_size c"
    "find_cursor t c = Some (fresh_cursor t)"
  shows "query_ok t eligible owners s \<and> hc_policy (qs_client s) = hc_policy c"
  using assms(1)
proof induction
  case start
  then show ?case using query_ok_start [OF assms(2-4)] by simp
next
  case (step s s')
  then show ?case using query_ok_step [of t eligible owners s kc next_u64 s'] by simp
qed

lemma find_fresh:
  "find (\<lambda>cu. cu_origin cu = t) (map fresh_cursor ids) = (if t \<in> set ids then Some (fresh_cursor t) else None)"
  by (induction ids) (auto simp: fresh_cursor_def)

lemma hub_controller_new_start:
  assumes "hub_controller_new next_u64 sha kc semaphore_max sizes acquire policy topology ctx local_id rng =
    Some (rng', Inr (Some c))"
  obtains hubs digest lease where "hub_policy_validate semaphore_max policy"
    "hub_controller_start next_u64 policy ctx local_id digest (normalized_ids hubs) lease rng = Some (rng', Inr (Some c))"
    "list_all (canonical_id kc) hubs"
proof -
  have "\<exists>hubs digest lease. hub_policy_validate semaphore_max policy \<and> list_all (canonical_id kc) hubs \<and>
      hub_controller_start next_u64 policy ctx local_id digest (normalized_ids hubs) lease rng = Some (rng', Inr (Some c))"
    using assms unfolding hub_controller_new_def Let_def
    by (cases topology) (auto split: if_splits sum.splits)
  then show ?thesis using that by blast
qed

lemma hub_controller_new_ok:
  assumes "hub_controller_new next_u64 sha kc semaphore_max sizes acquire policy topology ctx local_id rng =
    Some (rng', Inr (Some c))"
  shows "origins_ok c" "hc_policy c = policy" "0 < page_size c" "page_size c \<le> 64" "hc_local_id c = local_id"
    "hc_context_id c = ctx" "configured_hub t c \<Longrightarrow> find_cursor t c = Some (fresh_cursor t) \<and> canonical_id kc t"
    "advertiser_ok (hc_timer c)" "0 < hp_exploration_interval_ms policy"
proof -
  obtain hubs digest lease where v: "hub_policy_validate semaphore_max policy" and canonical: "list_all (canonical_id kc) hubs"
    and run: "hub_controller_start next_u64 policy ctx local_id digest (normalized_ids hubs) lease rng = Some (rng', Inr (Some c))"
    by (rule hub_controller_new_start [OF assms])
  obtain trickle rng1 where trickle: "hub_trickle_policy policy = Inr trickle"
    and start: "trickle_start next_u64 trickle 0 rng = Some (rng1, Inr (hc_timer c))"
    and c: "hc_policy c = policy" "hc_local_id c = local_id" "hc_context_id c = ctx" "hc_cursors c = map fresh_cursor (normalized_ids hubs)"
    using run by (auto simp: hub_controller_start_def split: sum.splits option.splits)
  show "hc_policy c = policy" "hc_local_id c = local_id" "hc_context_id c = ctx" by (simp_all add: c)
  have "map cu_origin (hc_cursors c) = normalized_ids hubs" by (simp add: c comp_def fresh_cursor_def)
  then show "origins_ok c" using id_rank.sorted_distinct [OF normalized_ids_sorted, of hubs] by (simp add: origins_ok_def)
  show "0 < page_size c" "page_size c \<le> 64" "0 < hp_exploration_interval_ms policy"
    using v by (simp_all add: c hub_policy_validate_def hub_discovery_hard_max_peers_def unat_gt_0 word_gt_0)
  show "find_cursor t c = Some (fresh_cursor t) \<and> canonical_id kc t" if "configured_hub t c"
  proof -
    have "t \<in> set hubs" using that by (auto simp: configured_hub_def c list_ex_iff fresh_cursor_def)
    then show ?thesis using canonical by (simp add: find_cursor_def c find_fresh list_all_iff)
  qed
  have "policy_ok trickle \<and> tp_redundancy trickle \<noteq> 0"
    using trickle v by (auto simp: hub_trickle_policy_def trickle_policy_checked_def policy_ok_def hub_policy_validate_def
        split: if_splits)
  then show "advertiser_ok (hc_timer c)" using trickle_start_ok [OF _ _ start] by simp
qed

subsection \<open>A sample client\<close>

text \<open>A client of one hub whose random generator counts upwards, and the first query it prepares.\<close>

abbreviation counter :: "u64 \<Rightarrow> u64 \<times> u64" where
  "counter r \<equiv> (r, r + 1)"

abbreviation sample_hub :: string where
  "sample_hub \<equiv> replicate 52 CHR ''a''"

definition sample_hub_policy :: hub_policy where
  "sample_hub_policy =
     \<lparr>hp_max_parallel_dials = 1, hp_max_dials_per_pass = 1, hp_max_advertisements_per_pass = 1,
      hp_exploration_interval_ms = 7, hp_max_exploration_probes_per_pass = 1,
      hp_max_exploration_peers_per_reply = 2, hp_trickle_imin_ms = 2, hp_trickle_imax_ms = 8,
      hp_trickle_redundancy = 1, hp_trickle_reset_window_ms = 9, hp_trickle_max_resets_per_window = 1\<rparr>"

definition sample_trickle :: trickle_policy where
  "sample_trickle =
     \<lparr>tp_imin_ms = 2, tp_imax_ms = 8, tp_redundancy = 1, tp_reset_window_ms = 9, tp_max_resets_per_window = 1\<rparr>"

definition sample_schedule :: trickle_timer where
  "sample_schedule =
     \<lparr>tt_policy = sample_trickle, tt_interval_start_ms = 0, tt_interval_end_ms = 2, tt_transmit_at_ms = 1,
      tt_interval_ms = 2, tt_consistent_count = 0, tt_transmission_decided = False, tt_transmitted = False,
      tt_suppressed = False, tt_reset_window_start_ms = 0, tt_resets_in_window = 0, tt_repair_needed = False,
      tt_last_now_ms = 0, tt_generation = 1, tt_retired = False\<rparr>"

definition sample_client :: "string \<Rightarrow> unit hub_controller" where
  "sample_client local_id =
     \<lparr>hc_policy = sample_hub_policy, hc_context_id = replicate 32 0, hc_local_id = local_id,
      hc_digest = replicate 32 0, hc_timer = sample_schedule, hc_cursors = [fresh_cursor sample_hub],
      hc_recipient_after = None, hc_exploration_cursor = 0, hc_exploration_sequence = 0,
      hc_next_exploration_ms = 7,
      hc_parent_attempt = \<lparr>pa_next_due_ms = 8, pa_last_now_ms = None, pa_clock_fenced = False\<rparr>,
      hc_inbound_window_started_ms = 0, hc_inbound_window_count = 0, hc_root_lease = ()\<rparr>"

lemma uniform_loop_hit:
  "\<lbrakk>next_u64 rng = (sample, rng'); threshold \<le> sample\<rbrakk> \<Longrightarrow>
   uniform_loop next_u64 threshold upper rng = Some (rng', sample mod upper)"
  by (subst uniform_loop.simps) simp

lemma exploration_loop_hit:
  "\<lbrakk>next_u64 rng = (sample, rng'); sample < limit\<rbrakk> \<Longrightarrow>
   exploration_loop next_u64 limit span rng = Some (rng', sample mod span)"
  by (subst exploration_loop.simps) simp

lemma sample_claim:
  "hub_controller_claim \<lparr>sz_controller = 8, sz_cursor = 8, sz_device_id = 8\<rparr> [sample_hub] =
   Inr (single_claim AccountedMemoryBytes 76)"
proof -
  have "claim_checked_add (single_claim AccountedMemoryBytes 16) (single_claim AccountedMemoryBytes 52) =
      Inr (single_claim AccountedMemoryBytes 68)"
    "claim_checked_add (single_claim AccountedMemoryBytes 68) (single_claim AccountedMemoryBytes 8) =
      Inr (single_claim AccountedMemoryBytes 76)"
    by (simp_all add: claim_checked_add_Inr_iff single_claim_def zero_claim_def)
  then show ?thesis
    by (simp add: hub_controller_claim_def hub_root_claim_def usize_mul_def usize_add_def)
qed

lemma sample_trickle_start: "trickle_start counter sample_trickle 0 16 = Some (17, Inr sample_schedule)"
  by (simp add: sample_trickle_def sample_schedule_def trickle_start_def begin_interval_def Let_def checked_add_def
      uniform_below_def uniform_loop_hit uniform_threshold_def)

lemma sample_pacer:
  "pacer_new counter 7 17 = Some (18, Inr \<lparr>pa_next_due_ms = 8, pa_last_now_ms = None, pa_clock_fenced = False\<rparr>)"
  by (simp add: pacer_new_def pacer_jitter_def checked_add_def uniform_loop_hit uniform_threshold_def)

lemma sample_start:
  "hub_controller_start counter sample_hub_policy (replicate 32 0) local_id (replicate 32 0) [sample_hub] () 16 =
   Some (18, Inr (Some (sample_client local_id)))"
proof -
  have "hub_trickle_policy sample_hub_policy = Inr sample_trickle"
    by (simp add: hub_trickle_policy_def sample_hub_policy_def trickle_policy_checked_def sample_trickle_def)
  moreover have "hp_exploration_interval_ms sample_hub_policy = 7" by (simp add: sample_hub_policy_def)
  ultimately show ?thesis
    by (simp only: hub_controller_start_def sum.case option.case prod.case sample_trickle_start sample_pacer)
      (simp add: sample_client_def)
qed

lemma sample_new:
  "hub_controller_new counter (\<lambda>_. replicate 32 0) sample_codec 100
     \<lparr>sz_controller = 8, sz_cursor = 8, sz_device_id = 8\<rparr> (\<lambda>_. Inr ()) sample_hub_policy (Hubs [sample_hub] None)
     (replicate 32 0) local_id 16 = Some (18, Inr (Some (sample_client local_id)))"
proof -
  have "hub_policy_validate 100 sample_hub_policy"
    by (simp add: hub_policy_validate_def sample_hub_policy_def hub_discovery_hard_max_peers_def)
  moreover have "normalized_ids [sample_hub] = [sample_hub]" by (simp add: normalized_ids_def)
  ultimately show ?thesis
    using canonical_sample_id
    by (simp add: hub_controller_new_def sample_claim Let_def configuration_digest_def sample_start del: replicate.simps)
qed

abbreviation sample_owner :: owner_token where
  "sample_owner \<equiv> \<lparr>ow_device_id = sample_hub, ow_binding_namespace = replicate 16 0, ow_binding_epoch = 1\<rparr>"

abbreviation sample_peer :: "string \<Rightarrow> owner_token" where
  "sample_peer d \<equiv> \<lparr>ow_device_id = d, ow_binding_namespace = replicate 16 0, ow_binding_epoch = 1\<rparr>"

definition sample_query :: hub_discovery_request where
  "sample_query =
     \<lparr>dq_context_id = replicate 32 0, dq_request_sequence = 1, dq_after = None, dq_max_peers = 2\<rparr>"

definition sample_asking :: "string \<Rightarrow> unit hub_controller" where
  "sample_asking local_id =
     (sample_client local_id)\<lparr>hc_cursors := [queried 7 sample_query (fresh_cursor sample_hub)],
        hc_exploration_sequence := 1, hc_next_exploration_ms := 16\<rparr>"

lemma sample_prepare:
  "local_id \<noteq> sample_hub \<Longrightarrow>
   prepare_discovery counter 7 18 (sample_client local_id) =
     Some (19, sample_asking local_id, Some (sample_hub, sample_query))"
  by (simp add: prepare_discovery_def sample_client_def sample_hub_policy_def Let_def exploration_index_def
      fresh_cursor_def expire_pending_def checked_add_def hub_discovery_request_new_def hub_discovery_hard_max_peers_def
      exploration_jitter_def u64_max_def exploration_loop_hit saturating_add_def sample_asking_def queried_def
      sample_query_def)

definition sample_bound :: "unit hub_controller" where
  "sample_bound = fst (bind_discovery_request sample_hub sample_owner (sample_asking ''me''))"

abbreviation sample_registry :: "owner_token list" where
  "sample_registry \<equiv> [sample_peer ''r'', sample_peer ''p'', sample_peer ''q'']"

definition sample_answer :: hub_discovery_response where
  "sample_answer =
     \<lparr>ds_context_id = replicate 32 0, ds_request_sequence = 1, ds_peers = [''p'', ''q''], ds_next_after = Some ''q''\<rparr>"

lemma sample_directory: "directory (\<lambda>_. True) sample_registry = [''p'', ''q'', ''r'']"
  by code_simp

lemma sample_page: "discovery_page (\<lambda>_. True) sample_registry sample_query = Inr sample_answer"
  using discovery_page_eq [of sample_query "\<lambda>_. True" sample_registry]
  by (simp add: sample_query_def sample_answer_def sample_directory page_after_def next_after_def beyond_def)

lemma sample_bind: "bind_discovery_request sample_hub sample_owner (sample_asking ''me'') = (sample_bound, True)"
  by (simp add: sample_bound_def bind_discovery_request_def find_cursor_def sample_asking_def queried_def fresh_cursor_def)

text \<open>C34: while the directory of a hub does not change, the pages that a client accepts from it are exactly
  the successive pages of that directory, in order, starting again after the last one. This holds
  whatever the client does in between, for answers that are lost, late or repeated, and whatever
  responses other devices send. The pages of one round are the whole directory.\<close>

theorem directory_pages_exact:
  assumes new: "hub_controller_new next_u64 sha kc semaphore_max sizes acquire policy topology ctx local_id rng =
      Some (rng', Inr (Some c))"
    and hub: "configured_hub t c" and reach: "query_reach kc next_u64 t eligible owners c s"
  shows "let D = directory eligible owners; m = unat (hp_max_exploration_peers_per_reply policy);
      n = page_count (length D) m
    in qs_pages s = map (\<lambda>i. nth_page D m (i mod n)) [0..<length (qs_pages s)] \<and>
       concat (map (nth_page D m) [0..<n]) = D"
proof -
  note ok = hub_controller_new_ok [OF new]
  have "query_ok t eligible owners s \<and> hc_policy (qs_client s) = hc_policy c"
    using query_reach_ok [OF reach ok(1,3)] ok(7) [OF hub] by simp
  then have "qs_pages s = cyclic_pages (directory eligible owners) (page_size c) (length (qs_pages s))"
    unfolding query_ok_def by metis
  then show ?thesis using all_pages [OF ok(3)] unfolding cyclic_pages_def ok(2) Let_def by blast
qed

lemma sample_accept:
  "\<exists>c. observe_discovery_response sample_codec 8 sample_owner sample_answer sample_bound = (c, Some [''p'', ''q''])"
  using canonical_sample_id
  by (simp add: observe_discovery_response_def sample_bound_def bind_discovery_request_def find_cursor_def
      sample_asking_def queried_def fresh_cursor_def sample_answer_def sample_client_def sample_query_def Let_def
      page_refused_def cursor_mut_def saturating_sub_def checked_sub_def sample_hub_policy_def word_le_nat_alt del: replicate.simps)

lemma sample_reach:
  "\<exists>s. query_reach sample_codec counter sample_hub (\<lambda>_. True) sample_registry (sample_client ''me'') s \<and>
     qs_pages s = [[''p'', ''q'']]"
proof -
  let ?s0 = "\<lparr>qs_client = sample_client ''me'', qs_sent = {}, qs_wire = {}, qs_pages = []\<rparr>"
  let ?R = "query_reach sample_codec counter sample_hub (\<lambda>_. True) sample_registry (sample_client ''me'')"
  let ?s1 = "?s0\<lparr>qs_client := sample_asking ''me'', qs_sent := insert (sample_hub, sample_query) (qs_sent ?s0)\<rparr>"
  let ?s2 = "?s1\<lparr>qs_client := sample_bound\<rparr>"
  let ?s3 = "?s2\<lparr>qs_wire := insert sample_answer (qs_wire ?s2)\<rparr>"
  have "prepare_discovery counter 7 18 (qs_client ?s0) = Some (19, sample_asking ''me'', Some (sample_hub, sample_query))"
    using sample_prepare [of "''me''"] by (simp add: numeral_eq_Suc)
  then have 1: "?R ?s1" by (intro query_reach.step [OF query_reach.start] query_step.prepare)
  have "bind_discovery_request sample_hub sample_owner (qs_client ?s1) = (sample_bound, True)" by (simp add: sample_bind)
  then have 2: "?R ?s2" by (intro query_reach.step [OF 1] query_step.bind)
  have 3: "?R ?s3" by (intro query_reach.step [OF 2] query_step.answer [OF _ sample_page]) simp
  obtain c where c: "observe_discovery_response sample_codec 8 sample_owner sample_answer (qs_client ?s3) = (c, Some [''p'', ''q''])"
    using sample_accept by auto
  have "?R (?s3\<lparr>qs_client := c, qs_pages := qs_pages ?s3 @ [[''p'', ''q'']]\<rparr>)"
    by (intro query_reach.step [OF 3] query_step.accept [OF _ _ c]) simp_all
  moreover have "qs_pages (?s3\<lparr>qs_client := c, qs_pages := qs_pages ?s3 @ [[''p'', ''q'']]\<rparr>) = [[''p'', ''q'']]" by simp
  ultimately show ?thesis by blast
qed

theorem directory_pages_exact_witness:
  "\<exists>s. query_reach sample_codec counter sample_hub (\<lambda>_. True) sample_registry (sample_client ''me'') s \<and>
     qs_pages s = [[''p'', ''q'']] \<and>
     (let D = directory (\<lambda>_. True) sample_registry; m = unat (hp_max_exploration_peers_per_reply sample_hub_policy);
          n = page_count (length D) m
      in qs_pages s = map (\<lambda>i. nth_page D m (i mod n)) [0..<length (qs_pages s)] \<and>
         concat (map (nth_page D m) [0..<n]) = D)"
proof -
  obtain s where s: "query_reach sample_codec counter sample_hub (\<lambda>_. True) sample_registry (sample_client ''me'') s"
      "qs_pages s = [[''p'', ''q'']]" using sample_reach by blast
  have "configured_hub sample_hub (sample_client ''me'')"
    by (simp add: configured_hub_def sample_client_def fresh_cursor_def)
  from directory_pages_exact [OF sample_new this s(1)] show ?thesis using s by blast
qed

lemma bound_query:
  assumes "origins_ok c" "prepare_discovery next_u64 now rng c = Some (rng1, c1, Some (t, q))"
    "bind_discovery_request t owner c1 = (c2, b)"
  obtains cu where "find_cursor t (expired now c) = Some cu" "b" "same_config c c2" "dq_after q = cu_after cu"
    "find_cursor t c2 = Some ((queried now q cu)\<lparr>cu_pending_binding := Some (ow_binding_namespace owner, ow_binding_epoch owner)\<rparr>)"
proof -
  note p = prepare_discovery_Some [OF assms(1,2)]
  obtain cu where cu: "find_cursor t (expired now c) = Some cu" "dq_after q = cu_after cu"
      "find_cursor t c1 = Some (queried now q cu)"
    using p(11) by auto
  let ?f = "\<lambda>cursor. cursor\<lparr>cu_pending_binding := Some (ow_binding_namespace owner, ow_binding_epoch owner)\<rparr>"
  have bound: "c2 = cursor_mut t ?f c1 \<and> b" using assms(3) cu(3) by (simp add: bind_discovery_request_def)
  have "find_cursor t c2 = Some (?f (queried now q cu))" using bound cu(3) find_cursor_mut [of ?f t t c1] by simp
  moreover have "same_config c1 c2"
    using bound origins_update_cursor [of ?f] by (simp add: same_config_def cursor_mut_def)
  then have "same_config c c2" by (rule same_config_trans [OF p(1)])
  ultimately show ?thesis using that [OF cu(1)] bound cu(2) by blast
qed

lemma page_not_refused:
  assumes "cu_pending_started_ms cu = now" "unat now' - unat now < unat interval"
    "length (ds_peers r) \<le> unat (cu_pending_max_peers cu)" "ds_peers r = page_after D m (cu_after cu)"
  shows "\<not> page_refused now' interval cu r"
proof -
  have "\<not> first \<le> after" if "cu_after cu = Some after" "ds_peers r = first # rest" for after first rest
  proof -
    have "first \<in> set (page_after D m (cu_after cu))" using assms(4) that(2) by (metis list.set_intros(1))
    then show ?thesis using page_after_beyond [of first D m "cu_after cu"] that(1) by (simp add: beyond_def not_le)
  qed
  then show ?thesis
    using assms(1-3) by (auto simp: page_refused_def word_le_nat_alt unat_saturating_sub split: option.splits list.splits)
qed

text \<open>C35: an exchange that completes in time makes progress. From every reachable state, a query prepared for
  the hub, bound to its owner, answered from the directory and observed within the exploration
  interval yields the next page, which is the page after all those already accepted.\<close>

theorem directory_exchange_progress:
  assumes new: "hub_controller_new next_u64 sha kc semaphore_max sizes acquire policy topology ctx local_id rng0 =
      Some (rng0', Inr (Some c0))"
    and hub: "configured_hub t c0" and reach: "query_reach kc next_u64 t eligible owners c0 s"
    and prepare: "prepare_discovery next_u64 now rng (qs_client s) = Some (rng', c1, Some (t, q))"
    and bind: "ow_device_id owner = t" "bind_discovery_request t owner c1 = (c2, b)"
    and answer: "discovery_page eligible owners q = Inr r"
    and timely: "unat now' - unat now < unat (hp_exploration_interval_ms policy)"
  shows "let D = directory eligible owners; m = unat (hp_max_exploration_peers_per_reply policy)
    in b \<and> snd (observe_discovery_response kc now' owner r c2) =
         Some (nth_page D m (length (qs_pages s) mod page_count (length D) m))"
proof -
  let ?D = "directory eligible owners" and ?c = "qs_client s"
  note n = hub_controller_new_ok [OF new]
  have ok: "query_ok t eligible owners s" and pol: "hc_policy ?c = policy"
    using query_reach_ok [OF reach n(1,3)] n(7) [OF hub] n(2) by simp_all
  have org: "origins_ok ?c" and m: "0 < page_size ?c" using ok by (simp_all add: query_ok_def)
  note p = prepare_discovery_Some [OF org prepare]
  note pg = discovery_page_eq [OF p(6-8), of eligible owners, unfolded answer]
  obtain cu where cu: "find_cursor t (expired now ?c) = Some cu" "b" "same_config ?c c2" "dq_after q = cu_after cu"
      "find_cursor t c2 = Some ((queried now q cu)\<lparr>cu_pending_binding := Some (ow_binding_namespace owner, ow_binding_epoch owner)\<rparr>)"
    by (rule bound_query [OF org prepare bind(2)])
  let ?cu = "(queried now q cu)\<lparr>cu_pending_binding := Some (ow_binding_namespace owner, ow_binding_epoch owner)\<rparr>"
  have at: "cursor_at ?D (page_size ?c) (length (qs_pages s) mod page_count (length ?D) (page_size ?c)) (cu_after cu)"
    using ok cu(1) by (auto simp: query_ok_def cursor_follows_def find_expired)
  have size: "unat (dq_max_peers q) = page_size ?c" using p(5) by simp
  have peers: "ds_peers r = page_after ?D (page_size ?c) (cu_after cu)" using pg cu(4) size by simp
  have "\<not> page_refused now' (hp_exploration_interval_ms (hc_policy c2)) ?cu r"
    using timely peers size cu(3) pol by (intro page_not_refused [where D = ?D and m = "page_size ?c"])
      (auto simp: page_after_def same_config_def)
  moreover have "ds_context_id r = hc_context_id c2" "ds_request_sequence r = dq_request_sequence q"
    using pg p(4) cu(3) by (simp_all add: same_config_def)
  ultimately have "snd (observe_discovery_response kc now' owner r c2) = Some (ds_peers r)"
    using cu(5) bind(1) n(7) [OF hub] by (simp add: observe_discovery_response_def Let_def)
  then show ?thesis
    using peers page_walk(1) [OF directory_sorted m at] cu(2) pol unfolding Let_def by simp
qed

theorem directory_exchange_progress_witness:
  "snd (observe_discovery_response sample_codec 8 sample_owner sample_answer sample_bound) = Some [''p'', ''q'']"
proof -
  have hub: "configured_hub sample_hub (sample_client ''me'')"
    by (simp add: configured_hub_def sample_client_def fresh_cursor_def)
  let ?s0 = "\<lparr>qs_client = sample_client ''me'', qs_sent = {}, qs_wire = {}, qs_pages = []\<rparr>"
  have p: "prepare_discovery counter 7 18 (qs_client ?s0) = Some (19, sample_asking ''me'', Some (sample_hub, sample_query))"
    using sample_prepare [of "''me''"] by (simp add: numeral_eq_Suc)
  have o: "ow_device_id sample_owner = sample_hub" by simp
  have t: "unat (8 :: u64) - unat (7 :: u64) < unat (hp_exploration_interval_ms sample_hub_policy)"
    by (simp add: sample_hub_policy_def)
  from directory_exchange_progress [OF sample_new hub query_reach.start p o sample_bind sample_page t]
  show ?thesis by (simp add: Let_def sample_directory nth_page_def sample_hub_policy_def)
qed

end
