(* ===== verification/Hub_Advertising.thy ===== *)
theory Hub_Advertising
  imports Hub_Directory
begin

text \<open>
  The recipients of the advertisements (\<open>poll_hub\<close> in \<open>engine/state.rs\<close>): the two bounded visits of the
  registry select a window of the eligible owners in the order of their identities, beginning after the
  last recipient and wrapping round, so that successive passes go through all of them.
\<close>

section \<open>Rotation of the recipients\<close>

definition start_index :: "string option \<Rightarrow> string list \<Rightarrow> nat" where
  "start_index after K = length (filter (\<lambda>k. \<not> beyond after k) K)"

lemma beyond_split:
  assumes "sorted_wrt (<) K"
  shows "filter (beyond after) K = drop (start_index after K) K \<and>
    filter (\<lambda>k. \<not> beyond after k) K = take (start_index after K) K"
  using assms
proof (induction K)
  case (Cons k K)
  show ?case
  proof (cases "beyond after k")
    case True
    then have "\<forall>x \<in> set K. beyond after x" using Cons.prems by (auto simp: beyond_def split: option.splits)
    then have "filter (\<lambda>k. \<not> beyond after k) K = []" "filter (beyond after) K = K" by simp_all
    then show ?thesis using True by (simp add: start_index_def)
  next
    case False
    then show ?thesis using Cons by (simp add: start_index_def)
  qed
qed (simp add: start_index_def)

lemma start_index_le: "start_index after K \<le> length K"
  by (simp add: start_index_def)

definition recipients_ok :: "(owner_token \<Rightarrow> bool) \<Rightarrow> owner_token list \<Rightarrow> recipient list \<Rightarrow> bool" where
  "recipients_ok eligible owners rs \<longleftrightarrow>
     (\<forall>r \<in> set rs. eligible (snd (snd r)) \<and> snd (snd r) \<in> set owners \<and> ow_device_id (snd (snd r)) = recipient_key r)"

lemma recipient_key_triple [simp]: "recipient_key (w, k, owner) = k"
  by (simp add: recipient_key_def)

lemma set_bounded_insert: "set (bounded_insert key limit p x xs) \<subseteq> insert x (set xs)"
  by (auto simp: bounded_insert_def Let_def dest: in_set_takeD in_set_dropD in_set_butlastD split: if_splits)

lemma recipients_ok_insert:
  assumes "recipients_ok eligible owners rs" "eligible owner" "owner \<in> set owners"
  shows "recipients_ok eligible owners (bounded_insert recipient_key limit p (w, ow_device_id owner, owner) rs)"
  using assms set_bounded_insert [of recipient_key limit p "(w, ow_device_id owner, owner)" rs]
  by (force simp: recipients_ok_def)

lemma bounded_insert_append:
  assumes "length P < limit"
  shows "bounded_insert key limit (length P) x (P @ W) = P @ bounded_insert key (limit - length P) 0 x W"
proof -
  have full: "length (P @ W) = limit \<longleftrightarrow> length W = limit - length P" using assms by auto
  have ne: "W \<noteq> []" if "length W = limit - length P" using that assms by auto
  show ?thesis
  proof (cases "key x \<in> key ` set W")
    case True
    then show ?thesis by (simp add: bounded_insert_def)
  next
    case False
    then show ?thesis using ne full by (auto simp: bounded_insert_def Let_def butlast_append)
  qed
qed

lemma select_ahead_top:
  fixes after :: "string option"
  assumes "0 < limit" "finite S" "top_spec (<) limit S (map recipient_key rs)" "recipients_ok eligible all rs"
    "set owners \<subseteq> set all" "\<forall>r \<in> set rs. \<not> fst r"
  defines "out \<equiv> select_ahead eligible limit after owners rs"
  shows "top_spec (<) limit (S \<union> {k \<in> set (directory eligible owners). beyond after k}) (map recipient_key out) \<and>
    recipients_ok eligible all out \<and> (\<forall>r \<in> set out. \<not> fst r)"
  using assms(2-6) unfolding out_def
proof (induction owners arbitrary: S rs)
  case Nil
  then show ?case by (simp add: set_directory)
next
  case (Cons owner owners)
  let ?k = "ow_device_id owner"
  let ?take = "eligible owner \<and> beyond after ?k"
  let ?rs = "if ?take then bounded_insert recipient_key limit 0 (False, ?k, owner) rs else rs"
  let ?S = "if ?take then insert ?k S else S"
  have scan: "select_ahead eligible limit after (owner # owners) rs = select_ahead eligible limit after owners ?rs"
    by (auto simp: Let_def beyond_def split: option.splits)
  have "top_spec (<) limit ?S (map recipient_key ?rs)"
    using bounded_insert_top [OF assms(1) Cons.prems(1,2), of "(False, ?k, owner)"] Cons.prems(2)
    by simp
  moreover have "recipients_ok eligible all ?rs" using recipients_ok_insert Cons.prems(3,4) by simp
  moreover have "\<forall>r \<in> set ?rs. \<not> fst r"
    using Cons.prems(5) set_bounded_insert [of recipient_key limit 0 "(False, ?k, owner)" rs] by auto
  moreover have "finite ?S" "set owners \<subseteq> set all" using Cons.prems by simp_all
  ultimately have "top_spec (<) limit (?S \<union> {k \<in> set (directory eligible owners). beyond after k})
      (map recipient_key (select_ahead eligible limit after owners ?rs)) \<and>
      recipients_ok eligible all (select_ahead eligible limit after owners ?rs) \<and>
      (\<forall>r \<in> set (select_ahead eligible limit after owners ?rs). \<not> fst r)"
    by (intro Cons.IH)
  moreover have "?S \<union> {k \<in> set (directory eligible owners). beyond after k} =
      S \<union> {k \<in> set (directory eligible (owner # owners)). beyond after k}"
    by (auto simp: set_directory)
  ultimately show ?case unfolding scan by simp
qed

lemma select_wrapped_top:
  assumes "length P < limit" "finite S" "top_spec (<) (limit - length P) S (map recipient_key W)"
    "recipients_ok eligible all W" "set owners \<subseteq> set all" "\<forall>r \<in> set P. \<not> fst r" "\<forall>r \<in> set W. fst r"
  shows "\<exists>W'. select_wrapped eligible limit (Some a) owners (P @ W) = P @ W' \<and>
    top_spec (<) (limit - length P) (S \<union> {k \<in> set (directory eligible owners). \<not> beyond (Some a) k}) (map recipient_key W') \<and>
    recipients_ok eligible all W'"
  using assms(2-5,7)
proof (induction owners arbitrary: S W)
  case Nil
  then show ?case by (simp add: set_directory)
next
  case (Cons owner owners)
  let ?k = "ow_device_id owner"
  let ?take = "eligible owner \<and> \<not> beyond (Some a) ?k"
  let ?W = "if ?take then bounded_insert recipient_key (limit - length P) 0 (True, ?k, owner) W else W"
  let ?S = "if ?take then insert ?k S else S"
  have "takeWhile (\<lambda>r. \<not> fst r) W = []" using Cons.prems(5) by (cases W) auto
  then have "takeWhile (\<lambda>r. \<not> fst r) (P @ W) = P" using assms(6) by simp
  then have scan: "select_wrapped eligible limit (Some a) (owner # owners) (P @ W) =
      select_wrapped eligible limit (Some a) owners (P @ ?W)"
    using bounded_insert_append [OF assms(1), of recipient_key] by (auto simp: Let_def beyond_def)
  have "top_spec (<) (limit - length P) ?S (map recipient_key ?W)"
    using bounded_insert_top [OF _ Cons.prems(1,2), of "(True, ?k, owner)"] Cons.prems(2) assms(1)
    by simp
  moreover have "recipients_ok eligible all ?W" using recipients_ok_insert Cons.prems(3,4) by simp
  moreover have "\<forall>r \<in> set ?W. fst r"
    using Cons.prems(5) set_bounded_insert [of recipient_key "limit - length P" 0 "(True, ?k, owner)" W] by auto
  moreover have "finite ?S" "set owners \<subseteq> set all" using Cons.prems by simp_all
  ultimately obtain W' where "select_wrapped eligible limit (Some a) owners (P @ ?W) = P @ W'"
      "top_spec (<) (limit - length P) (?S \<union> {k \<in> set (directory eligible owners). \<not> beyond (Some a) k}) (map recipient_key W')"
      "recipients_ok eligible all W'"
    using Cons.IH [of ?S ?W] by blast
  moreover have "?S \<union> {k \<in> set (directory eligible owners). \<not> beyond (Some a) k} =
      S \<union> {k \<in> set (directory eligible (owner # owners)). \<not> beyond (Some a) k}"
    by (auto simp: set_directory)
  ultimately show ?case unfolding scan by auto
qed

lemma select_recipients_rotate:
  fixes eligible :: "owner_token \<Rightarrow> bool" and owners :: "owner_token list" and after :: "string option"
  assumes "0 < limit"
  defines "K \<equiv> directory eligible owners" and "rs \<equiv> select_recipients eligible limit after owners"
  shows "map recipient_key rs = take limit (rotate (start_index after K) K) \<and> recipients_ok eligible owners rs"
proof -
  have K: "sorted_wrt (<) K" unfolding K_def by (rule directory_sorted)
  define A where "A = select_ahead eligible limit after owners []"
  have A: "top_spec (<) limit {k \<in> set K. beyond after k} (map recipient_key A)" "recipients_ok eligible owners A"
      "\<forall>r \<in> set A. \<not> fst r"
    using select_ahead_top [OF assms(1), of "{}" "[]" eligible owners owners after]
    by (simp_all add: A_def K_def id_rank.top_Nil recipients_ok_def)
  note split = beyond_split [OF K, of after]
  let ?p = "start_index after K"
  have "top_spec (<) limit {k \<in> set K. beyond after k} (take limit (filter (beyond after) K))"
    using top_take [OF sorted_wrt_filter [OF K], of limit] by simp
  then have keys: "map recipient_key A = take limit (drop ?p K)"
    using id_rank.top_unique [OF _ A(1)] split by simp
  have rot: "rotate ?p K = drop ?p K @ take ?p K"
    using start_index_le [of after K] by (cases "?p = length K") (simp_all add: rotate_drop_take)
  show ?thesis
  proof (cases "length A < limit \<and> after \<noteq> None")
    case False
    then have "rs = A" unfolding rs_def select_recipients_def A_def [symmetric] Let_def by (rule if_not_P)
    moreover have "take limit (drop ?p K @ take ?p K) = take limit (drop ?p K)"
    proof (cases after)
      case None
      then show ?thesis by (simp add: start_index_def beyond_def)
    next
      case (Some a)
      then have "limit \<le> length (map recipient_key A)" using False by simp
      then show ?thesis unfolding keys by simp
    qed
    ultimately show ?thesis using A(2) keys rot by simp
  next
    case True
    then obtain a where a: "after = Some a" by blast
    have "\<exists>W. select_wrapped eligible limit (Some a) owners (A @ []) = A @ W \<and>
        top_spec (<) (limit - length A) ({} \<union> {k \<in> set (directory eligible owners). \<not> beyond (Some a) k}) (map recipient_key W) \<and>
        recipients_ok eligible owners W"
      using True A(3) by (intro select_wrapped_top) (simp_all add: id_rank.top_Nil recipients_ok_def)
    moreover have "rs = select_wrapped eligible limit after owners A"
      unfolding rs_def select_recipients_def A_def [symmetric] Let_def using True by (rule if_P)
    ultimately obtain W where W: "rs = A @ W" "top_spec (<) (limit - length A) {k \<in> set K. \<not> beyond after k} (map recipient_key W)"
        "recipients_ok eligible owners W"
      by (auto simp: a K_def)
    have "top_spec (<) (limit - length A) {k \<in> set K. \<not> beyond after k} (take (limit - length A) (take ?p K))"
      using top_take [OF sorted_wrt_filter [OF K], of "limit - length A" "\<lambda>k. \<not> beyond after k"]
      unfolding conjunct2 [OF split] unfolding conjunct2 [OF split, symmetric] by simp
    then have wrap: "map recipient_key W = take (limit - length A) (take ?p K)"
      using id_rank.top_unique [OF _ W(2)] by simp
    have "length A = min (length (drop ?p K)) limit" using arg_cong [OF keys, of length] by simp
    then have len: "length A = length (drop ?p K)" using True by linarith
    then have "map recipient_key A = drop ?p K" using keys True by simp
    then show ?thesis unfolding rot W(1) using wrap len A(2) W(3) True by (auto simp: recipients_ok_def)
  qed
qed

lemma start_index_after:
  assumes "sorted_wrt (<) K" "j < length K"
  shows "start_index (Some (K ! j)) K = Suc j"
proof -
  have "length (filter (beyond (Some (K ! j))) K) = length K - Suc j" by (simp add: filter_beyond_nth [OF assms])
  moreover have "length (filter (beyond (Some (K ! j))) K) + start_index (Some (K ! j)) K = length K"
    unfolding start_index_def by (rule sum_length_filter_compl)
  ultimately show ?thesis using assms(2) by simp
qed

abbreviation pass_state :: "key_codec \<Rightarrow> (owner_token \<Rightarrow> bool) \<Rightarrow> nat \<Rightarrow> owner_token list \<Rightarrow> 'l hub_controller \<Rightarrow> 'l hub_controller" where
  "pass_state kc usable limit owners c \<equiv> fst (recipient_pass kc usable limit owners c)"

text \<open>The recipients eligible in a state, and where the next pass begins among them.\<close>

definition eligible_keys :: "key_codec \<Rightarrow> (owner_token \<Rightarrow> bool) \<Rightarrow> owner_token list \<Rightarrow> 'l hub_controller \<Rightarrow> string list" where
  "eligible_keys kc usable owners c = directory (hub_recipient kc usable c) owners"

definition pass_index :: "key_codec \<Rightarrow> (owner_token \<Rightarrow> bool) \<Rightarrow> owner_token list \<Rightarrow> 'l hub_controller \<Rightarrow> nat" where
  "pass_index kc usable owners c = start_index (hc_recipient_after c) (eligible_keys kc usable owners c)"

lemma eligible_keys_sorted: "sorted_wrt (<) (eligible_keys kc usable owners c)"
  unfolding eligible_keys_def by (rule directory_sorted)

lemma hub_recipient_advance: "hub_recipient kc usable (advance_recipient_after k c) = hub_recipient kc usable c"
  by (simp add: hub_recipient_def fun_eq_iff configured_hub_def advance_recipient_after_def)

lemma pass_keeps_keys: "eligible_keys kc usable owners (pass_state kc usable limit owners c) = eligible_keys kc usable owners c"
  by (simp add: recipient_pass_def Let_def eligible_keys_def hub_recipient_advance)

lemma rotate_dials_take: "fst (rotate_dials limit i K) = take limit (rotate i K)"
proof -
  have "rotate (i mod length K) K = rotate i K" by (rule rotate_conv_mod [symmetric])
  then show ?thesis by (simp add: rotate_dials_def Let_def min_def)
qed

lemma pass_recipients:
  assumes "0 < limit"
  shows "map ow_device_id (snd (recipient_pass kc usable limit owners c)) =
      fst (rotate_dials limit (pass_index kc usable owners c) (eligible_keys kc usable owners c))"
    and "set (snd (recipient_pass kc usable limit owners c)) \<subseteq> {w \<in> set owners. hub_recipient kc usable c w}"
proof -
  note sel = select_recipients_rotate [OF assms, of "hub_recipient kc usable c" "hc_recipient_after c" owners]
  let ?rs = "select_recipients (hub_recipient kc usable c) limit (hc_recipient_after c) owners"
  have "map (\<lambda>r. ow_device_id (snd (snd r))) ?rs = map recipient_key ?rs"
    using conjunct2 [OF sel] by (simp add: recipients_ok_def)
  from trans [OF this conjunct1 [OF sel]]
  show "map ow_device_id (snd (recipient_pass kc usable limit owners c)) =
      fst (rotate_dials limit (pass_index kc usable owners c) (eligible_keys kc usable owners c))"
    by (simp add: recipient_pass_def Let_def comp_def rotate_dials_take pass_index_def eligible_keys_def)
  show "set (snd (recipient_pass kc usable limit owners c)) \<subseteq> {w \<in> set owners. hub_recipient kc usable c w}"
    using conjunct2 [OF sel] by (auto simp: recipient_pass_def Let_def recipients_ok_def)
qed

lemma pass_after:
  fixes kc :: key_codec and usable :: "owner_token \<Rightarrow> bool" and owners :: "owner_token list" and c :: "'l hub_controller"
  assumes "0 < limit" "eligible_keys kc usable owners c \<noteq> []"
  defines "K \<equiv> eligible_keys kc usable owners c" and "i \<equiv> pass_index kc usable owners c"
  shows "hc_recipient_after (pass_state kc usable limit owners c) = Some (K ! ((i + (min limit (length K) - 1)) mod length K))"
proof -
  let ?rs = "select_recipients (hub_recipient kc usable c) limit (hc_recipient_after c) owners"
  have keys: "map recipient_key ?rs = take limit (rotate i K)"
    using select_recipients_rotate [OF assms(1), of "hub_recipient kc usable c" "hc_recipient_after c" owners]
    by (simp add: i_def K_def pass_index_def eligible_keys_def)
  have ne: "0 < length K" using assms(2) by (simp add: K_def)
  have len: "length ?rs = min limit (length K)" using arg_cong [OF keys, of length] by (simp add: min.commute)
  have "0 < length ?rs" unfolding len using ne assms(1) by simp
  then have rs: "?rs \<noteq> []" by simp
  have "recipient_key (last ?rs) = map recipient_key ?rs ! (length ?rs - 1)" using rs by (simp add: last_conv_nth)
  also have "\<dots> = rotate i K ! (min limit (length K) - 1)" unfolding keys len using ne assms(1) by simp
  also have "\<dots> = K ! ((i + (min limit (length K) - 1)) mod length K)" using ne assms(1) by (intro nth_rotate) linarith
  finally show ?thesis using rs by (simp add: recipient_pass_def Let_def advance_recipient_after_def)
qed

lemma pass_moves:
  fixes kc :: key_codec and usable :: "owner_token \<Rightarrow> bool" and owners :: "owner_token list" and c :: "'l hub_controller"
  assumes "0 < limit" "eligible_keys kc usable owners c \<noteq> []"
  defines "K \<equiv> eligible_keys kc usable owners c" and "i \<equiv> pass_index kc usable owners c"
  shows "pass_index kc usable owners (pass_state kc usable limit owners c) mod length K = snd (rotate_dials limit i K) mod length K"
proof -
  let ?j = "(i + (min limit (length K) - 1)) mod length K"
  have ne: "0 < length K" using assms(2) by (simp add: K_def)
  have "pass_index kc usable owners (pass_state kc usable limit owners c) = start_index (Some (K ! ?j)) K"
    using pass_after [OF assms(1,2)]
    unfolding pass_index_def [of _ _ _ "pass_state kc usable limit owners c"] pass_keeps_keys K_def [symmetric] i_def [symmetric]
    by simp
  also have "\<dots> = Suc ?j" using ne by (intro start_index_after) (simp_all add: K_def eligible_keys_sorted)
  finally have "pass_index kc usable owners (pass_state kc usable limit owners c) mod length K =
      Suc (i + (min limit (length K) - 1)) mod length K" by (simp add: mod_Suc_eq)
  moreover have "Suc (i + (min limit (length K) - 1)) = i + min limit (length K)" using ne assms(1) by simp
  ultimately have "pass_index kc usable owners (pass_state kc usable limit owners c) mod length K =
      (i + min limit (length K)) mod length K" by (simp only:)
  then show ?thesis using ne by (simp add: rotate_dials_def Let_def mod_add_left_eq)
qed

text \<open>A sequence of passes, with anything between them that leaves the rotation and the recipients alone.\<close>

definition pass_sequence :: "key_codec \<Rightarrow> (owner_token \<Rightarrow> bool) \<Rightarrow> nat \<Rightarrow> owner_token list \<Rightarrow> (nat \<Rightarrow> 'l hub_controller) \<Rightarrow> bool" where
  "pass_sequence kc usable limit owners cs \<longleftrightarrow>
     (\<forall>j. hc_recipient_after (cs (Suc j)) = hc_recipient_after (pass_state kc usable limit owners (cs j)) \<and>
          hub_recipient kc usable (cs (Suc j)) = hub_recipient kc usable (cs j))"

lemma pass_sequence_recipient: "pass_sequence kc usable limit owners cs \<Longrightarrow> hub_recipient kc usable (cs j) = hub_recipient kc usable (cs 0)"
  by (induction j) (simp_all add: pass_sequence_def)

lemma pass_sequence_keys: "pass_sequence kc usable limit owners cs \<Longrightarrow> eligible_keys kc usable owners (cs j) = eligible_keys kc usable owners (cs 0)"
  using pass_sequence_recipient [of kc usable limit owners cs j] by (simp add: eligible_keys_def)

lemma pass_sequence_index:
  fixes cs :: "nat \<Rightarrow> 'l hub_controller"
  assumes seq: "pass_sequence kc usable limit owners cs" and "0 < limit"
  defines "K \<equiv> eligible_keys kc usable owners (cs 0)"
  assumes "K \<noteq> []"
  shows "pass_index kc usable owners (cs j) mod length K = (pass_index kc usable owners (cs 0) + j * min limit (length K)) mod length K"
proof (induction j)
  case (Suc j)
  note keys = pass_sequence_keys [OF seq, of j] pass_sequence_keys [OF seq, of "Suc j"]
  have "pass_index kc usable owners (cs (Suc j)) = pass_index kc usable owners (pass_state kc usable limit owners (cs j))"
    using seq keys by (simp add: pass_index_def pass_keeps_keys pass_sequence_def)
  also have "\<dots> mod length K = snd (rotate_dials limit (pass_index kc usable owners (cs j)) K) mod length K"
    using pass_moves [OF assms(2), of kc usable owners "cs j"] assms(4) keys(1) by (simp add: K_def)
  also have "\<dots> = (pass_index kc usable owners (cs j) mod length K + min limit (length K)) mod length K"
    using assms(4) by (simp add: rotate_dials_def Let_def)
  also have "\<dots> = (pass_index kc usable owners (cs 0) + j * min limit (length K) + min limit (length K)) mod length K"
    unfolding Suc.IH by (rule mod_add_left_eq)
  finally show ?case by (simp add: algebra_simps)
qed simp

lemma rotate_dials_mod: "c mod length xs = d mod length xs \<Longrightarrow> fst (rotate_dials m c xs) = fst (rotate_dials m d xs)"
  by (simp add: rotate_dials_def Let_def)

lemma pass_sequence_covers:
  fixes cs :: "nat \<Rightarrow> 'l hub_controller"
  assumes seq: "pass_sequence kc usable limit owners cs" and "0 < limit"
  defines "K \<equiv> eligible_keys kc usable owners (cs 0)"
  assumes "key \<in> set K"
  shows "\<exists>k \<le> (length K - 1) div min limit (length K). key \<in> ow_device_id ` set (snd (recipient_pass kc usable limit owners (cs k)))"
proof -
  have ne: "K \<noteq> []" using assms(4) by auto
  let ?i = "pass_index kc usable owners (cs 0)"
  obtain k where k: "k \<le> (length K - 1) div min limit (length K)"
      "key \<in> set (fst (rotate_dials limit (((\<lambda>c. snd (rotate_dials limit c K)) ^^ k) ?i) K))"
    using rotation_covers [OF ne assms(2,4), of ?i] by blast
  have "fst (rotate_dials limit (((\<lambda>c. snd (rotate_dials limit c K)) ^^ k) ?i) K) =
      fst (rotate_dials limit (pass_index kc usable owners (cs k)) K)"
    using pass_sequence_index [OF seq assms(2), of k] ne
    by (intro rotate_dials_mod) (simp add: rotate_dials_cursor K_def)
  also have "\<dots> = map ow_device_id (snd (recipient_pass kc usable limit owners (cs k)))"
    using pass_recipients(1) [OF assms(2), of kc usable owners "cs k"] pass_sequence_keys [OF seq, of k] by (simp add: K_def)
  finally show ?thesis using k by auto
qed

lemma eligible_keys_length:
  assumes "distinct (map ow_device_id owners)"
  shows "length (eligible_keys kc usable owners c) = length (filter (hub_recipient kc usable c) owners)"
proof -
  let ?es = "filter (hub_recipient kc usable c) owners"
  have "distinct (eligible_keys kc usable owners c)"
    using eligible_keys_sorted by (metis strict_sorted_iff)
  then have "length (eligible_keys kc usable owners c) = card (ow_device_id ` set ?es)"
    by (simp add: distinct_card [symmetric] eligible_keys_def set_directory)
  also have "\<dots> = length ?es"
    using assms distinct_card [of "map ow_device_id ?es"] by (simp add: distinct_map_filter)
  finally show ?thesis .
qed

text \<open>
  C36: with unchanged authenticated owners of distinct identities, every owner that may receive an
  advertisement is among the recipients of one of the next passes, whatever the rotation cursor was,
  and the number of passes is the number of eligible owners over the recipients of one pass.
\<close>

theorem recipient_rotation_fair:
  fixes cs :: "nat \<Rightarrow> 'l hub_controller"
  assumes "pass_sequence kc usable limit owners cs" "0 < limit" "distinct (map ow_device_id owners)"
    and "owner \<in> set owners" "hub_recipient kc usable (cs 0) owner"
  shows "\<exists>k \<le> (length (filter (hub_recipient kc usable (cs 0)) owners) - 1) div
        min limit (length (filter (hub_recipient kc usable (cs 0)) owners)).
      owner \<in> set (snd (recipient_pass kc usable limit owners (cs k)))"
proof -
  have "ow_device_id owner \<in> set (eligible_keys kc usable owners (cs 0))"
    using assms(4,5) by (auto simp: eligible_keys_def set_directory)
  from pass_sequence_covers [OF assms(1,2) this] obtain k other where k:
      "k \<le> (length (filter (hub_recipient kc usable (cs 0)) owners) - 1) div
        min limit (length (filter (hub_recipient kc usable (cs 0)) owners))"
      "other \<in> set (snd (recipient_pass kc usable limit owners (cs k)))" "ow_device_id other = ow_device_id owner"
    by (auto simp: eligible_keys_length [OF assms(3)])
  moreover have "other \<in> set owners" using k(2) pass_recipients(2) [OF assms(2)] by blast
  ultimately have "other = owner" using assms(3,4) by (auto simp: distinct_map dest: inj_onD)
  then show ?thesis using k(1,2) by blast
qed

lemma pass_keeps_recipient: "hub_recipient kc usable (pass_state kc usable limit owners c) = hub_recipient kc usable c"
  by (simp add: recipient_pass_def Let_def hub_recipient_advance)

lemma sample_recipient: "hub_recipient sample_codec (\<lambda>_. True) (sample_client local_id) sample_owner"
  by (simp add: hub_recipient_def configured_hub_def sample_client_def fresh_cursor_def canonical_sample_id
      del: replicate.simps)

lemma recipient_rotation_fair_witness:
  "\<exists>k \<le> 0. sample_owner \<in> set (snd (recipient_pass sample_codec (\<lambda>_. True) 1 [sample_owner]
      ((pass_state sample_codec (\<lambda>_. True) 1 [sample_owner] ^^ k) (sample_client ''local''))))"
  using recipient_rotation_fair [of sample_codec "\<lambda>_. True" 1 "[sample_owner]"
      "\<lambda>k. (pass_state sample_codec (\<lambda>_. True) 1 [sample_owner] ^^ k) (sample_client ''local'')" sample_owner]
    sample_recipient [of "''local''"]
  by (simp add: pass_sequence_def pass_keeps_recipient del: replicate.simps)

end
