(* ===== verification/Hub_Stream.thy ===== *)
theory Hub_Stream
  imports Hub_Advertising
begin

text \<open>
  A hub and one of its peers, end to end: every call of both controllers in any order, and a network
  between them that loses, repeats and reorders advertisements. The sequence numbers the hub sends
  ascend, and the peer accepts exactly what is newer than all it has accepted. The budget for inbound
  directory queries is here too, as a bound over every interval of time.
\<close>

section \<open>What a call keeps\<close>

definition replay :: "string \<Rightarrow> 'l hub_controller \<Rightarrow> (byte list \<times> u64 \<times> u64) option" where
  "replay origin c =
     map_option (\<lambda>cu. (cu_binding_namespace cu, cu_binding_epoch cu, cu_sequence cu)) (find_cursor origin c)"

definition hub_kept :: "string \<Rightarrow> 'l hub_controller \<Rightarrow> 'l hub_controller \<Rightarrow> bool" where
  "hub_kept origin c c' \<longleftrightarrow>
     same_config c c' \<and> hc_digest c' = hc_digest c \<and> replay origin c' = replay origin c \<and>
     (advertiser_ok (hc_timer c) \<longrightarrow> advances (hc_timer c) (hc_timer c'))"

lemma hub_keptI:
  assumes "same_config c c'" "hc_digest c' = hc_digest c" "hc_cursors c' = hc_cursors c" "hc_timer c' = hc_timer c"
  shows "hub_kept origin c c'"
  using assms by (simp add: hub_kept_def replay_def find_cursor_def advances_refl)

lemma hub_kept_refl [simp]: "hub_kept origin c c"
  by (simp add: hub_keptI)
















section \<open>What the hub sends\<close>









section \<open>What the peer accepts\<close>








section \<open>The hub and its peer\<close>


































section \<open>The budget of inbound queries\<close>

text \<open>The budget on natural numbers: where the window began, what it has admitted, and the times admitted.\<close>

fun admit :: "nat \<Rightarrow> nat \<Rightarrow> nat \<Rightarrow> nat \<times> nat \<Rightarrow> (nat \<times> nat) \<times> bool" where
  "admit limit interval now (began, count) =
     (let (began, count) = (if interval \<le> now - began then (now, 0) else (began, count)) in
      if limit \<le> count then ((began, count), False) else ((began, count + 1), True))"

definition window :: "'l hub_controller \<Rightarrow> nat \<times> nat" where
  "window c = (unat (hc_inbound_window_started_ms c), unat (hc_inbound_window_count c))"

definition probe_limit :: "'l hub_controller \<Rightarrow> nat" where
  "probe_limit c = unat (hp_max_exploration_probes_per_pass (hc_policy c))"

definition probe_interval :: "'l hub_controller \<Rightarrow> nat" where
  "probe_interval c = unat (hp_exploration_interval_ms (hc_policy c))"

lemma accept_admits:
  "accept_discovery_request now c = (c', b) \<Longrightarrow>
   (window c', b) = admit (probe_limit c) (probe_interval c) (unat now) (window c) \<and> hc_policy c' = hc_policy c"
proof -
  have grow: "unat (saturating_add n 1) = Suc (unat n)" if "\<not> l \<le> n" for l n :: u64
  proof -
    have "unat n < 18446744073709551615" using that unat_u64_le [of l] unfolding word_le_nat_alt by linarith
    then show ?thesis by (simp add: unat_saturating_add)
  qed
  show "accept_discovery_request now c = (c', b) \<Longrightarrow> ?thesis"
    by (auto simp: accept_discovery_request_def window_def probe_limit_def probe_interval_def Let_def unat_saturating_sub
        grow word_le_nat_alt split: if_splits)
qed

lemma hub_controller_new_window:
  assumes "hub_controller_new next_u64 sha kc semaphore_max sizes acquire policy topology ctx local_id rng =
    Some (rng', Inr (Some c))"
  shows "hc_inbound_window_started_ms c = 0 \<and> hc_inbound_window_count c = 0"
proof -
  obtain hubs digest lease where
    "hub_controller_start next_u64 policy ctx local_id digest (normalized_ids hubs) lease rng = Some (rng', Inr (Some c))"
    by (rule hub_controller_new_start [OF assms])
  then show ?thesis by (auto simp: hub_controller_start_def split: sum.splits option.splits)
qed

text \<open>A sequence of inbound queries, each with its time and what the handler reads of the registry.\<close>

record probe =
  pb_now :: u64
  pb_usable :: "owner_token \<Rightarrow> bool"
  pb_owners :: "owner_token list"
  pb_current :: bool
  pb_request :: hub_discovery_request

fun serve_run :: "key_codec \<Rightarrow> string \<Rightarrow> probe list \<Rightarrow> 'l hub_controller \<Rightarrow> 'l hub_controller \<times> u64 list" where
  "serve_run kc public_id [] c = (c, [])"
| "serve_run kc public_id (p # probes) c =
     (case handle_hub_discovery_request kc (pb_usable p) public_id (pb_now p) (pb_owners p) (pb_current p) (pb_request p) c of
        (c, answer) \<Rightarrow>
          (case serve_run kc public_id probes c of
             (c, replied) \<Rightarrow> (c, case answer of None \<Rightarrow> replied | Some _ \<Rightarrow> pb_now p # replied)))"

lemma serve_admits:
  assumes "handle_hub_discovery_request kc usable public_id now owners current q c = (c', answer)"
  shows "hc_policy c' = hc_policy c \<and>
    (window c' = window c \<and> answer = None \<or>
     (\<exists>b. (window c', b) = admit (probe_limit c) (probe_interval c) (unat now) (window c) \<and> (answer \<noteq> None \<longrightarrow> b)))"
  using assms accept_admits [of now c]
  by (auto simp: handle_hub_discovery_request_def split: if_splits prod.splits bool.splits sum.splits)

text \<open>What may still be answered between \<open>a\<close> and \<open>a\<close> plus the interval, from a state of the window.\<close>

fun allowance :: "nat \<Rightarrow> nat \<Rightarrow> nat \<Rightarrow> nat \<times> nat \<Rightarrow> nat" where
  "allowance limit interval a (began, count) =
     (if a + interval \<le> began then 0
      else if a \<le> began then limit - count
      else if a < began + interval then limit + (limit - count) else 2 * limit)"

lemma allowance_admit:
  assumes "((began', count'), b) = admit limit interval now (began, count)" "began \<le> now" "0 < interval"
  shows "began' \<le> now" "(if b \<and> a \<le> now \<and> now < a + interval then 1 else 0) + allowance limit interval a (began', count') \<le>
    allowance limit interval a (began, count)"
  using assms by (auto split: if_splits)

lemma serve_run_bound:
  assumes "sorted (map (unat \<circ> pb_now) probes)" "\<forall>p \<in> set probes. fst (window c) \<le> unat (pb_now p)" "0 < probe_interval c"
  shows "length (filter (\<lambda>t. a \<le> unat t \<and> unat t < a + probe_interval c) (snd (serve_run kc public_id probes c))) \<le>
    allowance (probe_limit c) (probe_interval c) a (window c)"
  using assms
proof (induction probes arbitrary: c)
  case (Cons p probes)
  obtain c' answer where run: "handle_hub_discovery_request kc (pb_usable p) public_id (pb_now p) (pb_owners p)
      (pb_current p) (pb_request p) c = (c', answer)" by fastforce
  note adm = serve_admits [OF run]
  have pol: "probe_limit c' = probe_limit c" "probe_interval c' = probe_interval c"
    using adm by (simp_all add: probe_limit_def probe_interval_def)
  have later: "\<forall>x \<in> set probes. unat (pb_now p) \<le> unat (pb_now x)" using Cons.prems(1) by simp
  have spent: "fst (window c') \<le> unat (pb_now p) \<and>
      (if answer \<noteq> None \<and> a \<le> unat (pb_now p) \<and> unat (pb_now p) < a + probe_interval c then 1 else 0) +
        allowance (probe_limit c) (probe_interval c) a (window c') \<le> allowance (probe_limit c) (probe_interval c) a (window c)"
  proof (cases "window c' = window c \<and> answer = None")
    case True
    then show ?thesis using Cons.prems(2) by simp
  next
    case False
    then obtain b where b: "(window c', b) = admit (probe_limit c) (probe_interval c) (unat (pb_now p)) (window c)" "answer \<noteq> None \<longrightarrow> b"
      using adm by blast
    obtain began count began' count' where w: "window c = (began, count)" "window c' = (began', count')" by fastforce
    have "began \<le> unat (pb_now p)" using Cons.prems(2) w by simp
    note step = allowance_admit [OF b(1) [unfolded w] this Cons.prems(3)]
    show ?thesis unfolding w using step(1) step(2) [of a] b(2) by (auto split: if_splits)
  qed
  have "fst (window c') \<le> unat (pb_now x)" if "x \<in> set probes" for x
    using spent later that order_trans by blast
  then have "length (filter (\<lambda>t. a \<le> unat t \<and> unat t < a + probe_interval c) (snd (serve_run kc public_id probes c'))) \<le>
      allowance (probe_limit c) (probe_interval c) a (window c')"
    using Cons.IH [of c'] Cons.prems pol by simp
  then show ?case using spent by (auto simp: run split: prod.splits option.splits if_splits)
qed simp

text \<open>
  C37: however many directory queries reach a hub, from whatever devices, it answers at most twice the
  number of probes per pass in any interval of the length of the exploration interval, as long as the
  clock does not run backwards.
\<close>

theorem discovery_rate_bound:
  assumes new: "hub_controller_new next_u64 sha kc semaphore_max sizes acquire policy topology ctx local_id rng =
      Some (rng', Inr (Some c))"
    and clock: "sorted (map (unat \<circ> pb_now) probes)"
  shows "length (filter (\<lambda>t. a \<le> unat t \<and> unat t < a + unat (hp_exploration_interval_ms policy))
      (snd (serve_run kc public_id probes c))) \<le> 2 * unat (hp_max_exploration_probes_per_pass policy)"
proof -
  have c: "hc_policy c = policy" "0 < probe_interval c" "probe_interval c = unat (hp_exploration_interval_ms policy)"
    using hub_controller_new_ok [OF new] by (simp_all add: probe_interval_def unat_gt_0 word_gt_0)
  have "window c = (0, 0)"
    using hub_controller_new_window [OF new] by (simp add: window_def)
  moreover have "allowance limit interval a (0, 0) \<le> 2 * limit" for limit interval by simp
  ultimately show ?thesis
    using serve_run_bound [OF clock, of c a kc public_id] c order_trans by (fastforce simp: probe_limit_def)
qed

definition sample_probe :: "u64 \<Rightarrow> probe" where
  "sample_probe now =
     \<lparr>pb_now = now, pb_usable = (\<lambda>_. True), pb_owners = [], pb_current = True, pb_request = sample_query\<rparr>"

lemma sample_budget:
  "snd (serve_run sample_codec sample_hub [sample_probe 3, sample_probe 4] (sample_client sample_hub)) = [3]"
proof -
  have "discovery_page eligible [] sample_query = Inr \<lparr>ds_context_id = replicate 32 0, ds_request_sequence = 1, ds_peers = [],
      ds_next_after = None\<rparr>" for eligible
    using discovery_page_eq [of sample_query eligible "[]"]
    by (simp add: sample_query_def directory_def normalized_ids_def page_after_def next_after_def)
  then show ?thesis
    by (simp add: handle_hub_discovery_request_def accept_discovery_request_def sample_probe_def sample_client_def
        sample_hub_policy_def local_is_hub_def fresh_cursor_def sample_query_def saturating_sub_def checked_sub_def
        saturating_add_def checked_add_def Let_def word_le_nat_alt del: replicate.simps)
qed

lemma discovery_rate_bound_witness:
  "snd (serve_run sample_codec sample_hub [sample_probe 3, sample_probe 4] (sample_client sample_hub)) = [3] \<and>
   length (filter (\<lambda>t. 3 \<le> unat t \<and> unat t < 3 + unat (hp_exploration_interval_ms sample_hub_policy))
     (snd (serve_run sample_codec sample_hub [sample_probe 3, sample_probe 4] (sample_client sample_hub)))) \<le>
   2 * unat (hp_max_exploration_probes_per_pass sample_hub_policy)"
proof (rule conjI [OF sample_budget])
  have "sorted (map (unat \<circ> pb_now) [sample_probe 3, sample_probe 4])" by (simp add: sample_probe_def)
  from discovery_rate_bound [OF sample_new this, of 3]
  show "length (filter (\<lambda>t. 3 \<le> unat t \<and> unat t < 3 + unat (hp_exploration_interval_ms sample_hub_policy))
     (snd (serve_run sample_codec sample_hub [sample_probe 3, sample_probe 4] (sample_client sample_hub)))) \<le>
   2 * unat (hp_max_exploration_probes_per_pass sample_hub_policy)" .
qed

end
