(* ===== verification/Spec2Isabelle.thy ===== *)
theory Spec2Isabelle
  imports Resource_Port Shape_Plan Parenting_Bound Reliable_Flush Hub_Stream
begin

text \<open>
  A verification development of the mesh networking daemon under \<open>src/crates\<close>. A device joins a
  network, keeps sessions to some of its members as a topology prescribes, exchanges messages over them
  with acknowledged delivery, and pays for everything it retains out of one process-wide resource grant.
  All paths below are relative to \<open>src/crates/myownmesh-core/src\<close>.

  \<^bold>\<open>Parts and theories\<close>

  \<^item> \<open>Mesh_Prelude\<close>: checked and saturating 64-bit arithmetic, \<open>usize\<close> as natural numbers with their
    bound written out, and ordered maps and sets as sorted association lists (locale \<open>ordered_map\<close>).
  \<^item> \<open>Resource_Claims\<close>, \<open>Resource_Provider\<close>, \<open>Resource_Port\<close>: \<open>resource/provider.rs\<close>. The composite
    claims; \<open>FiniteResourceProvider\<close> with its grant, reservations, scopes, retained charge and mutex
    poisoning; the port with its registry of scopes and its leases, as the step relation \<open>port_reach\<close>
    over a provider behind the locale \<open>resource_provider\<close>, which the finite provider interprets.
    The charge in use is always exactly what is live or retained, nothing exceeds the grant, and
    when all handles are gone only retained charge is left.
  \<^item> \<open>Funded_Store\<close>, \<open>Leased_Map\<close>, \<open>Leased_Queue\<close>: \<open>resource/map.rs\<close> and \<open>resource/queue.rs\<close>, the
    containers whose entries carry a lease. The treap and the two-chain queue refine an ordered map and
    a list (locales \<open>funded_store\<close> and \<open>fallible_store\<close>), and every lease is given back exactly once.
  \<^item> \<open>Device_Ids\<close>, \<open>Ranked_Selection\<close>, \<open>Topology_Hubs\<close>, \<open>Topology_Tree\<close>, \<open>Topology_Ring\<close>,
    \<open>Topology_Shape\<close>: \<open>signing.rs\<close> and \<open>topology/\<close>. The five selectors, the bounded selection loops they
    share (locales \<open>strict_ranking\<close> and \<open>key_ranking\<close>), and the \<open>Topology\<close> trait (locale
    \<open>topology_contract\<close>, interpreted for each selector and for the dispatch over the modes).
  \<^item> \<open>Shape_Plan\<close>: \<open>engine/ladder.rs\<close>, the shelve pass, the plan of dials and prunes and the dial loop.
    Two members agree who dials, and a pass settles.
  \<^item> \<open>Parenting\<close>, \<open>Parenting_Table\<close>, \<open>Parenting_Calls\<close>, \<open>Parenting_Bound\<close>: \<open>engine/parenting.rs\<close>, the
    relations of a hub tree: the invariant over all calls, the attach handshake, exact retirement, and how
    many records a table holds.
  \<^item> \<open>Trickle\<close>: \<open>engine/trickle.rs\<close>, the RFC 6206 timer, its fair draw, and the equivalence of the
    bounded catch-up with stepping through every missed interval.
  \<^item> \<open>Reliable_State\<close>, \<open>Reliable_Sender\<close>, \<open>Reliable_Stream\<close>, \<open>Reliable_Flush\<close>:
    \<open>runtime/peer_session/reliable.rs\<close> and \<open>engine/reliable.rs\<close>. The session record over the leased queue,
    two sessions joined by a network that loses, repeats and reorders (\<open>link_reach\<close>), delivery in
    order and at most once, and the drain of a stream that lost nothing.
  \<^item> \<open>Canonical_Ids\<close>, \<open>Hub_Protocol\<close>: \<open>semantic/content.rs\<close>, \<open>protocol/hub.rs\<close> and the digest of
    \<open>protocol/parenting.rs\<close>. The two parsers of identities, the typed hub messages and the
    configuration digests.
  \<^item> \<open>Hub_Controller\<close>, \<open>Hub_Directory\<close>, \<open>Hub_Advertising\<close>, \<open>Hub_Stream\<close>: \<open>engine/hub.rs\<close> and its drive in
    \<open>engine/state.rs\<close> (\<open>poll_hub\<close>, \<open>handle_hub_discovery_request\<close>). The controller, the pages a client
    accepts from a hub, the rotation of recipients, and a hub and a peer end to end.

  \<^bold>\<open>How the model corresponds to the code\<close>

  A structure is a record with the source's fields under a short prefix, an enumeration a datatype, an
  operation one definition that takes the state and returns the state it leaves with its result. Errors
  are the left of a sum; a panic is \<open>None\<close> where the code can reach one. A \<open>u64\<close> is a 64-bit word. What the
  code reads from its environment is an argument: the clock, the random generator \<open>next_u64\<close>, the answer
  of the resource scope, the sizes of Rust structures. Third-party code is a parameter: SHA-256 (\<open>sha\<close>), the
  base32 and Ed25519 codec (\<open>key_codec\<close>, with what the parsers rely on as \<open>base32_nopad\<close>), the JSON
  serializer, and the hash of the treap priorities. Asynchronous tasks appear as arbitrary interleavings
  of the calls they make, in the inductive relations of \<open>Resource_Port\<close>, \<open>Shape_Plan\<close>, \<open>Reliable_Stream\<close>,
  \<open>Hub_Directory\<close> and \<open>Hub_Stream\<close>.

  \<^bold>\<open>Bounds and loops\<close>

  No loop of the model has fuel chosen by hand. Loops over a range recurse over its list of steps, other
  loops have a termination proof by a measure. Three loops are partial functions to an option: the two
  rejection loops, which end only if the generator yields an accepted sample (\<open>uniform_below_fair\<close> shows
  when the unbiased draw returns and with what), and the flush loop (\<open>flush_delivers_all\<close> shows that it
  ends). The queue theorem needs fewer than 2^64 pushes because its counters
  are machine words, and the advertisements ascend until the generation of the timer is exhausted.

  \<^bold>\<open>Divergences\<close>

  Three theorems show where the code departs from its description: a refused first port leaves the provider
  bound (\<open>refused_port_binds_authority\<close>), a parenting table can outgrow \<open>relation_bound\<close>
  (\<open>relation_bound_exceeded\<close>), and a frame once written is never written again
  (\<open>sent_never_rewritten\<close>), where comments speak of retransmission.

  \<^bold>\<open>Not modelled\<close>

  The tokio tasks, channels and locks of the engine, the registry of live sessions, the WebRTC transport, the
  signaling drivers and servers, the STUN and TURN services, the daemon's control sockets, command line,
  updater and desktop interface are asynchronous input and output over third-party crates. The semantic
  ledger and governance keep signed facts in SQLite, which is not part of the sources. Code compiled only
  for tests or the transport-lab feature is left out everywhere.
\<close>

end
